(* ===== verification/Prelude.thy ===== *)
theory Prelude
  imports Main "HOL-Library.Word"
begin

text \<open>
  The vocabulary every component shares: the widths of the machine integers, Rust's
  \<^verbatim>\<open>Result\<close> with the \<^verbatim>\<open>?\<close> operator, the checked and saturating integer operations,
  and the partial accesses of \<^verbatim>\<open>Vec\<close> and slices. A word is read as a natural number
  through \<open>unat\<close>; the lemmas collected in \<open>checked\<close> turn a successful checked operation
  into the exact equation on naturals that it stands for, and \<open>rust\<close> collects the
  unfolding rules of the \<^verbatim>\<open>Result\<close> combinators.
\<close>

named_theorems checked \<open>what a successful checked operation computes\<close>
named_theorems rust \<open>unfolding of the Result and Option combinators\<close>

section \<open>Machine integers\<close>

type_synonym u8 = "8 word"
type_synonym u16 = "16 word"
type_synonym u32 = "32 word"
type_synonym u64 = "64 word"
type_synonym u128 = "128 word"
type_synonym u256 = "256 word"
type_synonym u512 = "512 word"
type_synonym address = "160 word"
type_synonym b256 = "256 word"

definition checked_add :: "'a::len word \<Rightarrow> 'a word \<Rightarrow> 'a word option" where
  "checked_add a b = (if unat a + unat b < 2 ^ LENGTH('a) then Some (a + b) else None)"

definition checked_sub :: "'a::len word \<Rightarrow> 'a word \<Rightarrow> 'a word option" where
  "checked_sub a b = (if b \<le> a then Some (a - b) else None)"

definition checked_mul :: "'a::len word \<Rightarrow> 'a word \<Rightarrow> 'a word option" where
  "checked_mul a b = (if unat a * unat b < 2 ^ LENGTH('a) then Some (a * b) else None)"

definition checked_div :: "'a::len word \<Rightarrow> 'a word \<Rightarrow> 'a word option" where
  "checked_div a b = (if b = 0 then None else Some (a div b))"

definition saturating_add :: "'a::len word \<Rightarrow> 'a word \<Rightarrow> 'a word" where
  "saturating_add a b = (if unat a + unat b < 2 ^ LENGTH('a) then a + b else - 1)"

definition saturating_sub :: "'a::len word \<Rightarrow> 'a word \<Rightarrow> 'a word" where
  "saturating_sub a b = (if b \<le> a then a - b else 0)"

text \<open>Shifts and bit counts: \<^verbatim>\<open>checked_shl\<close> fails at the width, \<^verbatim>\<open>trailing_zeros\<close> of zero is the
  width.\<close>

definition checked_shl :: "'a::len word \<Rightarrow> nat \<Rightarrow> 'a word option" where
  "checked_shl a n = (if n < LENGTH('a) then Some (push_bit n a) else None)"

definition trailing_zeros :: "'a::len word \<Rightarrow> nat" where
  "trailing_zeros a = length (takeWhile (\<lambda>i. \<not> bit a i) [0..<LENGTH('a)])"

definition count_ones :: "'a::len word \<Rightarrow> nat" where
  "count_ones a = length (filter (bit a) [0..<LENGTH('a)])"

text \<open>\<^verbatim>\<open>uN::try_from\<close> between widths, and from a \<^verbatim>\<open>usize\<close> length.\<close>

definition try_narrow :: "'a::len word \<Rightarrow> 'b::len word option" where
  "try_narrow a = (if unat a < 2 ^ LENGTH('b) then Some (ucast a) else None)"

definition try_from_usize :: "nat \<Rightarrow> 'b::len word option" where
  "try_from_usize n = (if n < 2 ^ LENGTH('b) then Some (of_nat n) else None)"

text \<open>\<^verbatim>\<open>usize\<close> is 64 bits wide on the supported targets; a length or an index is a natural number
  below \<open>USIZE_LIMIT\<close> and the checked operations say so.\<close>

definition USIZE_LIMIT :: nat where
  "USIZE_LIMIT = 2 ^ 64"

definition usize_add :: "nat \<Rightarrow> nat \<Rightarrow> nat option" where
  "usize_add a b = (if a + b < USIZE_LIMIT then Some (a + b) else None)"

definition usize_sub :: "nat \<Rightarrow> nat \<Rightarrow> nat option" where
  "usize_sub a b = (if b \<le> a then Some (a - b) else None)"

definition usize_mul :: "nat \<Rightarrow> nat \<Rightarrow> nat option" where
  "usize_mul a b = (if a * b < USIZE_LIMIT then Some (a * b) else None)"

definition usize_saturating_add :: "nat \<Rightarrow> nat \<Rightarrow> nat" where
  "usize_saturating_add a b = min (a + b) (USIZE_LIMIT - 1)"

definition usize_saturating_mul :: "nat \<Rightarrow> nat \<Rightarrow> nat" where
  "usize_saturating_mul a b = min (a * b) (USIZE_LIMIT - 1)"

subsection \<open>Words as naturals\<close>

lemma unat_bound [simp]: "unat (a :: 'a::len word) < 2 ^ LENGTH('a)"
  by (rule unsigned_less)

lemma unat_of_nat_small [simp]:
  "n < 2 ^ LENGTH('a) \<Longrightarrow> unat (of_nat n :: 'a::len word) = n"
  by (simp add: unat_of_nat take_bit_nat_eq_self)

lemma unat_max: "unat (- 1 :: 'a::len word) = 2 ^ LENGTH('a) - 1"
  by (simp add: unsigned_minus_1_eq_mask mask_eq_exp_minus_1)

lemma unat_ucast_wide:
  "LENGTH('a) \<le> LENGTH('b) \<Longrightarrow> unat (ucast (a :: 'a::len word) :: 'b::len word) = unat a"
proof -
  assume "LENGTH('a) \<le> LENGTH('b)"
  then have "(2::nat) ^ LENGTH('a) \<le> 2 ^ LENGTH('b)" by simp
  then have "unat a < 2 ^ LENGTH('b)" by (rule order.strict_trans2 [OF unat_bound])
  then show ?thesis by (simp add: unsigned_ucast_eq take_bit_nat_eq_self)
qed

lemma word_eq_unatI: "unat a = unat b \<Longrightarrow> a = (b :: 'a::len word)"
  by (simp add: word_unat_eq_iff)

lemma unat_add_exact:
  "unat a + unat b < 2 ^ LENGTH('a) \<Longrightarrow> unat (a + b :: 'a::len word) = unat a + unat b"
  by (simp add: unat_word_ariths)

lemma unat_mul_exact:
  "unat a * unat b < 2 ^ LENGTH('a) \<Longrightarrow> unat (a * b :: 'a::len word) = unat a * unat b"
  by (simp add: unat_word_ariths)

lemma unat_sub_exact: "b \<le> a \<Longrightarrow> unat (a - b :: 'a::len word) = unat a - unat b"
  by (rule unat_sub)

lemma word_le_unat: "(a :: 'a::len word) \<le> b \<longleftrightarrow> unat a \<le> unat b"
  by (rule word_le_nat_alt)

lemma word_less_unat: "(a :: 'a::len word) < b \<longleftrightarrow> unat a < unat b"
  by (rule word_less_nat_alt)

lemma unat_div_exact: "unat (a div b :: 'a::len word) = unat a div unat b"
  by (rule unat_div)

lemma unat_mod_exact: "unat (a mod b :: 'a::len word) = unat a mod unat b"
  by (rule unat_mod)

subsection \<open>What checked operations compute\<close>

lemma checked_add_Some [checked]:
  "checked_add a b = Some c \<longleftrightarrow> unat (c :: 'a::len word) = unat a + unat b"
  by (auto simp: checked_add_def unat_add_exact intro: word_eq_unatI)
    (metis unat_bound)

lemma checked_add_None [checked]:
  "checked_add a (b :: 'a::len word) = None \<longleftrightarrow> 2 ^ LENGTH('a) \<le> unat a + unat b"
  by (auto simp: checked_add_def)

lemma checked_sub_Some [checked]:
  "checked_sub a b = Some c \<longleftrightarrow> unat b \<le> unat a \<and> unat (c :: 'a::len word) = unat a - unat b"
  by (auto simp: checked_sub_def word_le_unat unat_sub_exact intro: word_eq_unatI)

lemma checked_sub_None [checked]:
  "checked_sub a (b :: 'a::len word) = None \<longleftrightarrow> unat a < unat b"
  by (auto simp: checked_sub_def word_le_unat)

lemma checked_mul_Some [checked]:
  "checked_mul a b = Some c \<longleftrightarrow> unat (c :: 'a::len word) = unat a * unat b"
  by (auto simp: checked_mul_def unat_mul_exact intro: word_eq_unatI)
    (metis unat_bound)

lemma checked_mul_None [checked]:
  "checked_mul a (b :: 'a::len word) = None \<longleftrightarrow> 2 ^ LENGTH('a) \<le> unat a * unat b"
  by (auto simp: checked_mul_def)

lemma checked_div_Some [checked]:
  "checked_div a b = Some c \<longleftrightarrow> b \<noteq> 0 \<and> unat (c :: 'a::len word) = unat a div unat b"
  by (auto simp: checked_div_def unat_div_exact intro: word_eq_unatI)

lemma try_narrow_Some [checked]:
  "try_narrow a = Some (c :: 'b::len word) \<longleftrightarrow> unat c = unat (a :: 'a::len word)"
  by (auto simp: try_narrow_def unsigned_ucast_eq take_bit_nat_eq_self intro: word_eq_unatI)
    (metis unat_bound)

lemma try_narrow_None [checked]:
  "(try_narrow (a :: 'a::len word) :: 'b::len word option) = None \<longleftrightarrow> 2 ^ LENGTH('b) \<le> unat a"
  by (auto simp: try_narrow_def)

lemma try_from_usize_Some [checked]:
  "try_from_usize n = Some (c :: 'b::len word) \<longleftrightarrow> unat c = n"
  by (auto simp: try_from_usize_def intro: word_eq_unatI)

lemma try_from_usize_None [checked]:
  "(try_from_usize n :: 'b::len word option) = None \<longleftrightarrow> 2 ^ LENGTH('b) \<le> n"
  by (auto simp: try_from_usize_def)

lemma usize_add_Some [checked]: "usize_add a b = Some c \<longleftrightarrow> c = a + b \<and> a + b < USIZE_LIMIT"
  by (auto simp: usize_add_def)

lemma usize_sub_Some [checked]: "usize_sub a b = Some c \<longleftrightarrow> b \<le> a \<and> c = a - b"
  by (auto simp: usize_sub_def)

lemma unat_saturating_add:
  "unat (saturating_add a b :: 'a::len word) = min (unat a + unat b) (2 ^ LENGTH('a) - 1)"
  by (auto simp: saturating_add_def unat_add_exact unat_max)

lemma unat_saturating_sub:
  "unat (saturating_sub a b :: 'a::len word) = unat a - unat b"
  by (auto simp: saturating_sub_def word_le_unat unat_sub_exact)

section \<open>Result\<close>

datatype ('a, 'e) result = Ok 'a | Err 'e

text \<open>\<^verbatim>\<open>and_then\<close> is the meaning of \<^verbatim>\<open>?\<close>: the first error is returned and the rest is skipped.\<close>

primrec and_then :: "('a, 'e) result \<Rightarrow> ('a \<Rightarrow> ('b, 'e) result) \<Rightarrow> ('b, 'e) result" where
  "and_then (Ok x) f = f x"
| "and_then (Err e) f = Err e"

primrec map_ok :: "('a \<Rightarrow> 'b) \<Rightarrow> ('a, 'e) result \<Rightarrow> ('b, 'e) result" where
  "map_ok f (Ok x) = Ok (f x)"
| "map_ok f (Err e) = Err e"

primrec map_err :: "('e \<Rightarrow> 'f) \<Rightarrow> ('a, 'e) result \<Rightarrow> ('a, 'f) result" where
  "map_err f (Ok x) = Ok x"
| "map_err f (Err e) = Err (f e)"

primrec ok_or :: "'a option \<Rightarrow> 'e \<Rightarrow> ('a, 'e) result" where
  "ok_or None e = Err e"
| "ok_or (Some x) e = Ok x"

primrec is_ok :: "('a, 'e) result \<Rightarrow> bool" where
  "is_ok (Ok x) = True"
| "is_ok (Err e) = False"

text \<open>\<^verbatim>\<open>Option::unwrap_or\<close>.\<close>

definition unwrap_or :: "'a option \<Rightarrow> 'a \<Rightarrow> 'a" where
  "unwrap_or x d = (case x of Some v \<Rightarrow> v | None \<Rightarrow> d)"

lemma unwrap_or_simps [simp]: "unwrap_or (Some v) d = v" "unwrap_or None d = d"
  by (simp_all add: unwrap_or_def)

text \<open>
  In code that mutates a state, \<^verbatim>\<open>let v = x.ok_or(e)?;\<close> is \<open>try_opt x e s (\<lambda>v. \<dots>)\<close>: on \<open>None\<close>
  the function returns the error in the state \<open>s\<close> reached so far.
\<close>

primrec try_opt ::
  "'a option \<Rightarrow> 'e \<Rightarrow> 's \<Rightarrow> ('a \<Rightarrow> ('b, 'e) result \<times> 's) \<Rightarrow> ('b, 'e) result \<times> 's" where
  "try_opt None e s k = (Err e, s)"
| "try_opt (Some v) e s k = k v"

lemma try_opt_Ok [rust]: "try_opt x e s k = (Ok y, t) \<longleftrightarrow> (\<exists>v. x = Some v \<and> k v = (Ok y, t))"
  by (cases x) auto

lemma try_opt_Err [rust]:
  "try_opt x e s k = (Err d, t) \<longleftrightarrow>
     x = None \<and> d = e \<and> t = s \<or> (\<exists>v. x = Some v \<and> k v = (Err d, t))"
  by (cases x) auto

lemma guard_Ok [rust]: "(if b then (Err e, s) else k) = (Ok y, t) \<longleftrightarrow> \<not> b \<and> k = (Ok y, t)"
  by simp

lemma guard_Err [rust]:
  "(if b then (Err e, s) else k) = (Err d, t) \<longleftrightarrow> b \<and> d = e \<and> t = s \<or> \<not> b \<and> k = (Err d, t)"
  by auto

lemmas early_Ok = try_opt_Ok guard_Ok
lemmas early_Err = try_opt_Err guard_Err

lemma and_then_Ok [rust]: "and_then r f = Ok y \<longleftrightarrow> (\<exists>x. r = Ok x \<and> f x = Ok y)"
  by (cases r) auto

lemma and_then_Err [rust]:
  "and_then r f = Err e \<longleftrightarrow> r = Err e \<or> (\<exists>x. r = Ok x \<and> f x = Err e)"
  by (cases r) auto

lemma map_ok_Ok [rust]: "map_ok f r = Ok y \<longleftrightarrow> (\<exists>x. r = Ok x \<and> y = f x)"
  by (cases r) auto

lemma map_ok_Err [rust]: "map_ok f r = Err e \<longleftrightarrow> r = Err e"
  by (cases r) auto

lemma map_err_Ok [rust]: "map_err f r = Ok y \<longleftrightarrow> r = Ok y"
  by (cases r) auto

lemma map_err_Err [rust]: "map_err f r = Err e \<longleftrightarrow> (\<exists>d. r = Err d \<and> e = f d)"
  by (cases r) auto

lemma ok_or_Ok [rust]: "ok_or x e = Ok y \<longleftrightarrow> x = Some y"
  by (cases x) auto

lemma ok_or_Err [rust]: "ok_or x e = Err d \<longleftrightarrow> x = None \<and> d = e"
  by (cases x) auto

lemma is_ok_iff: "is_ok r \<longleftrightarrow> (\<exists>x. r = Ok x)"
  by (cases r) auto

section \<open>Vectors and slices\<close>

text \<open>\<^verbatim>\<open>slice::get\<close>, \<^verbatim>\<open>Vec::resize\<close>, \<^verbatim>\<open>Vec::pop\<close>; \<^verbatim>\<open>get_mut\<close> followed by an assignment is
  \<open>list_update\<close> at an index that \<open>get\<close> has found in range.\<close>

definition get :: "'a list \<Rightarrow> nat \<Rightarrow> 'a option" where
  "get xs i = (if i < length xs then Some (xs ! i) else None)"

definition resize :: "'a list \<Rightarrow> nat \<Rightarrow> 'a \<Rightarrow> 'a list" where
  "resize xs n v = take n xs @ replicate (n - length xs) v"

definition pop :: "'a list \<Rightarrow> ('a \<times> 'a list) option" where
  "pop xs = (if xs = [] then None else Some (last xs, butlast xs))"

lemma get_Some [rust]: "get xs i = Some x \<longleftrightarrow> i < length xs \<and> x = xs ! i"
  by (auto simp: get_def)

lemma get_None [rust]: "get xs i = None \<longleftrightarrow> length xs \<le> i"
  by (auto simp: get_def)

lemma get_in_set: "get xs i = Some x \<Longrightarrow> x \<in> set xs"
  by (auto simp: get_def split: if_splits)

lemma get_append_left [simp]: "i < length xs \<Longrightarrow> get (xs @ ys) i = get xs i"
  by (simp add: get_def nth_append)

lemma get_append_new [simp]: "get (xs @ [x]) (length xs) = Some x"
  by (simp add: get_def)

lemma get_list_update:
  "get (xs[i := v]) j = (if i = j \<and> i < length xs then Some v else get xs j)"
  by (auto simp: get_def)

lemma length_resize [simp]: "length (resize xs n v) = n"
  by (simp add: resize_def)

lemma nth_resize: "i < n \<Longrightarrow> resize xs n v ! i = (if i < length xs then xs ! i else v)"
  by (auto simp: resize_def nth_append)

lemma get_resize:
  "get (resize xs n v) i = (if i < n then Some (if i < length xs then xs ! i else v) else None)"
  by (simp add: get_def nth_resize)

lemma pop_append [simp]: "pop (xs @ [x]) = Some (x, xs)"
  by (simp add: pop_def)

lemma pop_Some [rust]: "pop xs = Some (x, ys) \<longleftrightarrow> xs = ys @ [x]"
  by (auto simp: pop_def)

lemma pop_None [rust]: "pop xs = None \<longleftrightarrow> xs = []"
  by (auto simp: pop_def)

text \<open>A wrapping increment away from the maximum.\<close>

lemma unat_plus_one: "g \<noteq> - 1 \<Longrightarrow> unat (g + 1 :: 'a::len word) = Suc (unat g)"
  by (metis add.commute add_eq_0_iff2 unatSuc)

end
