(* ===== verification/Fixed_Point.thy ===== *)
theory Fixed_Point
  imports Prelude
begin

text \<open>
  The fixed-point layer of \<^verbatim>\<open>crates/liq-types/src/fixed/mod.rs\<close>. One primitive,
  \<open>mul_div\<close>, multiplies in 512 bits, divides, rounds in a named direction and narrows back to
  256 bits; the newtypes \<open>ray\<close> (scale \<open>10^27\<close>) and \<open>wad\<close> (scale \<open>10^18\<close>) wrap it. The locale
  \<open>fixed_newtype\<close> is the contract of the macro that generates both newtypes; it is interpreted
  on the two models below and carries the rounding laws.
\<close>

section \<open>The primitive\<close>

definition RAY :: u256 where
  "RAY = 1000000000000000000000000000"

definition WAD :: u256 where
  "WAD = 1000000000000000000"

definition WAD_RAY_RATIO :: u256 where
  "WAD_RAY_RATIO = 1000000000"

datatype rounding = Down | Up | HalfUp

datatype fixed_error = Overflow | Underflow | DivisionByZero | Inexact

definition mul_div :: "u256 \<Rightarrow> u256 \<Rightarrow> u256 \<Rightarrow> rounding \<Rightarrow> (u256, fixed_error) result" where
  "mul_div a b denom rounding =
     (if denom = 0 then Err DivisionByZero
      else
        let prod = (ucast a * ucast b :: u512);
            q = prod div ucast denom;
            r = prod mod ucast denom
        in and_then
             (case rounding of
                Down \<Rightarrow> Ok q
              | Up \<Rightarrow> (if r = 0 then Ok q else ok_or (checked_add q 1) Overflow)
              | HalfUp \<Rightarrow>
                  and_then (ok_or (checked_add r r) Overflow)
                    (\<lambda>twice. if ucast denom \<le> twice then ok_or (checked_add q 1) Overflow
                             else Ok q))
             (\<lambda>q. ok_or (try_narrow q) Overflow))"

text \<open>The reference: exact division of naturals in each direction.\<close>

fun round_div :: "rounding \<Rightarrow> nat \<Rightarrow> nat \<Rightarrow> nat" where
  "round_div Down x d = x div d"
| "round_div Up x d = (x + d - 1) div d"
| "round_div HalfUp x d = (2 * x + d) div (2 * d)"

lemma div_ceil_eq:
  fixes x d :: nat
  assumes "0 < d"
  shows "(x + d - 1) div d = (if x mod d = 0 then x div d else x div d + 1)"
proof (cases "x mod d = 0")
  case True
  then obtain k where k: "x = d * k" by auto
  have "x + d - 1 = (d - 1) + k * d" using k assms by (simp add: mult.commute)
  then have "(x + d - 1) div d = (d - 1) div d + k"
    using assms by (simp only: div_mult_self1)
  with k assms show ?thesis by simp
next
  case False
  define q r where "q = x div d" and "r = x mod d"
  then have x: "x = d * q + r" and "0 < r" and "r < d"
    using False assms by auto
  then have "x + d - 1 = (r - 1) + (q + 1) * d" using assms by (simp add: algebra_simps)
  then have "(x + d - 1) div d = (r - 1) div d + (q + 1)"
    using assms by (simp only: div_mult_self1)
  with \<open>r < d\<close> False q_def show ?thesis by simp
qed

lemmas ceil_simps = div_ceil_eq div_ceil_eq [unfolded One_nat_def]

lemma div_half_eq:
  fixes x d :: nat
  assumes "0 < d"
  shows "(2 * x + d) div (2 * d) = (if d \<le> 2 * (x mod d) then x div d + 1 else x div d)"
proof -
  define q r where "q = x div d" and "r = x mod d"
  then have x: "x = d * q + r" and rd: "r < d" using assms by auto
  then have e: "2 * x + d = 2 * d * q + (2 * r + d)" by (simp add: algebra_simps)
  have "(2 * x + d) div (2 * d) = q + (2 * r + d) div (2 * d)"
    unfolding e using assms by simp
  moreover have "(2 * r + d) div (2 * d) = (if d \<le> 2 * r then 1 else 0)"
    using rd assms by (auto intro!: div_nat_eqI)
  ultimately show ?thesis by (simp add: q_def r_def)
qed

lemma u512_product: "unat (ucast (a :: u256) * ucast (b :: u256) :: u512) = unat a * unat b"
proof -
  have "unat a * unat b < 2 ^ 256 * 2 ^ 256"
    using unat_bound [of a] unat_bound [of b] by (intro mult_strict_mono) auto
  then show ?thesis by (subst unat_mul_exact) (simp_all add: unat_ucast_wide)
qed

lemma u512_quotient_small:
  assumes "0 < d"
  shows "unat (a :: u256) * unat (b :: u256) div d < 2 ^ 512 - 2 ^ 256"
proof -
  have "unat a \<le> 2 ^ 256 - 1" "unat b \<le> 2 ^ 256 - 1"
    using unat_bound [of a] unat_bound [of b] by auto
  then have "unat a * unat b \<le> (2 ^ 256 - 1) * (2 ^ 256 - 1)" by (rule mult_le_mono)
  then have "unat a * unat b div d \<le> (2 ^ 256 - 1) * (2 ^ 256 - 1)"
    by (rule order.trans [OF div_le_dividend])
  then show ?thesis by simp
qed

lemma mul_div_reference:
  "mul_div a b d r =
     (if d = 0 then Err DivisionByZero
      else ok_or (try_from_usize (round_div r (unat a * unat b) (unat d))) Overflow)"
proof (cases "d = 0")
  case True
  then show ?thesis by (simp add: mul_div_def)
next
  case False
  define x where "x = unat a * unat b"
  define q :: u512 where "q = ucast a * ucast b div ucast d"
  define m :: u512 where "m = ucast a * ucast b mod ucast d"
  have d0: "0 < unat d" using False by (simp add: unat_gt_0)
  have uq: "unat q = x div unat d" and um: "unat m = x mod unat d"
    by (simp_all add: q_def m_def x_def unat_div_exact unat_mod_exact u512_product unat_ucast_wide)
  have small: "x div unat d + 1 < 2 ^ 512"
    using u512_quotient_small [OF d0, of a b] by (simp add: x_def)
  have up: "unat (q + 1) = x div unat d + 1"
    using small by (subst unat_add_exact) (simp_all add: uq)
  have add1: "checked_add q 1 = Some (q + 1)"
    using small by (simp add: checked_add_def uq)
  have twice: "checked_add m m = Some (m + m)" "unat (m + m) = 2 * (x mod unat d)"
  proof -
    have "x mod unat d < 2 ^ 256"
      using mod_less_divisor [OF d0, of x] unat_bound [of d] by simp
    then have "unat m + unat m < 2 ^ LENGTH(512)" by (simp add: um)
    then show "checked_add m m = Some (m + m)" "unat (m + m) = 2 * (x mod unat d)"
      using unat_add_exact [of m m] by (simp_all add: checked_add_def um)
  qed
  have m0: "m = 0 \<longleftrightarrow> x mod unat d = 0" by (simp flip: um add: unat_0_iff)
  have half: "ucast d \<le> m + m \<longleftrightarrow> unat d \<le> 2 * (x mod unat d)"
    unfolding word_le_unat twice by (simp add: unat_ucast_wide)
  then have half2: "ucast d \<le> 2 * m \<longleftrightarrow> unat d \<le> 2 * (x mod unat d)" by simp
  have narrow: "(try_narrow w :: u256 option) = try_from_usize (unat w)" for w :: u512
    by (simp add: try_narrow_def try_from_usize_def)
  show ?thesis
    using False d0
    by (cases r) (simp_all add: mul_div_def Let_def x_def [symmetric] q_def [symmetric]
        m_def [symmetric] add1 twice m0 half2 narrow uq up ceil_simps div_half_eq)
qed

lemma mul_div_Ok [checked]:
  "mul_div a b d r = Ok c \<longleftrightarrow> d \<noteq> 0 \<and> unat c = round_div r (unat a * unat b) (unat d)"
  by (auto simp: mul_div_reference rust checked)

lemma mul_div_fits:
  assumes "0 < unat d" and "round_div r (unat a * unat b) (unat d) < 2 ^ 256"
  obtains c where "mul_div a b d r = Ok c" and "unat c = round_div r (unat a * unat b) (unat d)"
proof -
  have "unat (of_nat (round_div r (unat a * unat b) (unat d)) :: u256) = round_div r (unat a * unat b) (unat d)"
    using assms(2) by simp
  then show ?thesis using that assms(1) by (metis mul_div_Ok unat_0 less_numeral_extra(3))
qed

lemma mul_div_Err:
  "mul_div a b d r = Err e \<longleftrightarrow>
     (d = 0 \<and> e = DivisionByZero) \<or>
     (d \<noteq> 0 \<and> 2 ^ 256 \<le> round_div r (unat a * unat b) (unat d) \<and> e = Overflow)"
  by (auto simp: mul_div_reference rust checked)

section \<open>The newtypes\<close>

datatype ray = Ray (ray_raw: u256)

datatype wad = Wad (wad_raw: u256)

definition ray_mul_down :: "ray \<Rightarrow> ray \<Rightarrow> (ray, fixed_error) result" where
  "ray_mul_down a b = map_ok Ray (mul_div (ray_raw a) (ray_raw b) RAY Down)"

definition ray_mul_up :: "ray \<Rightarrow> ray \<Rightarrow> (ray, fixed_error) result" where
  "ray_mul_up a b = map_ok Ray (mul_div (ray_raw a) (ray_raw b) RAY Up)"

definition ray_div_down :: "ray \<Rightarrow> ray \<Rightarrow> (ray, fixed_error) result" where
  "ray_div_down a b = map_ok Ray (mul_div (ray_raw a) RAY (ray_raw b) Down)"

definition ray_div_up :: "ray \<Rightarrow> ray \<Rightarrow> (ray, fixed_error) result" where
  "ray_div_up a b = map_ok Ray (mul_div (ray_raw a) RAY (ray_raw b) Up)"

definition ray_checked_add :: "ray \<Rightarrow> ray \<Rightarrow> (ray, fixed_error) result" where
  "ray_checked_add a b = ok_or (map_option Ray (checked_add (ray_raw a) (ray_raw b))) Overflow"

definition ray_checked_sub :: "ray \<Rightarrow> ray \<Rightarrow> (ray, fixed_error) result" where
  "ray_checked_sub a b = ok_or (map_option Ray (checked_sub (ray_raw a) (ray_raw b))) Underflow"

definition wad_mul_down :: "wad \<Rightarrow> wad \<Rightarrow> (wad, fixed_error) result" where
  "wad_mul_down a b = map_ok Wad (mul_div (wad_raw a) (wad_raw b) WAD Down)"

definition wad_mul_up :: "wad \<Rightarrow> wad \<Rightarrow> (wad, fixed_error) result" where
  "wad_mul_up a b = map_ok Wad (mul_div (wad_raw a) (wad_raw b) WAD Up)"

definition wad_div_down :: "wad \<Rightarrow> wad \<Rightarrow> (wad, fixed_error) result" where
  "wad_div_down a b = map_ok Wad (mul_div (wad_raw a) WAD (wad_raw b) Down)"

definition wad_div_up :: "wad \<Rightarrow> wad \<Rightarrow> (wad, fixed_error) result" where
  "wad_div_up a b = map_ok Wad (mul_div (wad_raw a) WAD (wad_raw b) Up)"

definition wad_checked_add :: "wad \<Rightarrow> wad \<Rightarrow> (wad, fixed_error) result" where
  "wad_checked_add a b = ok_or (map_option Wad (checked_add (wad_raw a) (wad_raw b))) Overflow"

definition wad_checked_sub :: "wad \<Rightarrow> wad \<Rightarrow> (wad, fixed_error) result" where
  "wad_checked_sub a b = ok_or (map_option Wad (checked_sub (wad_raw a) (wad_raw b))) Underflow"

subsection \<open>Conversions\<close>

definition to_wad_down :: "ray \<Rightarrow> wad" where
  "to_wad_down r = Wad (ray_raw r div WAD_RAY_RATIO)"

definition to_wad_up :: "ray \<Rightarrow> (wad, fixed_error) result" where
  "to_wad_up r =
     (let q = ray_raw r div WAD_RAY_RATIO; m = ray_raw r mod WAD_RAY_RATIO
      in if m = 0 then Ok (Wad q) else ok_or (map_option Wad (checked_add q 1)) Overflow)"

definition to_ray_exact :: "wad \<Rightarrow> (ray, fixed_error) result" where
  "to_ray_exact w = ok_or (map_option Ray (checked_mul (wad_raw w) WAD_RAY_RATIO)) Overflow"

datatype ray_u128 = RayU128 (ray_u128_raw: u128)

definition ray_from_u128 :: "ray_u128 \<Rightarrow> ray" where
  "ray_from_u128 v = Ray (ucast (ray_u128_raw v))"

definition ray_u128_try_from :: "ray \<Rightarrow> (ray_u128, fixed_error) result" where
  "ray_u128_try_from r = ok_or (map_option RayU128 (try_narrow (ray_raw r))) Overflow"

section \<open>The contract of the newtype macro\<close>

locale fixed_newtype =
  fixes raw :: "'f \<Rightarrow> u256" and one :: u256
    and mul_down mul_up div_down div_up add sub :: "'f \<Rightarrow> 'f \<Rightarrow> ('f, fixed_error) result"
  assumes one_nonzero: "one \<noteq> 0"
    and raw_inject: "raw x = raw y \<Longrightarrow> x = y"
    and mul_down_Ok: "mul_down a b = Ok c \<longleftrightarrow> unat (raw c) = unat (raw a) * unat (raw b) div unat one"
    and mul_up_Ok:
      "mul_up a b = Ok c \<longleftrightarrow> unat (raw c) = (unat (raw a) * unat (raw b) + unat one - 1) div unat one"
    and div_down_Ok:
      "div_down a b = Ok c \<longleftrightarrow>
         raw b \<noteq> 0 \<and> unat (raw c) = unat (raw a) * unat one div unat (raw b)"
    and div_up_Ok:
      "div_up a b = Ok c \<longleftrightarrow>
         raw b \<noteq> 0 \<and> unat (raw c) = (unat (raw a) * unat one + unat (raw b) - 1) div unat (raw b)"
    and mul_down_total:
      "unat (raw a) * unat (raw b) div unat one < 2 ^ 256 \<Longrightarrow> \<exists>c. mul_down a b = Ok c"
    and add_Ok: "add a b = Ok c \<longleftrightarrow> unat (raw c) = unat (raw a) + unat (raw b)"
    and sub_Ok:
      "sub a b = Ok c \<longleftrightarrow>
         unat (raw b) \<le> unat (raw a) \<and> unat (raw c) = unat (raw a) - unat (raw b)"
begin

lemma unat_one_pos: "0 < unat one"
  using one_nonzero by (simp add: unat_gt_0)

lemma mul_down_up_adjacent:
  assumes "mul_down a b = Ok x" and "mul_up a b = Ok y"
  shows "unat (raw x) \<le> unat (raw y) \<and> unat (raw y) \<le> unat (raw x) + 1"
  using assms unat_one_pos by (simp add: mul_down_Ok mul_up_Ok ceil_simps)

lemma mul_down_exact_unit:
  assumes "raw b = one"
  shows "mul_down a b = Ok a"
  using assms unat_one_pos by (simp add: mul_down_Ok)

lemma div_then_mul_below:
  assumes "div_down a b = Ok q"
  shows "\<exists>c. mul_down q b = Ok c \<and> unat (raw c) \<le> unat (raw a)"
proof -
  let ?b = "unat (raw b)" and ?a = "unat (raw a)"
  have q: "unat (raw q) = ?a * unat one div ?b" using assms by (simp add: div_down_Ok)
  then have "unat (raw q) * ?b \<le> ?a * unat one" by (simp add: div_times_less_eq_dividend)
  then have le: "unat (raw q) * ?b div unat one \<le> ?a * unat one div unat one" by (rule div_le_mono)
  then have le: "unat (raw q) * ?b div unat one \<le> ?a" using unat_one_pos by simp
  then have "unat (raw q) * ?b div unat one < 2 ^ 256"
    using unat_bound [of "raw a"] by simp
  then obtain c where "mul_down q b = Ok c" using mul_down_total by blast
  with le show ?thesis by (auto simp: mul_down_Ok)
qed

lemma div_up_then_mul_above:
  assumes "div_up a b = Ok q" and "mul_up q b = Ok c"
  shows "unat (raw a) \<le> unat (raw c)"
proof -
  let ?b = "unat (raw b)" and ?a = "unat (raw a)"
  have b0: "0 < ?b" and q: "unat (raw q) = (?a * unat one + ?b - 1) div ?b"
    using assms(1) by (auto simp: div_up_Ok unat_gt_0)
  have "?a * unat one \<le> unat (raw q) * ?b"
  proof -
    have "?a * unat one + ?b - 1 < (unat (raw q) + 1) * ?b"
      unfolding q using dividend_less_div_times [OF b0, of "?a * unat one + ?b - 1"]
      by (simp add: algebra_simps)
    then show ?thesis using b0 by (simp add: algebra_simps)
  qed
  then have "?a * unat one div unat one \<le> unat (raw q) * ?b div unat one" by (rule div_le_mono)
  then have "?a \<le> unat (raw q) * ?b div unat one" using unat_one_pos by simp
  also have "\<dots> \<le> (unat (raw q) * ?b + unat one - 1) div unat one"
    using unat_one_pos by (intro div_le_mono) simp
  finally show ?thesis using assms(2) by (simp add: mul_up_Ok)
qed

lemma add_then_sub: "add a b = Ok c \<Longrightarrow> sub c b = Ok a"
  by (simp add: add_Ok sub_Ok)

end

lemma unat_RAY: "unat RAY = 10 ^ 27" and unat_WAD: "unat WAD = 10 ^ 18"
  and unat_WAD_RAY_RATIO: "unat WAD_RAY_RATIO = 10 ^ 9"
  by (simp_all add: RAY_def WAD_def WAD_RAY_RATIO_def)

lemma RAY_nonzero [simp]: "RAY \<noteq> 0" and WAD_nonzero [simp]: "WAD \<noteq> 0"
  and WAD_RAY_RATIO_nonzero [simp]: "WAD_RAY_RATIO \<noteq> 0"
  by (simp_all add: RAY_def WAD_def WAD_RAY_RATIO_def)

lemma map_ok_newtype:
  "map_ok Ray r = Ok c \<longleftrightarrow> r = Ok (ray_raw c)" "map_ok Wad s = Ok d \<longleftrightarrow> s = Ok (wad_raw d)"
  by (cases r; cases c; auto) (cases s; cases d; auto)

lemma ok_or_newtype:
  "ok_or (map_option Ray x) e = Ok c \<longleftrightarrow> x = Some (ray_raw c)"
  "ok_or (map_option Wad y) e = Ok d \<longleftrightarrow> y = Some (wad_raw d)"
  by (cases x; cases c; auto) (cases y; cases d; auto)

lemmas newtype_ops = map_ok_newtype ok_or_newtype
  ray_mul_down_def ray_mul_up_def ray_div_down_def ray_div_up_def
  ray_checked_add_def ray_checked_sub_def
  wad_mul_down_def wad_mul_up_def wad_div_down_def wad_div_up_def
  wad_checked_add_def wad_checked_sub_def

lemma raw_surj:
  "n < 2 ^ 256 \<Longrightarrow> \<exists>c. unat (ray_raw c) = n" "n < 2 ^ 256 \<Longrightarrow> \<exists>c. unat (wad_raw c) = n"
  by (rule exI [of _ "Ray (of_nat n)"], simp) (rule exI [of _ "Wad (of_nat n)"], simp)

interpretation ray_fixed: fixed_newtype ray_raw RAY
    ray_mul_down ray_mul_up ray_div_down ray_div_up ray_checked_add ray_checked_sub
  by unfold_locales (auto simp: newtype_ops checked raw_surj intro: ray.expand)

interpretation wad_fixed: fixed_newtype wad_raw WAD
    wad_mul_down wad_mul_up wad_div_down wad_div_up wad_checked_add wad_checked_sub
  by unfold_locales (auto simp: newtype_ops checked raw_surj intro: wad.expand)

section \<open>Properties\<close>

text \<open>What it means that \<open>q\<close> is \<open>x / d\<close> rounded in a direction, by inequalities alone.\<close>

fun rounds_to :: "rounding \<Rightarrow> nat \<Rightarrow> nat \<Rightarrow> nat \<Rightarrow> bool" where
  "rounds_to Down x d q \<longleftrightarrow> q * d \<le> x \<and> x < (q + 1) * d"
| "rounds_to Up x d q \<longleftrightarrow> x \<le> q * d \<and> q * d < x + d"
| "rounds_to HalfUp x d q \<longleftrightarrow> 2 * q * d \<le> 2 * x + d \<and> 2 * x + d < 2 * (q + 1) * d"

lemma div_sandwich:
  fixes x d q :: nat
  assumes "0 < d"
  shows "x div d = q \<longleftrightarrow> q * d \<le> x \<and> x < (q + 1) * d"
proof
  assume "x div d = q"
  then show "q * d \<le> x \<and> x < (q + 1) * d"
    using dividend_less_div_times [OF assms, of x] div_times_less_eq_dividend [of x d] by auto
next
  assume "q * d \<le> x \<and> x < (q + 1) * d"
  then show "x div d = q" using assms by (intro div_nat_eqI) (auto simp: mult.commute)
qed

lemma rounds_to_round_div:
  assumes "0 < d"
  shows "rounds_to r x d q \<longleftrightarrow> q = round_div r x d"
proof (cases r)
  case Down
  then show ?thesis using div_sandwich [OF assms, of x q] by auto
next
  case Up
  have "(x + d - 1) div d = q \<longleftrightarrow> q * d \<le> x + d - 1 \<and> x + d - 1 < (q + 1) * d"
    by (rule div_sandwich [OF assms])
  also have "\<dots> \<longleftrightarrow> x \<le> q * d \<and> q * d < x + d" using assms by auto
  finally show ?thesis using Up by auto
next
  case HalfUp
  have "(2 * x + d) div (2 * d) = q \<longleftrightarrow>
      q * (2 * d) \<le> 2 * x + d \<and> 2 * x + d < (q + 1) * (2 * d)"
    using assms by (intro div_sandwich) simp
  then show ?thesis using HalfUp by (auto simp: algebra_simps)
qed

text \<open>
  C33: \<open>mul_div\<close> computes \<open>a * b / d\<close> exactly, rounded in the named direction, for all 256-bit
  operands: it succeeds with \<open>c\<close> exactly when \<open>c\<close> is that rounded quotient, it reports a division
  by zero exactly for \<open>d = 0\<close>, and an overflow exactly when the quotient does not fit 256 bits;
  no intermediate wraps.
\<close>

theorem mul_div_rounds:
  "(mul_div a b d r = Ok c \<longleftrightarrow> d \<noteq> 0 \<and> rounds_to r (unat a * unat b) (unat d) (unat c)) \<and>
   (mul_div a b d r = Err DivisionByZero \<longleftrightarrow> d = 0) \<and>
   (mul_div a b d r = Err Overflow \<longleftrightarrow>
      d \<noteq> 0 \<and> (\<exists>q \<ge> 2 ^ 256. rounds_to r (unat a * unat b) (unat d) q))"
proof (cases "d = 0")
  case True
  then show ?thesis by (simp add: mul_div_def)
next
  case False
  then have "0 < unat d" by (simp add: unat_gt_0)
  then show ?thesis using False by (auto simp: mul_div_Ok mul_div_Err rounds_to_round_div)
qed

text \<open>
  dividing two rays rounding down and multiplying back rounding down never fails and never
  gives more than the start; rounding up both ways never gives less. A collateral valued down or
  a debt valued up stays on its safe side through the round trip.
\<close>

theorem ray_div_mul_conservative:
  "(ray_div_down a b = Ok q \<longrightarrow> (\<exists>c. ray_mul_down q b = Ok c \<and> ray_raw c \<le> ray_raw a)) \<and>
   (ray_div_up a b = Ok p \<longrightarrow> ray_mul_up p b = Ok e \<longrightarrow> ray_raw a \<le> ray_raw e)"
  using ray_fixed.div_then_mul_below [of a b q] ray_fixed.div_up_then_mul_above [of a b p e]
  by (auto simp: word_le_unat)

theorem ray_div_mul_conservative_witness:
  "(\<exists>c. ray_mul_down (Ray 333333333333333333333333333) (Ray (3 * RAY)) = Ok c \<and>
        ray_raw c \<le> ray_raw (Ray RAY)) \<and>
   ray_raw (Ray RAY) \<le> ray_raw (Ray 1000000000000000000000000002)"
  using ray_div_mul_conservative [of "Ray RAY" "Ray (3 * RAY)" "Ray 333333333333333333333333333"
      "Ray 333333333333333333333333334" "Ray 1000000000000000000000000002"]
  by (simp add: ray_div_down_def ray_div_up_def ray_mul_up_def mul_div_reference RAY_def
      try_from_usize_def)

text \<open>
  widening a wad to a ray is exact: it fails only on overflow, and both narrowings of the
  result, rounding down and rounding up, give the wad back. Narrowing any ray up never fails, and
  exceeds narrowing it down by at most one unit.
\<close>

theorem wad_ray_roundtrip:
  "(to_ray_exact w = Ok r \<longrightarrow> to_wad_down r = w \<and> to_wad_up r = Ok w) \<and>
   (to_ray_exact w = Err e \<longleftrightarrow> 2 ^ 256 \<le> unat (wad_raw w) * 10 ^ 9 \<and> e = Overflow) \<and>
   (\<exists>u. to_wad_up s = Ok u \<and> wad_raw (to_wad_down s) \<le> wad_raw u \<and>
        unat (wad_raw u) \<le> unat (wad_raw (to_wad_down s)) + 1)"
proof (intro conjI impI)
  have k: "unat WAD_RAY_RATIO = 10 ^ 9" by (rule unat_WAD_RAY_RATIO)
  assume "to_ray_exact w = Ok r"
  then have r: "unat (ray_raw r) = unat (wad_raw w) * 10 ^ 9"
    by (cases r) (auto simp: to_ray_exact_def rust checked k)
  have q: "ray_raw r div WAD_RAY_RATIO = wad_raw w"
    by (rule word_eq_unatI) (simp add: unat_div_exact k r)
  have m: "ray_raw r mod WAD_RAY_RATIO = 0"
    by (rule word_eq_unatI) (simp add: unat_mod_exact k r)
  show "to_wad_down r = w" using q by (simp add: to_wad_down_def)
  show "to_wad_up r = Ok w" using q m by (simp add: to_wad_up_def)
next
  show "to_ray_exact w = Err e \<longleftrightarrow> 2 ^ 256 \<le> unat (wad_raw w) * 10 ^ 9 \<and> e = Overflow"
    by (auto simp: to_ray_exact_def rust checked unat_WAD_RAY_RATIO)
next
  define q where "q = ray_raw s div WAD_RAY_RATIO"
  have "unat q \<le> unat (ray_raw s) div 10 ^ 9" by (simp add: q_def unat_div_exact unat_WAD_RAY_RATIO)
  then have small: "unat q + 1 < 2 ^ 256" using unat_bound [of "ray_raw s"] by simp
  then have add: "checked_add q 1 = Some (q + 1)" "unat (q + 1) = unat q + 1"
    using unat_add_exact [of q 1] by (simp_all add: checked_add_def)
  show "\<exists>u. to_wad_up s = Ok u \<and> wad_raw (to_wad_down s) \<le> wad_raw u \<and>
        unat (wad_raw u) \<le> unat (wad_raw (to_wad_down s)) + 1"
    by (cases "ray_raw s mod WAD_RAY_RATIO = 0")
      (simp_all add: to_wad_up_def to_wad_down_def add word_le_unat flip: q_def)
qed

theorem wad_ray_roundtrip_witness:
  "to_wad_down (Ray RAY) = Wad WAD \<and> to_wad_up (Ray RAY) = Ok (Wad WAD)"
  using wad_ray_roundtrip [of "Wad WAD" "Ray RAY"]
  by (simp add: to_ray_exact_def WAD_def RAY_def WAD_RAY_RATIO_def checked_mul_def)

end
