(* ===== verification/Mask.thy ===== *)
theory Mask
  imports Prelude
begin

text \<open>
  The per-position slot bitmask of \<^verbatim>\<open>crates/liq-protocol/src/mask.rs\<close>: a 128-bit word, bit
  \<open>slot\<close> set when the position holds a balance in that slot. \<open>iter\<close> is the ascending walk over
  the set bits that every health computation makes.
\<close>

unbundle bit_operations_syntax

type_synonym asset_mask = u128

definition mask_EMPTY :: asset_mask where
  "mask_EMPTY = 0"

definition MAX_SLOTS :: u16 where
  "MAX_SLOTS = 128"

definition mask_contains :: "asset_mask \<Rightarrow> u16 \<Rightarrow> bool" where
  "mask_contains m slot =
     (case checked_shl 1 (unat slot) of
        Some b \<Rightarrow> m AND b \<noteq> 0
      | None \<Rightarrow> False)"

definition mask_with :: "asset_mask \<Rightarrow> u16 \<Rightarrow> asset_mask option" where
  "mask_with m slot =
     (case checked_shl 1 (unat slot) of
        Some b \<Rightarrow> Some (m OR b)
      | None \<Rightarrow> None)"

definition mask_without :: "asset_mask \<Rightarrow> u16 \<Rightarrow> asset_mask" where
  "mask_without m slot =
     (case checked_shl 1 (unat slot) of
        Some b \<Rightarrow> m AND NOT b
      | None \<Rightarrow> m)"

definition mask_len :: "asset_mask \<Rightarrow> u32" where
  "mask_len m = of_nat (count_ones m)"

definition mask_is_empty :: "asset_mask \<Rightarrow> bool" where
  "mask_is_empty m \<longleftrightarrow> m = 0"

text \<open>\<open>SetSlots::next\<close>: the lowest set slot, and the iterator with that bit cleared.\<close>

definition set_slots_next :: "u128 \<Rightarrow> (u16 \<times> u128) option" where
  "set_slots_next m =
     (if m = 0 then None
      else map_option (\<lambda>tz. (tz, m AND (m - 1))) (try_from_usize (trailing_zeros m)))"

section \<open>Bits\<close>

lemma word_bits: "(a :: 'a::len word) = b \<longleftrightarrow> (\<forall>i. bit a i = bit b i)"
  by (auto intro: bit_eqI)

lemma slot_bit: "n < LENGTH('a) \<Longrightarrow> bit (2 ^ n :: 'a::len word) i \<longleftrightarrow> i = n"
  by (auto simp: bit_exp_iff)

lemma mask_contains_bit: "mask_contains m slot \<longleftrightarrow> bit m (unat slot)"
proof (cases "unat slot < 128")
  case True
  have "m AND 2 ^ unat slot \<noteq> 0 \<longleftrightarrow> bit m (unat slot)"
    using True by (auto simp: word_bits bit_and_iff slot_bit)
  then show ?thesis using True by (simp add: mask_contains_def checked_shl_def)
next
  case False
  then show ?thesis
    using bit_imp_le_length [of m "unat slot"] by (auto simp: mask_contains_def checked_shl_def)
qed

lemma mask_with_Some:
  "mask_with m slot = Some m' \<longleftrightarrow> unat slot < 128 \<and> m' = m OR 2 ^ unat slot"
  by (auto simp: mask_with_def checked_shl_def)

lemma mask_with_total: "unat slot < 128 \<Longrightarrow> \<exists>m'. mask_with m slot = Some m'"
  by (simp add: mask_with_Some)

lemma mask_with_None: "mask_with m slot = None \<longleftrightarrow> 128 \<le> unat slot"
  by (auto simp: mask_with_def checked_shl_def)

lemma bit_mask_with:
  "mask_with m slot = Some m' \<Longrightarrow> bit m' i \<longleftrightarrow> bit m i \<or> i = unat slot"
  by (auto simp: mask_with_Some bit_or_iff slot_bit)

lemma bit_mask_without: "bit (mask_without m slot) i \<longleftrightarrow> bit m i \<and> i \<noteq> unat slot"
proof (cases "unat slot < 128")
  case True
  then show ?thesis
    using bit_imp_le_length [of m i]
    by (auto simp: mask_without_def checked_shl_def bit_and_iff bit_not_iff slot_bit)
next
  case False
  then show ?thesis
    using bit_imp_le_length [of m i] by (auto simp: mask_without_def checked_shl_def)
qed

text \<open>Restoring the bit that was there undoes any change of that one bit.\<close>

lemma mask_restore:
  assumes "unat slot < 128" and same: "\<And>i. i \<noteq> unat slot \<Longrightarrow> bit m' i = bit m i"
  shows "(if mask_contains m slot then mask_with m' slot else Some (mask_without m' slot)) = Some m"
proof (cases "mask_contains m slot")
  case True
  obtain m'' where m'': "mask_with m' slot = Some m''" using mask_with_total assms(1) by blast
  have "bit m'' i = bit m i" for i
    using same True by (cases "i = unat slot") (simp_all add: bit_mask_with [OF m''] mask_contains_bit)
  then have "m'' = m" by (simp add: word_bits)
  with True m'' show ?thesis by simp
next
  case False
  have "bit (mask_without m' slot) i = bit m i" for i
    using same False by (cases "i = unat slot") (simp_all add: bit_mask_without mask_contains_bit)
  then have "mask_without m' slot = m" by (simp add: word_bits)
  with False show ?thesis by simp
qed

section \<open>The iterator\<close>

lemma trailing_zeros_least:
  assumes "m \<noteq> (0 :: 'a::len word)"
  shows "trailing_zeros m < LENGTH('a) \<and> bit m (trailing_zeros m) \<and>
         (\<forall>i < trailing_zeros m. \<not> bit m i)"
proof -
  let ?P = "\<lambda>i. \<not> bit m i" and ?xs = "[0..<LENGTH('a)]"
  let ?t = "length (takeWhile ?P ?xs)"
  obtain i where i: "bit m i" using assms by (auto simp: word_bits)
  then have "i < LENGTH('a)" by (rule bit_imp_le_length)
  have less: "?t < LENGTH('a)"
  proof (rule ccontr)
    assume "\<not> ?t < LENGTH('a)"
    then have "?t = length ?xs" using length_takeWhile_le [of ?P ?xs] by simp
    then have "takeWhile ?P ?xs = ?xs" by (metis takeWhile_eq_take take_all order_refl)
    then have "\<forall>x \<in> set ?xs. ?P x" by (metis set_takeWhileD)
    with i \<open>i < LENGTH('a)\<close> show False by simp
  qed
  have "bit m (?xs ! ?t)" using nth_length_takeWhile [of ?P ?xs] less by simp
  moreover have "\<not> bit m (?xs ! j)" if "j < ?t" for j
    using that by (metis nth_mem set_takeWhileD takeWhile_nth)
  ultimately show ?thesis using less by (auto simp: trailing_zeros_def)
qed

lemma bit_clear_lowest:
  assumes "m \<noteq> (0 :: 'a::len word)"
  shows "bit (m AND (m - 1)) i \<longleftrightarrow> bit m i \<and> i \<noteq> trailing_zeros m"
proof -
  define t where "t = trailing_zeros m"
  define h where "h = m AND NOT (2 ^ t)"
  have t: "t < LENGTH('a)" "bit m t" "\<And>i. i < t \<Longrightarrow> \<not> bit m i"
    using trailing_zeros_least [OF assms] by (auto simp: t_def)
  have bh: "bit h i \<longleftrightarrow> bit m i \<and> i \<noteq> t" for i
    using bit_imp_le_length [of m i]
    by (auto simp: h_def bit_and_iff bit_not_iff slot_bit [OF t(1)])
  have "m = h OR 2 ^ t"
    using t(1,2) by (auto simp: word_bits bit_or_iff bh slot_bit [OF t(1)])
  also have "\<dots> = h + 2 ^ t"
    by (rule disjunctive_add_eq_or [symmetric])
      (auto simp: word_bits bit_and_iff bh slot_bit [OF t(1)])
  finally have "m - 1 = h + (2 ^ t - 1)" by simp
  also have "\<dots> = h + mask t" by (simp add: mask_eq_exp_minus_1)
  also have "\<dots> = h OR mask t"
    by (rule disjunctive_add_eq_or)
      (use t(3) in \<open>auto simp: word_bits bit_and_iff bh bit_mask_iff\<close>)
  finally have "bit (m - 1) i \<longleftrightarrow> bit h i \<or> (i < t \<and> i < LENGTH('a))"
    by (auto simp: bit_or_iff bit_mask_iff)
  then show ?thesis using t(3) by (auto simp: bit_and_iff bh t_def [symmetric])
qed

lemma clear_lowest_less: "m \<noteq> 0 \<Longrightarrow> m AND (m - 1) < (m :: 'a::len word)"
proof -
  assume m: "m \<noteq> 0"
  have "m AND (m - 1) \<noteq> m"
    using bit_clear_lowest [OF m, of "trailing_zeros m"] trailing_zeros_least [OF m] by auto
  moreover have "m AND (m - 1) \<le> m" by (rule word_and_le2)
  ultimately show ?thesis by simp
qed

function mask_iter :: "asset_mask \<Rightarrow> u16 list" where
  "mask_iter m = (case set_slots_next m of None \<Rightarrow> [] | Some (s, m') \<Rightarrow> s # mask_iter m')"
  by pat_completeness auto
termination
  by (relation "measure unat")
    (auto simp: set_slots_next_def word_less_unat [symmetric] clear_lowest_less split: if_splits)

declare mask_iter.simps [simp del]

lemma set_slots_next_Some:
  assumes "m \<noteq> 0"
  shows "\<exists>s. set_slots_next m = Some (s, m AND (m - 1)) \<and> unat s = trailing_zeros m"
proof -
  have "trailing_zeros m < 2 ^ 16" using trailing_zeros_least [OF assms] by simp
  then obtain s :: u16 where "try_from_usize (trailing_zeros m) = Some s"
    by (auto simp: try_from_usize_def)
  then show ?thesis using assms by (auto simp: set_slots_next_def try_from_usize_Some)
qed

lemma mask_iter_empty: "mask_iter 0 = []"
  by (subst mask_iter.simps) (simp add: set_slots_next_def)

lemma mask_iter_step:
  assumes "m \<noteq> 0"
  obtains s where "mask_iter m = s # mask_iter (m AND (m - 1))" "unat s = trailing_zeros m"
  using set_slots_next_Some [OF assms] that by (subst (asm) mask_iter.simps) auto

lemma mask_iter_set: "unat ` set (mask_iter m) = {i. bit m i}"
proof (induction "unat m" arbitrary: m rule: less_induct)
  case less
  show ?case
  proof (cases "m = 0")
    case True
    then show ?thesis by (simp add: mask_iter_empty)
  next
    case False
    then obtain s where s: "mask_iter m = s # mask_iter (m AND (m - 1))" "unat s = trailing_zeros m"
      by (rule mask_iter_step)
    have "unat ` set (mask_iter (m AND (m - 1))) = {i. bit (m AND (m - 1)) i}"
      using less clear_lowest_less [OF False] by (simp add: word_less_unat)
    then show ?thesis
      using s trailing_zeros_least [OF False] by (auto simp: bit_clear_lowest [OF False])
  qed
qed

lemma mask_iter_sorted: "sorted_wrt (<) (mask_iter m)"
proof (induction "unat m" arbitrary: m rule: less_induct)
  case less
  show ?case
  proof (cases "m = 0")
    case True
    then show ?thesis by (simp add: mask_iter_empty)
  next
    case False
    then obtain s where s: "mask_iter m = s # mask_iter (m AND (m - 1))" "unat s = trailing_zeros m"
      by (rule mask_iter_step)
    have IH: "sorted_wrt (<) (mask_iter (m AND (m - 1)))"
      using less clear_lowest_less [OF False] by (simp add: word_less_unat)
    have "s < x" if "x \<in> set (mask_iter (m AND (m - 1)))" for x
    proof -
      have "bit (m AND (m - 1)) (unat x)" using that mask_iter_set by blast
      then have "bit m (unat x)" "unat x \<noteq> trailing_zeros m"
        by (simp_all add: bit_clear_lowest [OF False])
      then have "trailing_zeros m < unat x"
        using trailing_zeros_least [OF False] by (meson linorder_neqE_nat)
      then show ?thesis by (simp add: word_less_unat s(2))
    qed
    with s IH show ?thesis by simp
  qed
qed

lemma count_ones_card: "card {i. bit m i} = count_ones (m :: 'a::len word)"
proof -
  have "{i. bit m i} = set (filter (bit m) [0..<LENGTH('a)])"
    using bit_imp_le_length [of m] by auto
  then show ?thesis
    using distinct_card [of "filter (bit m) [0..<LENGTH('a)]"] by (simp add: count_ones_def)
qed

lemma count_ones_le: "count_ones (m :: 'a::len word) \<le> LENGTH('a)"
  using length_filter_le [of "bit m" "[0..<LENGTH('a)]"] by (simp add: count_ones_def)

section \<open>Property\<close>

text \<open>
  iterating a mask ends, visits exactly the slots the mask contains, each once and in
  ascending order; \<open>len\<close> is the number of slots visited and \<open>is_empty\<close> says there is none.
\<close>

theorem mask_iter_exact:
  "sorted_wrt (<) (mask_iter m) \<and> (s \<in> set (mask_iter m) \<longleftrightarrow> mask_contains m s) \<and>
   length (mask_iter m) = unat (mask_len m) \<and> (mask_is_empty m \<longleftrightarrow> mask_iter m = [])"
proof (intro conjI)
  have inj: "inj_on unat (set (mask_iter m))" by (simp add: inj_on_def word_unat_eq_iff)
  show sorted: "sorted_wrt (<) (mask_iter m)" by (rule mask_iter_sorted)
  show "s \<in> set (mask_iter m) \<longleftrightarrow> mask_contains m s"
  proof -
    have "s \<in> set (mask_iter m) \<longleftrightarrow> unat s \<in> unat ` set (mask_iter m)"
      by (auto dest: word_eq_unatI)
    then show ?thesis by (simp add: mask_iter_set mask_contains_bit)
  qed
  have "distinct (mask_iter m)" using sorted by (simp add: strict_sorted_iff)
  then have len: "length (mask_iter m) = count_ones m"
    using card_image [OF inj] by (simp add: distinct_card mask_iter_set count_ones_card)
  have "count_ones m < 2 ^ LENGTH(32)" using count_ones_le [of m] by simp
  then show "length (mask_iter m) = unat (mask_len m)"
    unfolding len mask_len_def by (rule unat_of_nat_small [symmetric])
  show "mask_is_empty m \<longleftrightarrow> mask_iter m = []"
  proof (cases "m = 0")
    case True
    then show ?thesis by (simp add: mask_is_empty_def mask_iter_empty)
  next
    case False
    then obtain s where "mask_iter m = s # mask_iter (m AND (m - 1))" by (rule mask_iter_step)
    with False show ?thesis by (simp add: mask_is_empty_def)
  qed
qed

end
