(* ===== verification/Model_Types.thy ===== *)
theory Model_Types
  imports Fixed_Point Mask
begin

text \<open>
  The shared data of the workspace: the identity newtypes of \<^verbatim>\<open>liq-types/src/ids.rs\<close>, the
  market row, the per-position extra and the error and health enums of \<^verbatim>\<open>liq-protocol\<close>, the
  store errors of \<^verbatim>\<open>liq-state/src/error.rs\<close>, and the bands and halt enums of \<^verbatim>\<open>liq-types\<close>. Newtypes
  over an integer are the integer at its width.
\<close>

section \<open>Identities\<close>

type_synonym protocol_id = u16
type_synonym market_id = u32
type_synonym asset_id = u16
type_synonym position_id = u32
type_synonym block_num = u64
type_synonym timestamp = u64

datatype flash_provider =
  FP_Aave | FP_UniV3 | FP_UniV4 | FP_Morpho | FP_SkyDss | FP_None | FP_UniV3Swap

record position_key =
  pk_protocol :: protocol_id
  pk_market :: market_id
  pk_user :: address

section \<open>Market rows and extras\<close>

type_synonym feed_id = u16
type_synonym market_flags = u8

definition flags_NONE :: market_flags where
  "flags_NONE = 0"

definition flags_FROZEN :: market_flags where
  "flags_FROZEN = 1"

definition flags_PAUSED :: market_flags where
  "flags_PAUSED = 2"

definition flags_SILOED :: market_flags where
  "flags_SILOED = 4"

definition flags_ISOLATED :: market_flags where
  "flags_ISOLATED = 8"

definition flags_UNPRICED :: market_flags where
  "flags_UNPRICED = 16"

definition flags_contains :: "market_flags \<Rightarrow> market_flags \<Rightarrow> bool" where
  "flags_contains f g \<longleftrightarrow> and f g = g"

definition MARKET_ID_LIMIT :: u32 where
  "MARKET_ID_LIMIT = 65535"

record market_slot =
  ms_market :: market_id
  ms_slot :: u16

record market_row =
  mr_asset :: asset_id
  mr_price_feed :: feed_id
  mr_decimals :: u8
  mr_flags :: market_flags
  mr_hub_slot :: u16
  mr_hub_market :: u32
  mr_last_update :: u32
  mr_body :: "u128 list"

definition BODY_CELLS :: nat where
  "BODY_CELLS = 15"

definition NO_HUB :: u32 where
  "NO_HUB = - 1"

definition market_row_blank :: "asset_id \<Rightarrow> u8 \<Rightarrow> market_row" where
  "market_row_blank asset decimals =
     \<lparr>mr_asset = asset, mr_price_feed = 0, mr_decimals = decimals, mr_flags = flags_NONE,
      mr_hub_slot = 0, mr_hub_market = NO_HUB, mr_last_update = 0,
      mr_body = replicate BODY_CELLS 0\<rparr>"

datatype position_extra_repr = PositionExtraRepr u128 u128 u128 u128

definition extra_ZERO :: position_extra_repr where
  "extra_ZERO = PositionExtraRepr 0 0 0 0"

section \<open>Errors\<close>

datatype archive_error = AE_Unavailable | AE_Truncated u64 | AE_Malformed u64

datatype protocol_error =
    Fixed fixed_error
  | UnknownPosition position_id
  | UnknownMarket market_id
  | SlotOutOfRange market_slot
  | MissingPrice asset_id
  | ExtraLayout
  | BodyLayout
  | ProtocolMismatch
  | OracleSourceMismatch
  | HaltSignal
  | TimestampBeforeUpdate
  | SlotMismatch u16 u16
  | UnexpectedLog
  | MalformedLog
  | FundingAssetMismatch
  | FundingShort
  | CallbackProviderMismatch
  | ZeroRecipient
  | AmountTooLarge
  | EmptyQuote
  | LegOutOfRange
  | Internal
  | UntrackedDebt
  | TableFull string nat
  | Archive archive_error
  | ProbeUnavailable
  | ProbeDecode
  | ExecutorUnwired

datatype state_error =
    SE_UnknownPosition position_id
  | SE_UnknownMarket market_id
  | BlockGap block_num block_num
  | TargetAboveTip block_num block_num
  | ReorgTooDeep u64 u64
  | Inconsistent
  | OverlayStale block_num nat u64 block_num nat u64
  | AssetIdsExhausted

section \<open>Health\<close>

datatype block_reason = BR_Paused | BR_Frozen | BR_GracePeriod | BR_Dust | BR_Unread

datatype health_state =
    Healthy
  | Blocked block_reason
  | Liquidatable
  | AuctionOpen timestamp
  | BadDebt wad
  | SoftLiquidating

record health =
  h_hf :: ray
  h_debt_value :: wad
  h_collateral_value :: wad
  h_price_sensitivity :: asset_mask
  h_state :: health_state

definition NO_DEBT_HF :: ray where
  "NO_DEBT_HF = Ray (- 1)"

datatype band = Hot | Warm | Cool | Cold | Dead | Unfundable

section \<open>Halts\<close>

datatype trigger_kind =
    SvrAuction | OraclePublic | OraclePullHeld | PoolStateChange | UserAction | DerivedRate
  | ParamChange | InterestDrift | Stale | OraclePredicted

datatype halt_scope =
    HS_Global
  | HS_Protocol protocol_id
  | HS_Market market_id
  | HS_Asset asset_id
  | HS_FlashProvider flash_provider
  | HS_Trigger trigger_kind

datatype halt_reason =
    HR_NodeLag | HR_OracleStale | HR_MevShareDisconnected | HR_FlashLiquidityCollapse
  | HR_FlashCallbackRevertStreak | HR_ReorgTooDeep | HR_GasWalletBelowFloor | HR_ProxyUpgrade
  | HR_DriftMismatch | HR_SimChainDivergence | HR_AdapterPanic

end
