(* ===== verification/Interner.thy ===== *)
theory Interner
  imports Model_Types
begin

text \<open>
  Interning, \<^verbatim>\<open>crates/liq-state/src/interner.rs\<close>: dense ids handed out in first-sight order.
  \<open>position_table\<close> maps a position key to its \<^verbatim>\<open>PositionId\<close> and back, \<open>asset_interner\<close> an
  address to its global \<^verbatim>\<open>AssetId\<close> and back. Both promise the same contract, the locale
  \<open>dense_interner\<close>: the forward map and the reverse table are inverse to each other.
\<close>

section \<open>Position table\<close>

record pos_entry =
  pe_key :: position_key
  pe_local :: u32

record position_table =
  pt_map :: "position_key \<rightharpoonup> position_id"
  pt_entries :: "pos_entry list"

definition position_table_new :: position_table where
  "position_table_new = \<lparr>pt_map = Map.empty, pt_entries = []\<rparr>"

fun from_entries_loop ::
  "nat \<Rightarrow> (position_key \<rightharpoonup> position_id) \<Rightarrow> pos_entry list \<Rightarrow>
   (position_key \<rightharpoonup> position_id, state_error) result"
where
  "from_entries_loop i m [] = Ok m"
| "from_entries_loop i m (e # es) =
     (case try_from_usize i of
        None \<Rightarrow> Err Inconsistent
      | Some pid \<Rightarrow>
          if m (pe_key e) \<noteq> None then Err Inconsistent
          else from_entries_loop (i + 1) (m(pe_key e \<mapsto> pid)) es)"

definition from_entries :: "pos_entry list \<Rightarrow> (position_table, state_error) result" where
  "from_entries es =
     and_then (from_entries_loop 0 Map.empty es) (\<lambda>m. Ok \<lparr>pt_map = m, pt_entries = es\<rparr>)"

definition pt_len :: "position_table \<Rightarrow> nat" where
  "pt_len t = length (pt_entries t)"

definition pt_get :: "position_table \<Rightarrow> position_key \<Rightarrow> position_id option" where
  "pt_get t key = pt_map t key"

definition pt_entry :: "position_table \<Rightarrow> nat \<Rightarrow> pos_entry option" where
  "pt_entry t i = get (pt_entries t) i"

definition pt_next_id :: "position_table \<Rightarrow> position_id option" where
  "pt_next_id t = try_from_usize (length (pt_entries t))"

definition pt_push ::
  "position_table \<Rightarrow> position_key \<Rightarrow> position_id \<Rightarrow> u32 \<Rightarrow> position_table" where
  "pt_push t key pid local =
     t\<lparr>pt_map := (pt_map t)(key \<mapsto> pid),
       pt_entries := pt_entries t @ [\<lparr>pe_key = key, pe_local = local\<rparr>]\<rparr>"

definition pt_pop :: "position_table \<Rightarrow> (pos_entry \<times> position_table) option" where
  "pt_pop t =
     (case pop (pt_entries t) of
        None \<Rightarrow> None
      | Some (e, rest) \<Rightarrow>
          Some (e, t\<lparr>pt_entries := rest, pt_map := (pt_map t)(pe_key e := None)\<rparr>))"

section \<open>Asset interner\<close>

record asset_interner =
  ai_map :: "address \<rightharpoonup> asset_id"
  ai_addrs :: "address list"

definition asset_interner_new :: asset_interner where
  "asset_interner_new = \<lparr>ai_map = Map.empty, ai_addrs = []\<rparr>"

definition ai_intern ::
  "asset_interner \<Rightarrow> address \<Rightarrow> (asset_id, state_error) result \<times> asset_interner" where
  "ai_intern t addr =
     (case ai_map t addr of
        Some pid \<Rightarrow> (Ok pid, t)
      | None \<Rightarrow>
          (case try_from_usize (length (ai_addrs t)) of
             None \<Rightarrow> (Err AssetIdsExhausted, t)
           | Some pid \<Rightarrow>
               (Ok pid, t\<lparr>ai_map := (ai_map t)(addr \<mapsto> pid), ai_addrs := ai_addrs t @ [addr]\<rparr>)))"

definition ai_get :: "asset_interner \<Rightarrow> address \<Rightarrow> asset_id option" where
  "ai_get t addr = ai_map t addr"

definition ai_address :: "asset_interner \<Rightarrow> asset_id \<Rightarrow> address option" where
  "ai_address t pid = get (ai_addrs t) (unat pid)"

definition ai_len :: "asset_interner \<Rightarrow> nat" where
  "ai_len t = length (ai_addrs t)"

section \<open>The contract\<close>

text \<open>The forward map finds exactly the keys of the reverse table, each under its index.\<close>

locale dense_interner =
  fixes inv :: "'s \<Rightarrow> bool"
    and lookup :: "'s \<Rightarrow> 'k \<Rightarrow> ('i::len) word option"
    and keys :: "'s \<Rightarrow> 'k list"
  assumes lookup_iff:
    "inv s \<Longrightarrow> lookup s k = Some i \<longleftrightarrow> unat i < length (keys s) \<and> keys s ! unat i = k"
    and fits: "inv s \<Longrightarrow> length (keys s) \<le> 2 ^ LENGTH('i)"
begin

lemma lookup_found:
  assumes "inv s" and "n < length (keys s)"
  shows "lookup s (keys s ! n) = Some (of_nat n)"
proof -
  have "n < 2 ^ LENGTH('i)" using assms fits by (meson less_le_trans)
  then show ?thesis using assms by (simp add: lookup_iff)
qed

lemma keys_distinct:
  assumes "inv s"
  shows "distinct (keys s)"
proof (rule distinct_conv_nth [THEN iffD2], intro allI impI)
  fix m n assume mn: "m < length (keys s)" "n < length (keys s)" "m \<noteq> n"
  have "m < 2 ^ LENGTH('i)" "n < 2 ^ LENGTH('i)"
    using mn fits [OF assms] by (meson less_le_trans)+
  then have "(of_nat m :: 'i word) \<noteq> of_nat n"
    using mn(3) by (metis unat_of_nat_small)
  then show "keys s ! m \<noteq> keys s ! n"
    using lookup_found [OF assms mn(1)] lookup_found [OF assms mn(2)] by auto
qed

lemma lookup_None_iff:
  assumes "inv s"
  shows "lookup s k = None \<longleftrightarrow> k \<notin> set (keys s)"
proof
  assume "lookup s k = None"
  then show "k \<notin> set (keys s)"
    using lookup_found [OF assms] by (metis in_set_conv_nth option.distinct(1))
next
  assume "k \<notin> set (keys s)"
  then show "lookup s k = None"
    using lookup_iff [OF assms] by (metis not_None_eq nth_mem)
qed

lemma lookup_inj: "inv s \<Longrightarrow> lookup s k = Some i \<Longrightarrow> lookup s l = Some i \<Longrightarrow> k = l"
  by (auto simp: lookup_iff)

end

definition pt_inv :: "position_table \<Rightarrow> bool" where
  "pt_inv t \<longleftrightarrow>
     length (pt_entries t) \<le> 2 ^ 32 \<and>
     (\<forall>k i. pt_map t k = Some i \<longleftrightarrow>
        unat i < length (pt_entries t) \<and> pe_key (pt_entries t ! unat i) = k)"

definition ai_inv :: "asset_interner \<Rightarrow> bool" where
  "ai_inv t \<longleftrightarrow>
     length (ai_addrs t) \<le> 2 ^ 16 \<and>
     (\<forall>a i. ai_map t a = Some i \<longleftrightarrow> unat i < length (ai_addrs t) \<and> ai_addrs t ! unat i = a)"

interpretation positions: dense_interner pt_inv pt_get "\<lambda>t. map pe_key (pt_entries t)"
  by unfold_locales (auto simp: pt_inv_def pt_get_def)

interpretation assets: dense_interner ai_inv ai_get ai_addrs
  by unfold_locales (auto simp: ai_inv_def ai_get_def)

section \<open>The operations keep the contract\<close>

lemma pt_inv_new: "pt_inv position_table_new"
  by (simp add: pt_inv_def position_table_new_def)

lemma pt_push_inv:
  assumes "pt_inv t" and "pt_next_id t = Some pid" and "pt_get t key = None"
  shows "pt_inv (pt_push t key pid local)"
proof -
  have pid: "unat pid = length (pt_entries t)"
    using assms(2) by (simp add: pt_next_id_def try_from_usize_Some)
  then have "length (pt_entries t) < 2 ^ 32" using unat_bound [of pid] by simp
  moreover have "key \<notin> set (map pe_key (pt_entries t))"
    using assms(1,3) positions.lookup_None_iff by blast
  ultimately show ?thesis
    using assms(1) pid
    by (auto simp: pt_inv_def pt_push_def nth_append word_unat_eq_iff less_Suc_eq)
qed

lemma pt_pop_push:
  assumes "pt_get t key = None"
  shows "pt_pop (pt_push t key pid local) = Some (\<lparr>pe_key = key, pe_local = local\<rparr>, t)"
  using assms by (cases t) (auto simp: pt_pop_def pt_push_def pt_get_def fun_upd_idem)

text \<open>
  Rebuilding from a reverse table pushes its entries one after another, so it keeps the contract
  and succeeds exactly on the tables without a duplicate key.
\<close>

lemma from_entries_loop_step:
  assumes "pt_inv \<lparr>pt_map = m, pt_entries = pre\<rparr>"
    and "try_from_usize (length pre) = Some pid" and "m (pe_key e) = None"
  shows "pt_inv \<lparr>pt_map = m(pe_key e \<mapsto> pid), pt_entries = pre @ [e]\<rparr>"
  using pt_push_inv [OF assms(1), of pid "pe_key e" "pe_local e"] assms(2,3)
  by (cases e) (simp add: pt_next_id_def pt_get_def pt_push_def)

lemma from_entries_loop_inv:
  assumes "pt_inv \<lparr>pt_map = m, pt_entries = pre\<rparr>"
    and "from_entries_loop (length pre) m es = Ok m'"
  shows "pt_inv \<lparr>pt_map = m', pt_entries = pre @ es\<rparr>"
  using assms
proof (induction es arbitrary: m pre)
  case Nil
  then show ?case by simp
next
  case (Cons e es)
  from Cons.prems(2) obtain pid where
    pid: "try_from_usize (length pre) = Some pid" "m (pe_key e) = None"
    and rest: "from_entries_loop (length (pre @ [e])) (m(pe_key e \<mapsto> pid)) es = Ok m'"
    by (auto split: option.splits if_splits)
  show ?case
    using Cons.IH [OF from_entries_loop_step [OF Cons.prems(1) pid] rest] by simp
qed

lemma from_entries_loop_total:
  assumes "pt_inv \<lparr>pt_map = m, pt_entries = pre\<rparr>"
    and "distinct (map pe_key (pre @ es))" and "length (pre @ es) \<le> 2 ^ 32"
  shows "\<exists>m'. from_entries_loop (length pre) m es = Ok m'"
  using assms
proof (induction es arbitrary: m pre)
  case Nil
  then show ?case by simp
next
  case (Cons e es)
  define pid :: u32 where "pid = of_nat (length pre)"
  have len: "length pre < 2 ^ 32" using Cons.prems(3) by simp
  then have pid: "try_from_usize (length pre) = Some pid" by (simp add: try_from_usize_def pid_def)
  have "pe_key e \<notin> set (map pe_key pre)" using Cons.prems(2) by auto
  then have fresh: "m (pe_key e) = None"
    using positions.lookup_None_iff [OF Cons.prems(1)] by (simp add: pt_get_def)
  have "\<exists>m'. from_entries_loop (length (pre @ [e])) (m(pe_key e \<mapsto> pid)) es = Ok m'"
    using Cons.prems(2,3) by (intro Cons.IH from_entries_loop_step [OF Cons.prems(1) pid fresh]) auto
  then show ?case using pid fresh by simp
qed

lemma from_entries_inv: "from_entries es = Ok t \<Longrightarrow> pt_inv t \<and> pt_entries t = es"
  using from_entries_loop_inv [of Map.empty "[]" es] pt_inv_new
  by (auto simp: from_entries_def rust position_table_new_def)

lemma from_entries_total:
  "distinct (map pe_key es) \<Longrightarrow> length es \<le> 2 ^ 32 \<Longrightarrow> \<exists>t. from_entries es = Ok t"
  using from_entries_loop_total [of Map.empty "[]" es] pt_inv_new
  by (auto simp: from_entries_def position_table_new_def)

lemma ai_inv_new: "ai_inv asset_interner_new"
  by (simp add: ai_inv_def asset_interner_new_def)

lemma ai_intern_inv:
  assumes "ai_inv t"
  shows "ai_inv (snd (ai_intern t addr))"
proof (cases "ai_map t addr")
  case None
  then have "addr \<notin> set (ai_addrs t)"
    using assets.lookup_None_iff [OF assms, of addr] by (simp add: ai_get_def)
  then show ?thesis
    using assms None
    by (auto simp: ai_inv_def ai_intern_def try_from_usize_def nth_append
        word_unat_eq_iff [where 'a = 16] less_Suc_eq split: option.splits if_splits)
next
  case (Some i)
  then show ?thesis using assms by (simp add: ai_intern_def)
qed

section \<open>Properties\<close>

text \<open>
  rebuilding the position table from its reverse table succeeds exactly when no key occurs
  twice and every index is a 32-bit id, and fails with \<open>Inconsistent\<close> otherwise; the table it
  builds has those entries and looks a key up as the index of its entry.
\<close>

theorem from_entries_exact:
  "(if distinct (map pe_key es) \<and> length es \<le> 2 ^ 32
    then \<exists>t. from_entries es = Ok t \<and> pt_entries t = es \<and>
           (pt_get t k = Some i \<longleftrightarrow> unat i < length es \<and> pe_key (es ! unat i) = k)
    else from_entries es = Err Inconsistent)"
proof (cases "from_entries es")
  case (Ok t)
  then have "pt_inv t" "pt_entries t = es" using from_entries_inv by blast+
  then show ?thesis
    using Ok positions.keys_distinct [of t] by (auto simp: pt_inv_def pt_get_def)
next
  case (Err e)
  have "from_entries_loop i m es = Err e \<Longrightarrow> e = Inconsistent" for i m
    by (induction i m es rule: from_entries_loop.induct) (auto split: option.splits if_splits)
  then have "e = Inconsistent" using Err by (auto simp: from_entries_def rust)
  then show ?thesis using Err from_entries_total [of es] by auto
qed

text \<open>
  interning an asset on a table that keeps the contract either returns an id that the address
  then looks up to and that looks up to the address, leaves the table as it was when the address
  was known, and keeps every other answer; or the id space is full and nothing changes.
\<close>

theorem ai_intern_roundtrip:
  assumes "ai_inv t" and "ai_intern t addr = (res, t')"
  shows "ai_inv t' \<and>
    (case res of
       Ok i \<Rightarrow> ai_get t' addr = Some i \<and> ai_address t' i = Some addr \<and>
              (\<forall>b. b \<noteq> addr \<longrightarrow> ai_get t' b = ai_get t b)
     | Err e \<Rightarrow> e = AssetIdsExhausted \<and> t' = t \<and> length (ai_addrs t) = 2 ^ 16)"
proof -
  have inv': "ai_inv t'" using ai_intern_inv [OF assms(1), of addr] assms(2) by simp
  show ?thesis
  proof (cases "ai_map t addr")
    case (Some i)
    then have "res = Ok i" "t' = t" using assms(2) by (auto simp: ai_intern_def)
    then show ?thesis
      using Some assms(1) by (auto simp: ai_inv_def ai_get_def ai_address_def get_def)
  next
    case None
    then show ?thesis
      using assms inv'
      by (auto simp: ai_intern_def try_from_usize_def ai_get_def ai_address_def get_def
          nth_append ai_inv_def split: option.splits if_splits)
  qed
qed

theorem ai_intern_roundtrip_witness:
  "ai_get (snd (ai_intern (snd (ai_intern asset_interner_new 7)) 9)) 9 = Some 1 \<and>
   ai_address (snd (ai_intern (snd (ai_intern asset_interner_new 7)) 9)) 1 = Some 9"
  using ai_intern_roundtrip [of "snd (ai_intern asset_interner_new 7)" 9 "Ok 1"
      "snd (ai_intern (snd (ai_intern asset_interner_new 7)) 9)"]
    ai_intern_inv [OF ai_inv_new, of 7]
  by (simp add: ai_intern_def asset_interner_new_def try_from_usize_def)

end
