(* ===== verification/Undo.thy ===== *)
theory Undo
  imports Model_Types
begin

text \<open>
  The undo ring, \<^verbatim>\<open>crates/liq-state/src/undo.rs\<close>: one record of inverses per block for the last
  \<open>UNDO_DEPTH\<close> blocks. A \<^verbatim>\<open>Vec\<close> is its items with its capacity, because the ring counts the
  pushes that outgrow the reservation. \<open>ring_records\<close> reads the ring as the list of its records,
  newest first; the lemmas of the last section say what every operation does to that list, so a
  client never sees the head index or the wrap-around.
\<close>

section \<open>Vectors with a capacity\<close>

record 'a rvec =
  rv_items :: "'a list"
  rv_cap :: nat

definition rv_with_capacity :: "nat \<Rightarrow> 'a rvec" where
  "rv_with_capacity c = \<lparr>rv_items = [], rv_cap = c\<rparr>"

text \<open>A push into a full vector grows it: to twice the capacity, and to at least four elements.\<close>

definition rv_push :: "'a rvec \<Rightarrow> 'a \<Rightarrow> 'a rvec" where
  "rv_push v x =
     \<lparr>rv_items = rv_items v @ [x],
      rv_cap = (if length (rv_items v) = rv_cap v
                then max 4 (max (2 * rv_cap v) (rv_cap v + 1)) else rv_cap v)\<rparr>"

definition rv_shrink_to :: "'a rvec \<Rightarrow> nat \<Rightarrow> 'a rvec" where
  "rv_shrink_to v c = v\<lparr>rv_cap := min (rv_cap v) (max (length (rv_items v)) c)\<rparr>"

definition rv_clear :: "'a rvec \<Rightarrow> 'a rvec" where
  "rv_clear v = v\<lparr>rv_items := []\<rparr>"

definition rv_full :: "'a rvec \<Rightarrow> bool" where
  "rv_full v \<longleftrightarrow> length (rv_items v) = rv_cap v"

section \<open>Records\<close>

definition UNDO_DEPTH :: nat where
  "UNDO_DEPTH = 128"

datatype undo_op =
    UndoSupply position_id u16 bool u128
  | UndoDebt position_id u16 bool u128
  | UndoExtra position_id
  | UndoSlotExtra position_id u16
  | UndoMarket market_slot
  | UndoCreated position_id
  | UndoPushed market_id bool

record undo_capacity =
  uc_ops :: nat
  uc_extras :: nat
  uc_rows :: nat

record block_undo =
  bu_ops :: "undo_op rvec"
  bu_extras :: "position_extra_repr rvec"
  bu_rows :: "market_row rvec"

definition block_undo_default :: block_undo where
  "block_undo_default =
     \<lparr>bu_ops = rv_with_capacity 0, bu_extras = rv_with_capacity 0, bu_rows = rv_with_capacity 0\<rparr>"

definition block_undo_with_capacity :: "undo_capacity \<Rightarrow> block_undo" where
  "block_undo_with_capacity c =
     \<lparr>bu_ops = rv_with_capacity (uc_ops c), bu_extras = rv_with_capacity (uc_extras c),
      bu_rows = rv_with_capacity (uc_rows c)\<rparr>"

definition clear_vec :: "'a rvec \<Rightarrow> nat \<Rightarrow> 'a rvec" where
  "clear_vec v c = (let v = rv_clear v in if rv_cap v > c then rv_shrink_to v c else v)"

definition block_undo_clear :: "block_undo \<Rightarrow> undo_capacity \<Rightarrow> block_undo" where
  "block_undo_clear rec c =
     \<lparr>bu_ops = clear_vec (bu_ops rec) (uc_ops c),
      bu_extras = clear_vec (bu_extras rec) (uc_extras c),
      bu_rows = clear_vec (bu_rows rec) (uc_rows c)\<rparr>"

section \<open>The ring\<close>

record undo_ring =
  ur_blocks :: "block_undo list"
  ur_capacity :: undo_capacity
  ur_head :: nat
  ur_tip :: block_num
  ur_floor :: block_num
  ur_overflows :: u64

definition wrap :: "nat \<Rightarrow> nat" where
  "wrap i = i mod UNDO_DEPTH"

definition ring_new :: "block_num \<Rightarrow> undo_capacity \<Rightarrow> undo_ring" where
  "ring_new base c =
     \<lparr>ur_blocks = replicate UNDO_DEPTH (block_undo_with_capacity c), ur_capacity = c,
      ur_head = 0, ur_tip = base, ur_floor = base, ur_overflows = 0\<rparr>"

definition ring_depth :: "undo_ring \<Rightarrow> u64" where
  "ring_depth r = saturating_sub (ur_tip r) (ur_floor r)"

definition ring_begin :: "undo_ring \<Rightarrow> block_num \<Rightarrow> (unit, state_error) result \<times> undo_ring" where
  "ring_begin r block =
     (if checked_add (ur_tip r) 1 \<noteq> Some block
      then (Err (BlockGap (ur_tip r) block), r)
      else
        let r = r\<lparr>ur_head := (case usize_add (ur_head r) 1 of None \<Rightarrow> 0 | Some h \<Rightarrow> wrap h),
                  ur_tip := block\<rparr>;
            k = of_nat UNDO_DEPTH;
            r = (if ring_depth r > k then r\<lparr>ur_floor := saturating_sub (ur_tip r) k\<rparr> else r);
            r = (case get (ur_blocks r) (ur_head r) of
                   None \<Rightarrow> r
                 | Some rec \<Rightarrow>
                     r\<lparr>ur_blocks :=
                         (ur_blocks r)[ur_head r := block_undo_clear rec (ur_capacity r)]\<rparr>)
        in (Ok (), r))"

definition ring_current :: "undo_ring \<Rightarrow> block_undo option" where
  "ring_current r = (if ring_depth r = 0 then None else get (ur_blocks r) (ur_head r))"

text \<open>The tail every push shares: store the record back and count the push that found it full.\<close>

definition ring_store :: "undo_ring \<Rightarrow> block_undo \<Rightarrow> bool \<Rightarrow> undo_ring" where
  "ring_store r rec full =
     (let r = r\<lparr>ur_blocks := (ur_blocks r)[ur_head r := rec]\<rparr>
      in if full then r\<lparr>ur_overflows := saturating_add (ur_overflows r) 1\<rparr> else r)"

definition ring_push :: "undo_ring \<Rightarrow> undo_op \<Rightarrow> undo_ring" where
  "ring_push r u =
     (case ring_current r of
        None \<Rightarrow> r
      | Some rec \<Rightarrow>
          let full = rv_full (bu_ops rec)
          in ring_store r (rec\<lparr>bu_ops := rv_push (bu_ops rec) u\<rparr>) full)"

definition ring_push_extra ::
  "undo_ring \<Rightarrow> position_id \<Rightarrow> position_extra_repr \<Rightarrow> undo_ring" where
  "ring_push_extra r pos prev =
     (case ring_current r of
        None \<Rightarrow> r
      | Some rec \<Rightarrow>
          let full = rv_full (bu_ops rec) \<or> rv_full (bu_extras rec)
          in ring_store r
               (rec\<lparr>bu_ops := rv_push (bu_ops rec) (UndoExtra pos),
                    bu_extras := rv_push (bu_extras rec) prev\<rparr>) full)"

definition ring_push_slot_extra ::
  "undo_ring \<Rightarrow> position_id \<Rightarrow> u16 \<Rightarrow> position_extra_repr \<Rightarrow> undo_ring" where
  "ring_push_slot_extra r pos slot prev =
     (case ring_current r of
        None \<Rightarrow> r
      | Some rec \<Rightarrow>
          let full = rv_full (bu_ops rec) \<or> rv_full (bu_extras rec)
          in ring_store r
               (rec\<lparr>bu_ops := rv_push (bu_ops rec) (UndoSlotExtra pos slot),
                    bu_extras := rv_push (bu_extras rec) prev\<rparr>) full)"

definition ring_push_market :: "undo_ring \<Rightarrow> market_slot \<Rightarrow> market_row \<Rightarrow> undo_ring" where
  "ring_push_market r at prev =
     (case ring_current r of
        None \<Rightarrow> r
      | Some rec \<Rightarrow>
          let full = rv_full (bu_ops rec) \<or> rv_full (bu_rows rec)
          in ring_store r
               (rec\<lparr>bu_ops := rv_push (bu_ops rec) (UndoMarket at),
                    bu_rows := rv_push (bu_rows rec) prev\<rparr>) full)"

definition ring_slot_of :: "undo_ring \<Rightarrow> block_num \<Rightarrow> nat option" where
  "ring_slot_of r block =
     (if block \<le> ur_floor r \<or> block > ur_tip r then None
      else
        case checked_sub (ur_tip r) block of
          None \<Rightarrow> None
        | Some back \<Rightarrow>
            (case usize_add (ur_head r) UNDO_DEPTH of
               None \<Rightarrow> None
             | Some h \<Rightarrow> map_option wrap (usize_sub h (wrap (unat back)))))"

definition ring_take :: "undo_ring \<Rightarrow> nat \<Rightarrow> (block_undo \<times> undo_ring) option" where
  "ring_take r slot =
     (case get (ur_blocks r) slot of
        None \<Rightarrow> None
      | Some rec \<Rightarrow> Some (rec, r\<lparr>ur_blocks := (ur_blocks r)[slot := block_undo_default]\<rparr>))"

definition ring_put :: "undo_ring \<Rightarrow> nat \<Rightarrow> block_undo \<Rightarrow> undo_ring" where
  "ring_put r slot rec =
     (let rec = block_undo_clear rec (ur_capacity r)
      in case get (ur_blocks r) slot of
           None \<Rightarrow> r
         | Some _ \<Rightarrow> r\<lparr>ur_blocks := (ur_blocks r)[slot := rec]\<rparr>)"

definition ring_rewind :: "undo_ring \<Rightarrow> block_num \<Rightarrow> (unit, state_error) result \<times> undo_ring" where
  "ring_rewind r target =
     (case checked_sub (ur_tip r) target of
        None \<Rightarrow> (Err Inconsistent, r)
      | Some back \<Rightarrow>
          (case Option.bind (usize_add (ur_head r) UNDO_DEPTH)
                  (\<lambda>h. usize_sub h (wrap (unat back))) of
             None \<Rightarrow> (Err Inconsistent, r)
           | Some h \<Rightarrow> (Ok (), r\<lparr>ur_head := wrap h, ur_tip := target\<rparr>)))"

section \<open>The ring as a list of records\<close>

type_synonym rec_view = "undo_op list \<times> position_extra_repr list \<times> market_row list"

definition rec_view :: "block_undo \<Rightarrow> rec_view" where
  "rec_view rec = (rv_items (bu_ops rec), rv_items (bu_extras rec), rv_items (bu_rows rec))"

definition ring_inv :: "undo_ring \<Rightarrow> bool" where
  "ring_inv r \<longleftrightarrow>
     length (ur_blocks r) = 128 \<and> ur_head r < 128 \<and>
     unat (ur_floor r) \<le> unat (ur_tip r) \<and> unat (ur_tip r) - unat (ur_floor r) \<le> 128"

definition ring_slot :: "undo_ring \<Rightarrow> nat \<Rightarrow> nat" where
  "ring_slot r i = (ur_head r + 128 - i) mod 128"

definition ring_rec :: "undo_ring \<Rightarrow> nat \<Rightarrow> rec_view" where
  "ring_rec r i = rec_view (ur_blocks r ! ring_slot r i)"

definition ring_held :: "undo_ring \<Rightarrow> nat" where
  "ring_held r = unat (ur_tip r) - unat (ur_floor r)"

definition ring_records :: "undo_ring \<Rightarrow> rec_view list" where
  "ring_records r = map (ring_rec r) [0..<ring_held r]"

lemma ring_depth_unat: "unat (ring_depth r) = ring_held r"
  by (simp add: ring_depth_def ring_held_def unat_saturating_sub)

lemma length_ring_records [simp]: "length (ring_records r) = ring_held r"
  by (simp add: ring_records_def)

lemma nth_ring_records: "i < ring_held r \<Longrightarrow> ring_records r ! i = ring_rec r i"
  by (simp add: ring_records_def)

lemma ring_slot_bound: "ring_slot r i < 128"
  by (simp add: ring_slot_def)

lemma ring_slot_eq:
  "ur_head r < 128 \<Longrightarrow> i < 128 \<Longrightarrow>
   ring_slot r i = (if i \<le> ur_head r then ur_head r - i else ur_head r + 128 - i)"
  by (simp add: ring_slot_def mod_if)

lemma ring_slot_inj:
  "i < 128 \<Longrightarrow> j < 128 \<Longrightarrow> ring_slot r i = ring_slot r j \<Longrightarrow> ur_head r < 128 \<Longrightarrow> i = j"
  by (simp add: ring_slot_eq split: if_splits)

lemma rec_view_clear [simp]: "rec_view (block_undo_clear rec c) = ([], [], [])"
  by (simp add: rec_view_def block_undo_clear_def clear_vec_def rv_clear_def rv_shrink_to_def Let_def)

lemma rv_push_items [simp]: "rv_items (rv_push v x) = rv_items v @ [x]"
  by (simp add: rv_push_def)

lemma ring_inv_new: "ring_inv (ring_new base c)"
  by (simp add: ring_inv_def ring_new_def UNDO_DEPTH_def)

lemma ring_records_new: "ring_records (ring_new base c) = []"
  by (simp add: ring_records_def ring_held_def ring_new_def)

subsection \<open>Opening a block\<close>

lemma ring_begin_Err:
  "unat (ur_tip r) + 1 \<noteq> unat block \<Longrightarrow>
   ring_begin r block = (Err (BlockGap (ur_tip r) block), r)"
  by (auto simp: ring_begin_def checked_add_Some)

definition ring_opened :: "undo_ring \<Rightarrow> block_num \<Rightarrow> undo_ring" where
  "ring_opened r block =
     (let h = (if ur_head r = 127 then 0 else ur_head r + 1)
      in r\<lparr>ur_head := h, ur_tip := block,
           ur_floor := (if ring_held r = 128 then block - 128 else ur_floor r),
           ur_blocks := (ur_blocks r)[h := block_undo_clear (ur_blocks r ! h) (ur_capacity r)]\<rparr>)"

lemma ring_begin_opened:
  assumes "ring_inv r" and "unat block = unat (ur_tip r) + 1"
  shows "ring_begin r block = (Ok (), ring_opened r block)"
proof -
  have H: "length (ur_blocks r) = 128" "ur_head r < 128"
    "unat (ur_floor r) \<le> unat (ur_tip r)" "ring_held r \<le> 128"
    using assms(1) by (auto simp: ring_inv_def ring_held_def)
  have h: "(case usize_add (ur_head r) (Suc 0) of None \<Rightarrow> 0 | Some h \<Rightarrow> wrap h) =
    (if ur_head r = 127 then 0 else ur_head r + 1)"
    using H(2) by (simp add: usize_add_def USIZE_LIMIT_def wrap_def UNDO_DEPTH_def mod_if)
  have chk: "checked_add (ur_tip r) 1 = Some block" using assms(2) by (simp add: checked_add_Some)
  have d: "128 < ring_depth (r\<lparr>ur_head := k, ur_tip := block\<rparr>) \<longleftrightarrow> ring_held r = 128" for k
    using H(3,4) assms(2) by (auto simp: word_less_unat ring_depth_unat ring_held_def)
  have f: "saturating_sub block 128 = block - 128" if "ring_held r = 128"
  proof -
    have "128 \<le> unat block" using that H(3) assms(2) by (simp add: ring_held_def)
    then show ?thesis by (simp add: saturating_sub_def word_le_unat)
  qed
  show ?thesis
    using H f by (simp add: ring_begin_def ring_opened_def chk h d UNDO_DEPTH_def Let_def get_def)
qed

lemma ring_opened_inv:
  assumes "ring_inv r" and "unat block = unat (ur_tip r) + 1"
  shows "ring_inv (ring_opened r block)"
    and "ring_held (ring_opened r block) = min (ring_held r + 1) 128"
    and "unat (ur_floor (ring_opened r block)) = max (unat (ur_floor r)) (unat block - 128)"
proof -
  have H: "length (ur_blocks r) = 128" "ur_head r < 128"
    "unat (ur_floor r) \<le> unat (ur_tip r)" "ring_held r \<le> 128"
    using assms(1) by (auto simp: ring_inv_def ring_held_def)
  have f: "unat (block - 128) = unat block - 128" if "ring_held r = 128"
    using that H(3) assms(2) by (subst unat_sub_exact) (auto simp: word_le_unat ring_held_def)
  show floor: "unat (ur_floor (ring_opened r block)) = max (unat (ur_floor r)) (unat block - 128)"
    using H f assms(2) by (auto simp: ring_opened_def Let_def ring_held_def)
  then show "ring_held (ring_opened r block) = min (ring_held r + 1) 128"
    using H assms(2) unfolding ring_held_def by (simp add: ring_opened_def Let_def)
  show "ring_inv (ring_opened r block)"
    using H assms(2) floor unfolding ring_inv_def ring_held_def
    by (auto simp: ring_opened_def Let_def)
qed

lemma ring_opened_records:
  assumes "ring_inv r" and "unat block = unat (ur_tip r) + 1"
  shows "ring_records (ring_opened r block) = ([], [], []) # take 127 (ring_records r)"
proof -
  let ?r = "ring_opened r block"
  have H: "length (ur_blocks r) = 128" "ur_head r < 128" using assms(1) by (auto simp: ring_inv_def)
  have h: "ur_head ?r = (if ur_head r = 127 then 0 else ur_head r + 1)" "ur_head ?r < 128"
    using H(2) by (auto simp: ring_opened_def Let_def)
  have bl: "ur_blocks ?r ! k =
    (if k = ur_head ?r then block_undo_clear (ur_blocks r ! k) (ur_capacity r) else ur_blocks r ! k)"
    if "k < 128" for k
    using H(1) that by (auto simp: ring_opened_def Let_def)
  have zero: "ring_rec ?r 0 = ([], [], [])"
    using h(2) by (simp add: ring_rec_def ring_slot_eq bl)
  have suc: "ring_rec ?r (Suc i) = ring_rec r i" if "i < 127" for i
  proof -
    have "ring_slot ?r (Suc i) = ring_slot r i"
      using H(2) h that by (auto simp: ring_slot_eq)
    moreover have "ring_slot r i \<noteq> ur_head ?r"
      using H(2) h(1) that by (auto simp: ring_slot_eq split: if_splits)
    ultimately show ?thesis by (simp add: ring_rec_def bl ring_slot_bound)
  qed
  show ?thesis
    using zero suc ring_opened_inv(2) [OF assms]
    by (intro nth_equalityI)
      (auto simp: nth_ring_records nth_Cons min_def split: nat.split if_splits)
qed

lemma ring_opened_frame [simp]:
  "ur_tip (ring_opened r block) = block"
  "ur_capacity (ring_opened r block) = ur_capacity r"
  "ur_overflows (ring_opened r block) = ur_overflows r"
  by (simp_all add: ring_opened_def Let_def)

subsection \<open>Pushing an inverse\<close>

lemma ring_current_Some:
  assumes "ring_inv r" and "0 < ring_held r"
  shows "ring_current r = Some (ur_blocks r ! ur_head r)"
proof -
  have "ring_depth r \<noteq> 0" using assms(2) by (simp add: unat_gt_0 flip: ring_depth_unat)
  then show ?thesis using assms(1) by (simp add: ring_current_def ring_inv_def get_def)
qed

lemma ring_current_None: "ring_held r = 0 \<Longrightarrow> ring_current r = None"
  by (simp add: ring_current_def unat_0_iff flip: ring_depth_unat)

lemma ring_records_Cons:
  assumes "ring_inv r" and "0 < ring_held r"
  shows "ring_records r = rec_view (ur_blocks r ! ur_head r) # tl (ring_records r)"
proof -
  have "[0..<ring_held r] = 0 # [1..<ring_held r]" using assms(2) by (simp add: upt_conv_Cons)
  then show ?thesis
    using assms(1) by (simp add: ring_records_def ring_rec_def ring_slot_eq ring_inv_def)
qed

lemma ring_store_frame [simp]:
  "ur_tip (ring_store r rec full) = ur_tip r" "ur_floor (ring_store r rec full) = ur_floor r"
  "ur_head (ring_store r rec full) = ur_head r"
  "ur_capacity (ring_store r rec full) = ur_capacity r"
  "ring_held (ring_store r rec full) = ring_held r"
  by (simp_all add: ring_store_def ring_held_def Let_def)

lemma ring_store_inv: "ring_inv r \<Longrightarrow> ring_inv (ring_store r rec full)"
  by (simp add: ring_inv_def) (simp add: ring_store_def Let_def)

lemma ring_store_records:
  assumes "ring_inv r" and "0 < ring_held r"
  shows "ring_records (ring_store r rec full) = rec_view rec # tl (ring_records r)"
proof -
  let ?r = "ring_store r rec full"
  have H: "length (ur_blocks r) = 128" "ur_head r < 128" "ring_held r \<le> 128"
    using assms(1) by (auto simp: ring_inv_def ring_held_def)
  have bl: "ur_blocks ?r = (ur_blocks r)[ur_head r := rec]" by (simp add: ring_store_def Let_def)
  have "ring_rec ?r i = (if i = 0 then rec_view rec else ring_rec r i)" if "i < 128" for i
    using H that by (auto simp: ring_rec_def ring_slot_eq bl)
  then show ?thesis
    using H assms(2)
    by (intro nth_equalityI) (auto simp: nth_ring_records nth_Cons nth_tl split: nat.split)
qed

text \<open>What each push does to the open record. Without an open block it does nothing.\<close>

definition pushed_view :: "undo_op \<Rightarrow> position_extra_repr list \<Rightarrow> market_row list \<Rightarrow> rec_view \<Rightarrow> rec_view" where
  "pushed_view u es rs v = (case v of (us, xs, ys) \<Rightarrow> (us @ [u], xs @ es, ys @ rs))"

definition ring_extends ::
  "undo_op \<Rightarrow> position_extra_repr list \<Rightarrow> market_row list \<Rightarrow> undo_ring \<Rightarrow> undo_ring \<Rightarrow> bool" where
  "ring_extends u es rs r r' \<longleftrightarrow>
     ring_inv r' \<and> ur_tip r' = ur_tip r \<and> ur_floor r' = ur_floor r \<and>
     ring_records r' =
       (case ring_records r of [] \<Rightarrow> [] | v # vs \<Rightarrow> pushed_view u es rs v # vs)"

lemma ring_extends_store:
  assumes "ring_inv r" and "0 < ring_held r"
    and "rec_view rec = pushed_view u es rs (rec_view (ur_blocks r ! ur_head r))"
  shows "ring_extends u es rs r (ring_store r rec full)"
proof -
  obtain v vs where vs: "ring_records r = v # vs" "v = rec_view (ur_blocks r ! ur_head r)"
    using ring_records_Cons [OF assms(1,2)] by blast
  show ?thesis
    unfolding ring_extends_def
    using assms ring_store_records [OF assms(1,2), of rec full] ring_store_inv [OF assms(1)]
    by (simp add: vs)
qed

lemma ring_extends_closed:
  assumes "ring_inv r" and "ring_held r = 0"
  shows "ring_extends u es rs r r"
  using assms by (simp add: ring_extends_def ring_records_def)

lemmas ring_push_defs =
  ring_push_def ring_push_extra_def ring_push_slot_extra_def ring_push_market_def

lemma ring_push_extends:
  assumes "ring_inv r"
  shows "ring_extends u [] [] r (ring_push r u)"
    and "ring_extends (UndoExtra pos) [x] [] r (ring_push_extra r pos x)"
    and "ring_extends (UndoSlotExtra pos slot) [x] [] r (ring_push_slot_extra r pos slot x)"
    and "ring_extends (UndoMarket at) [] [row] r (ring_push_market r at row)"
proof -
  consider "ring_held r = 0" | "0 < ring_held r" by blast
  note held = this
  show "ring_extends u [] [] r (ring_push r u)"
    and "ring_extends (UndoExtra pos) [x] [] r (ring_push_extra r pos x)"
    and "ring_extends (UndoSlotExtra pos slot) [x] [] r (ring_push_slot_extra r pos slot x)"
    and "ring_extends (UndoMarket at) [] [row] r (ring_push_market r at row)"
    by (cases rule: held;
        simp add: ring_push_defs ring_current_None ring_current_Some [OF assms]
          ring_extends_closed [OF assms] ring_extends_store [OF assms] Let_def rec_view_def
          pushed_view_def)+
qed

subsection \<open>Consuming records\<close>

lemma ring_slot_of_held:
  assumes "ring_inv r" and "i < ring_held r" and "unat block = unat (ur_tip r) - i"
  shows "ring_slot_of r block = Some (ring_slot r i)"
proof -
  have H: "ur_head r < 128" "ring_held r \<le> 128" using assms(1) by (auto simp: ring_inv_def ring_held_def)
  have i: "i < 128" "i \<le> unat (ur_tip r)" using assms(2) H(2) by (auto simp: ring_held_def)
  have "\<not> block \<le> ur_floor r" "\<not> block > ur_tip r"
    using assms(2,3) by (auto simp: word_le_unat word_less_unat ring_held_def)
  moreover have "checked_sub (ur_tip r) block = Some (of_nat i)"
  proof -
    have "i < 2 ^ LENGTH(64)" using i(1) by simp
    then have "unat (of_nat i :: u64) = i" by (rule unat_of_nat_small)
    then show ?thesis using i(2) assms(3) by (simp add: checked_sub_Some)
  qed
  ultimately show ?thesis
    using H i
    by (simp add: ring_slot_of_def usize_add_def usize_sub_def USIZE_LIMIT_def wrap_def
        UNDO_DEPTH_def ring_slot_def)
qed

lemma ring_slot_of_None:
  "unat block \<le> unat (ur_floor r) \<or> unat (ur_tip r) < unat block \<Longrightarrow> ring_slot_of r block = None"
  by (auto simp: ring_slot_of_def word_le_unat word_less_unat)

lemma ring_take_held:
  assumes "ring_inv r"
  obtains rec r1 where "ring_take r (ring_slot r i) = Some (rec, r1)" "rec_view rec = ring_rec r i"
    "r1 = r\<lparr>ur_blocks := (ur_blocks r)[ring_slot r i := block_undo_default]\<rparr>"
  using assms ring_slot_bound [of r i] by (auto simp: ring_take_def get_def ring_inv_def ring_rec_def)

lemma ring_put_taken:
  assumes "ring_inv r" and "r1 = r\<lparr>ur_blocks := (ur_blocks r)[ring_slot r i := block_undo_default]\<rparr>"
    and r2_def: "r2 = ring_put r1 (ring_slot r i) rec"
  shows "ring_inv r2" "ur_tip r2 = ur_tip r" "ur_floor r2 = ur_floor r" "ur_head r2 = ur_head r"
    and "i < 128 \<Longrightarrow> j < 128 \<Longrightarrow> j \<noteq> i \<Longrightarrow> ring_rec r2 j = ring_rec r j"
proof -
  have b: "ring_slot r i < length (ur_blocks r)"
    using assms(1) ring_slot_bound by (simp add: ring_inv_def)
  then have r2: "r2 = r\<lparr>ur_blocks := (ur_blocks r)
      [ring_slot r i := block_undo_clear rec (ur_capacity r)]\<rparr>"
    by (simp add: r2_def assms(2) ring_put_def get_def Let_def)
  then show "ring_inv r2" "ur_tip r2 = ur_tip r" "ur_floor r2 = ur_floor r" "ur_head r2 = ur_head r"
    using assms(1) by (simp_all add: ring_inv_def)
  assume ij: "i < 128" "j < 128" "j \<noteq> i"
  then have "ring_slot r j \<noteq> ring_slot r i"
    using assms(1) ring_slot_inj [of j i r] by (auto simp: ring_inv_def)
  moreover have "ring_slot r2 j = ring_slot r j" by (simp add: ring_slot_def r2)
  ultimately show "ring_rec r2 j = ring_rec r j" using b by (simp add: ring_rec_def r2)
qed

lemma ring_rewind_held:
  assumes "ring_inv r" and "k \<le> ring_held r" and "unat target = unat (ur_tip r) - k"
  obtains r' where "ring_rewind r target = (Ok (), r')" "ring_inv r'" "ur_tip r' = target"
    "ur_floor r' = ur_floor r" "ring_records r' = drop k (ring_records r)"
proof -
  have H: "length (ur_blocks r) = 128" "ur_head r < 128" "ring_held r \<le> 128"
    "unat (ur_floor r) \<le> unat (ur_tip r)"
    using assms(1) by (auto simp: ring_inv_def ring_held_def)
  have k: "k \<le> 128" "k \<le> unat (ur_tip r)" using assms(2) H(3) by (auto simp: ring_held_def)
  have sub: "checked_sub (ur_tip r) target = Some (of_nat k)"
  proof -
    have "k < 2 ^ LENGTH(64)" using k(1) by simp
    then have "unat (of_nat k :: u64) = k" by (rule unat_of_nat_small)
    then show ?thesis using k(2) assms(3) by (simp add: checked_sub_Some)
  qed
  define r' where "r' = r\<lparr>ur_head := (ur_head r + 128 - k mod 128) mod 128, ur_tip := target\<rparr>"
  have rw: "ring_rewind r target = (Ok (), r')"
  proof -
    have "unat (of_nat k :: u64) = k" using k(1) by (subst unat_of_nat_small) simp_all
    then show ?thesis
      using H k by (simp add: ring_rewind_def sub usize_add_def usize_sub_def USIZE_LIMIT_def wrap_def
          UNDO_DEPTH_def r'_def)
  qed
  have inv: "ring_inv r'" "ring_held r' = ring_held r - k"
    using H assms(2,3) by (auto simp: ring_inv_def ring_held_def r'_def)
  have "ring_rec r' j = ring_rec r (k + j)" if "k + j < 128" for j
  proof -
    have "k mod 128 = k" using that by simp
    then have "ur_head r' = ring_slot r k" by (simp add: r'_def ring_slot_def)
    then have "ring_slot r' j = ring_slot r (k + j)"
      using H(2) inv(1) that by (auto simp: ring_slot_eq ring_inv_def)
    then show ?thesis by (simp add: ring_rec_def r'_def)
  qed
  then have "ring_records r' = drop k (ring_records r)"
    using H(3) by (intro nth_equalityI) (auto simp: inv nth_ring_records)
  then show ?thesis using rw inv by (intro that) (simp_all add: r'_def)
qed

end
