(* ===== verification/Store.thy ===== *)
theory Store
  imports Interner Undo
begin

text \<open>
  The in-memory mirror, \<^verbatim>\<open>crates/liq-state/src/store.rs\<close>. An operation takes the store and
  returns its result with the store it leaves, on the error paths too, so that what a failing
  operation has already written is part of the model.
\<close>

section \<open>Markets\<close>

definition NO_MARKET :: u16 where
  "NO_MARKET = - 1"

definition MAX_MARKETS :: nat where
  "MAX_MARKETS = unat MARKET_ID_LIMIT"

definition LINE_CELLS :: nat where
  "LINE_CELLS = 4"

record store_config =
  sc_base :: block_num
  sc_positions :: nat
  sc_markets :: nat
  sc_undo :: undo_capacity

record market =
  m_rows :: "market_row list"
  m_stride :: nat
  m_n_pos :: u32
  m_supply :: "u128 list"
  m_debt :: "u128 list"
  m_slot_extra :: "position_extra_repr list"

definition market_new :: market where
  "market_new =
     \<lparr>m_rows = [], m_stride = 0, m_n_pos = 0, m_supply = [], m_debt = [], m_slot_extra = []\<rparr>"

definition market_cell :: "market \<Rightarrow> u32 \<Rightarrow> u16 \<Rightarrow> nat option" where
  "market_cell m local slot =
     Option.bind (usize_mul (unat local) (m_stride m)) (\<lambda>x. usize_add x (unat slot))"

definition market_row_range :: "market \<Rightarrow> u32 \<Rightarrow> (nat \<times> nat) option" where
  "market_row_range m local =
     Option.bind (usize_mul (unat local) (m_stride m))
       (\<lambda>start. map_option (\<lambda>stop. (start, stop)) (usize_add start (length (m_rows m))))"

text \<open>
  \<^verbatim>\<open>slice::get(start..end)\<close>, \<^verbatim>\<open>copy_within\<close> and \<^verbatim>\<open>fill\<close>. The source's \<^verbatim>\<open>copy_within\<close> panics out of
  bounds; its one caller checks \<^verbatim>\<open>src_end\<close> and \<^verbatim>\<open>dst_end\<close> against the length and always grows the
  stride, so its ranges are in bounds.
\<close>

definition get_range :: "'a list \<Rightarrow> nat \<times> nat \<Rightarrow> 'a list option" where
  "get_range xs = (\<lambda>(a, b). if a \<le> b \<and> b \<le> length xs then Some (take (b - a) (drop a xs)) else None)"

definition copy_within :: "'a list \<Rightarrow> nat \<Rightarrow> nat \<Rightarrow> nat \<Rightarrow> 'a list" where
  "copy_within xs src src_end dst =
     take dst xs @ take (src_end - src) (drop src xs) @ drop (dst + (src_end - src)) xs"

definition fill_range :: "'a list \<Rightarrow> nat \<Rightarrow> nat \<Rightarrow> 'a \<Rightarrow> 'a list" where
  "fill_range xs a b v =
     (if a \<le> b \<and> b \<le> length xs then take a xs @ replicate (b - a) v @ drop b xs else xs)"

fun restride_loop ::
  "nat \<Rightarrow> nat \<Rightarrow> nat \<Rightarrow> nat \<Rightarrow> 'a \<Rightarrow> 'a list \<Rightarrow> (unit, state_error) result \<times> 'a list"
where
  "restride_loop 0 old new tot z col = (Ok (), col)"
| "restride_loop (Suc l) old new tot z col =
     try_opt (usize_mul l old) Inconsistent col (\<lambda>src.
     try_opt (usize_add src old) Inconsistent col (\<lambda>src_end.
     try_opt (usize_mul l new) Inconsistent col (\<lambda>dst.
     try_opt (usize_add dst old) Inconsistent col (\<lambda>dst_mid.
     try_opt (usize_add dst new) Inconsistent col (\<lambda>dst_end.
       if src_end > tot \<or> dst_end > tot then (Err Inconsistent, col)
       else restride_loop l old new tot z
              (fill_range (copy_within col src src_end dst) dst_mid dst_end z))))))"

definition restride ::
  "'a list \<Rightarrow> nat \<Rightarrow> nat \<Rightarrow> nat \<Rightarrow> 'a \<Rightarrow> (unit, state_error) result \<times> 'a list" where
  "restride col n_pos old new z =
     try_opt (usize_mul n_pos new) Inconsistent col (\<lambda>tot.
       restride_loop n_pos old new tot z (resize col tot z))"

definition checked_next_multiple_of :: "nat \<Rightarrow> nat \<Rightarrow> nat option" where
  "checked_next_multiple_of a b =
     (let r = a mod b in if r = 0 then Some a else usize_add a (b - r))"

definition ensure_stride :: "market \<Rightarrow> nat \<Rightarrow> (unit, state_error) result \<times> market" where
  "ensure_stride m slots =
     (if slots \<le> m_stride m then (Ok (), m)
      else
        try_opt (checked_next_multiple_of slots LINE_CELLS) Inconsistent m (\<lambda>new.
          let n = unat (m_n_pos m) in
          case restride (m_supply m) n (m_stride m) new 0 of
            (Err e, s) \<Rightarrow> (Err e, m\<lparr>m_supply := s\<rparr>)
          | (Ok _, s) \<Rightarrow>
              let m = m\<lparr>m_supply := s\<rparr> in
              (case restride (m_debt m) n (m_stride m) new 0 of
                 (Err e, d) \<Rightarrow> (Err e, m\<lparr>m_debt := d\<rparr>)
               | (Ok _, d) \<Rightarrow>
                   let m = m\<lparr>m_debt := d\<rparr> in
                   (case restride (m_slot_extra m) n (m_stride m) new extra_ZERO of
                      (Err e, x) \<Rightarrow> (Err e, m\<lparr>m_slot_extra := x\<rparr>)
                    | (Ok _, x) \<Rightarrow> (Ok (), m\<lparr>m_slot_extra := x, m_stride := new\<rparr>)))))"

datatype col = Supply | Debt

fun col_get :: "col \<Rightarrow> market \<Rightarrow> u128 list" where
  "col_get Supply m = m_supply m"
| "col_get Debt m = m_debt m"

fun col_set :: "col \<Rightarrow> u128 list \<Rightarrow> market \<Rightarrow> market" where
  "col_set Supply xs m = m\<lparr>m_supply := xs\<rparr>"
| "col_set Debt xs m = m\<lparr>m_debt := xs\<rparr>"

fun col_other :: "col \<Rightarrow> col" where
  "col_other Supply = Debt"
| "col_other Debt = Supply"

section \<open>The store\<close>

record state_store =
  st_config :: "asset_mask list"
  st_positions :: position_table
  st_extra :: "position_extra_repr list"
  st_markets :: "market list"
  st_market_index :: "u16 list"
  st_undo :: undo_ring
  st_writes :: u64

definition market_idx :: "u16 list \<Rightarrow> market_id \<Rightarrow> nat option" where
  "market_idx index i =
     (case get index (unat i) of
        None \<Rightarrow> None
      | Some k \<Rightarrow> if k \<noteq> NO_MARKET then Some (unat k) else None)"

definition store_new :: "store_config \<Rightarrow> state_store" where
  "store_new cfg =
     \<lparr>st_config = [], st_positions = position_table_new, st_extra = [], st_markets = [],
      st_market_index = [], st_undo = ring_new (sc_base cfg) (sc_undo cfg), st_writes = 0\<rparr>"

definition from_captured ::
  "store_config \<Rightarrow> u64 \<Rightarrow> asset_mask list \<Rightarrow> position_table \<Rightarrow> position_extra_repr list \<Rightarrow>
   market list \<Rightarrow> u16 list \<Rightarrow> (state_store, state_error) result" where
  "from_captured cfg writes config positions extra markets market_index =
     (if length config \<noteq> length extra \<or> length config \<noteq> pt_len positions
      then Err Inconsistent
      else Ok \<lparr>st_config = config, st_positions = positions, st_extra = extra,
               st_markets = markets, st_market_index = market_index,
               st_undo = ring_new (sc_base cfg) (sc_undo cfg), st_writes = writes\<rparr>)"

definition store_len :: "state_store \<Rightarrow> nat" where
  "store_len st = pt_len (st_positions st)"

definition store_position_id :: "state_store \<Rightarrow> position_key \<Rightarrow> position_id option" where
  "store_position_id st key = pt_get (st_positions st) key"

definition store_tip :: "state_store \<Rightarrow> block_num" where
  "store_tip st = ur_tip (st_undo st)"

definition store_floor :: "state_store \<Rightarrow> block_num" where
  "store_floor st = ur_floor (st_undo st)"

definition store_is_empty :: "state_store \<Rightarrow> bool" where
  "store_is_empty st \<longleftrightarrow> pt_len (st_positions st) = 0"

definition store_undo_overflows :: "state_store \<Rightarrow> u64" where
  "store_undo_overflows st = ur_overflows (st_undo st)"

definition begin_block ::
  "state_store \<Rightarrow> block_num \<Rightarrow> (unit, state_error) result \<times> state_store" where
  "begin_block st block = (case ring_begin (st_undo st) block of (r, u) \<Rightarrow> (r, st\<lparr>st_undo := u\<rparr>))"

definition store_market :: "state_store \<Rightarrow> market_id \<Rightarrow> market option" where
  "store_market st i =
     Option.bind (market_idx (st_market_index st) i) (\<lambda>mi. get (st_markets st) mi)"

text \<open>\<open>reserve_positions\<close> reserves capacity, which the columns do not carry; its checks remain.\<close>

definition reserve_positions ::
  "state_store \<Rightarrow> market_id \<Rightarrow> nat \<Rightarrow> (unit, state_error) result" where
  "reserve_positions st market n =
     and_then (ok_or (store_market st market) (SE_UnknownMarket market)) (\<lambda>m.
     and_then (ok_or (usize_mul n (m_stride m)) Inconsistent) (\<lambda>_. Ok ()))"

definition store_rows :: "state_store \<Rightarrow> market_id \<Rightarrow> market_row list option" where
  "store_rows st i = map_option m_rows (store_market st i)"

text \<open>The borrowed view a health computation reads.\<close>

record position_ref =
  pr_id :: position_id
  pr_key :: position_key
  pr_config :: asset_mask
  pr_supply :: "u128 list"
  pr_debt :: "u128 list"
  pr_extra :: position_extra_repr
  pr_slot_extra :: "position_extra_repr list"
  pr_markets :: "market_row list"
  pr_timestamp :: timestamp

definition store_position_ref ::
  "state_store \<Rightarrow> position_id \<Rightarrow> timestamp \<Rightarrow> (position_ref, state_error) result" where
  "store_position_ref st i ts =
     and_then (ok_or (get (st_config st) (unat i)) (SE_UnknownPosition i)) (\<lambda>config.
     and_then (ok_or (pt_entry (st_positions st) (unat i)) (SE_UnknownPosition i)) (\<lambda>entry.
     and_then (ok_or (get (st_extra st) (unat i)) (SE_UnknownPosition i)) (\<lambda>extra.
       let market = pk_market (pe_key entry) in
     and_then (ok_or (store_market st market) (SE_UnknownMarket market)) (\<lambda>m.
     and_then (ok_or (market_row_range m (pe_local entry)) Inconsistent) (\<lambda>range.
     and_then (ok_or (get_range (m_supply m) range) Inconsistent) (\<lambda>supply.
     and_then (ok_or (get_range (m_debt m) range) Inconsistent) (\<lambda>debt.
     and_then (ok_or (get_range (m_slot_extra m) range) Inconsistent) (\<lambda>slot_extra.
       Ok \<lparr>pr_id = i, pr_key = pe_key entry, pr_config = config, pr_supply = supply,
           pr_debt = debt, pr_extra = extra, pr_slot_extra = slot_extra,
           pr_markets = m_rows m, pr_timestamp = ts\<rparr>))))))))"

section \<open>Setters\<close>

definition undo_column :: "col \<Rightarrow> position_id \<Rightarrow> u16 \<Rightarrow> bool \<Rightarrow> u128 \<Rightarrow> undo_op" where
  "undo_column c pos slot prev_set prev =
     (case c of Supply \<Rightarrow> UndoSupply pos slot prev_set prev
              | Debt \<Rightarrow> UndoDebt pos slot prev_set prev)"

definition set_column ::
  "col \<Rightarrow> position_id \<Rightarrow> u16 \<Rightarrow> u128 \<Rightarrow> state_store \<Rightarrow> (unit, protocol_error) result \<times> state_store"
where
  "set_column c pos slot shares st =
     try_opt (pt_entry (st_positions st) (unat pos)) (UnknownPosition pos) st (\<lambda>entry.
       let market = pk_market (pe_key entry); local = pe_local entry;
           at = \<lparr>ms_market = market, ms_slot = slot\<rparr> in
     try_opt (market_idx (st_market_index st) market) (UnknownMarket market) st (\<lambda>mi.
     try_opt (get (st_markets st) mi) (UnknownMarket market) st (\<lambda>m.
       if unat slot \<ge> length (m_rows m) then (Err (SlotOutOfRange at), st)
       else
     try_opt (market_cell m local slot) (SlotOutOfRange at) st (\<lambda>ci.
     try_opt (get (st_config st) (unat pos)) (UnknownPosition pos) st (\<lambda>config.
       let prev_set = mask_contains config slot in
     try_opt (get (col_get (col_other c) m) ci) (SlotOutOfRange at) st (\<lambda>other.
     try_opt (get (col_get c m) ci) (SlotOutOfRange at) st (\<lambda>prev.
     try_opt (if shares \<noteq> 0 \<or> other \<noteq> 0 then mask_with config slot
              else Some (mask_without config slot)) (SlotOutOfRange at) st (\<lambda>new_config.
       (Ok (),
        st\<lparr>st_undo := ring_push (st_undo st) (undo_column c pos slot prev_set prev),
           st_markets := (st_markets st)[mi := col_set c ((col_get c m)[ci := shares]) m],
           st_config := (st_config st)[unat pos := new_config],
           st_writes := st_writes st + 1\<rparr>)))))))))"

definition set_supply ::
  "state_store \<Rightarrow> position_id \<Rightarrow> u16 \<Rightarrow> u128 \<Rightarrow> (unit, protocol_error) result \<times> state_store" where
  "set_supply st pos slot shares = set_column Supply pos slot shares st"

definition set_debt ::
  "state_store \<Rightarrow> position_id \<Rightarrow> u16 \<Rightarrow> u128 \<Rightarrow> (unit, protocol_error) result \<times> state_store" where
  "set_debt st pos slot shares = set_column Debt pos slot shares st"

definition intern ::
  "state_store \<Rightarrow> position_key \<Rightarrow> (position_id, protocol_error) result \<times> state_store" where
  "intern st key =
     (case pt_get (st_positions st) key of
        Some pid \<Rightarrow> (Ok pid, st)
      | None \<Rightarrow>
          let market = pk_market key in
          try_opt (market_idx (st_market_index st) market) (UnknownMarket market) st (\<lambda>mi.
          try_opt (get (st_markets st) mi) (UnknownMarket market) st (\<lambda>m.
          try_opt (pt_next_id (st_positions st)) Internal st (\<lambda>pid.
            let local = m_n_pos m in
          try_opt (checked_add local 1) Internal st (\<lambda>n_pos.
          try_opt (usize_add (length (m_supply m)) (m_stride m)) Internal st (\<lambda>cells.
            (Ok pid,
             st\<lparr>st_undo := ring_push (st_undo st) (UndoCreated pid),
                st_markets := (st_markets st)
                  [mi := m\<lparr>m_n_pos := n_pos,
                           m_supply := resize (m_supply m) cells 0,
                           m_debt := resize (m_debt m) cells 0,
                           m_slot_extra := resize (m_slot_extra m) cells extra_ZERO\<rparr>],
                st_positions := pt_push (st_positions st) key pid local,
                st_config := st_config st @ [mask_EMPTY],
                st_extra := st_extra st @ [extra_ZERO],
                st_writes := st_writes st + 1\<rparr>)))))))"

text \<open>The cell readers \<^verbatim>\<open>supply\<close>, \<^verbatim>\<open>debt\<close> and \<^verbatim>\<open>slot_extra\<close> share their resolution of the cell.\<close>

definition read_cell ::
  "(market \<Rightarrow> 'a list) \<Rightarrow> state_store \<Rightarrow> position_id \<Rightarrow> u16 \<Rightarrow> ('a, protocol_error) result" where
  "read_cell column st pos slot =
     and_then (ok_or (pt_entry (st_positions st) (unat pos)) (UnknownPosition pos)) (\<lambda>entry.
       let market = pk_market (pe_key entry);
           at = \<lparr>ms_market = market, ms_slot = slot\<rparr> in
     and_then (ok_or (store_market st market) (UnknownMarket market)) (\<lambda>m.
       if unat slot \<ge> length (m_rows m) then Err (SlotOutOfRange at)
       else ok_or (Option.bind (market_cell m (pe_local entry) slot) (\<lambda>ci. get (column m) ci))
              (SlotOutOfRange at)))"

definition store_supply ::
  "state_store \<Rightarrow> position_id \<Rightarrow> u16 \<Rightarrow> (u128, protocol_error) result" where
  "store_supply st pos slot = read_cell m_supply st pos slot"

definition store_debt ::
  "state_store \<Rightarrow> position_id \<Rightarrow> u16 \<Rightarrow> (u128, protocol_error) result" where
  "store_debt st pos slot = read_cell m_debt st pos slot"

definition store_slot_extra ::
  "state_store \<Rightarrow> position_id \<Rightarrow> u16 \<Rightarrow> (position_extra_repr, protocol_error) result" where
  "store_slot_extra st pos slot = read_cell m_slot_extra st pos slot"

definition store_extra ::
  "state_store \<Rightarrow> position_id \<Rightarrow> (position_extra_repr, protocol_error) result" where
  "store_extra st pos = ok_or (get (st_extra st) (unat pos)) (UnknownPosition pos)"

definition set_extra ::
  "state_store \<Rightarrow> position_id \<Rightarrow> position_extra_repr \<Rightarrow>
   (unit, protocol_error) result \<times> state_store" where
  "set_extra st pos extra =
     try_opt (get (st_extra st) (unat pos)) (UnknownPosition pos) st (\<lambda>prev.
       (Ok (),
        st\<lparr>st_undo := ring_push_extra (st_undo st) pos prev,
           st_extra := (st_extra st)[unat pos := extra],
           st_writes := st_writes st + 1\<rparr>))"

definition set_slot_extra ::
  "state_store \<Rightarrow> position_id \<Rightarrow> u16 \<Rightarrow> position_extra_repr \<Rightarrow>
   (unit, protocol_error) result \<times> state_store" where
  "set_slot_extra st pos slot extra =
     try_opt (pt_entry (st_positions st) (unat pos)) (UnknownPosition pos) st (\<lambda>entry.
       let market = pk_market (pe_key entry); local = pe_local entry;
           at = \<lparr>ms_market = market, ms_slot = slot\<rparr> in
     try_opt (market_idx (st_market_index st) market) (UnknownMarket market) st (\<lambda>mi.
     try_opt (get (st_markets st) mi) (UnknownMarket market) st (\<lambda>m.
       if unat slot \<ge> length (m_rows m) then (Err (SlotOutOfRange at), st)
       else
     try_opt (market_cell m local slot) (SlotOutOfRange at) st (\<lambda>ci.
     try_opt (get (m_slot_extra m) ci) (SlotOutOfRange at) st (\<lambda>prev.
       (Ok (),
        st\<lparr>st_undo := ring_push_slot_extra (st_undo st) pos slot prev,
           st_markets := (st_markets st)[mi := m\<lparr>m_slot_extra := (m_slot_extra m)[ci := extra]\<rparr>],
           st_writes := st_writes st + 1\<rparr>))))))"

definition positions_len :: "state_store \<Rightarrow> u32" where
  "positions_len st =
     (case try_from_usize (pt_len (st_positions st)) of None \<Rightarrow> - 1 | Some n \<Rightarrow> n)"

definition store_position_key ::
  "state_store \<Rightarrow> position_id \<Rightarrow> (position_key, protocol_error) result" where
  "store_position_key st pos =
     ok_or (map_option pe_key (pt_entry (st_positions st) (unat pos))) (UnknownPosition pos)"

definition store_market_row ::
  "state_store \<Rightarrow> market_slot \<Rightarrow> (market_row, protocol_error) result" where
  "store_market_row st at =
     and_then (ok_or (store_rows st (ms_market at)) (UnknownMarket (ms_market at))) (\<lambda>rows.
       ok_or (get rows (unat (ms_slot at))) (SlotOutOfRange at))"

definition store_market_rows ::
  "state_store \<Rightarrow> market_id \<Rightarrow> (market_row list, protocol_error) result" where
  "store_market_rows st market = ok_or (store_rows st market) (UnknownMarket market)"

text \<open>\<open>row_mut\<close> resolves a row: its market's index and the row.\<close>

definition row_mut :: "market list \<Rightarrow> u16 list \<Rightarrow> market_slot \<Rightarrow> (nat \<times> market \<times> market_row) option" where
  "row_mut markets index at =
     Option.bind (market_idx index (ms_market at)) (\<lambda>mi.
     Option.bind (get markets mi) (\<lambda>m.
       map_option (\<lambda>row. (mi, m, row)) (get (m_rows m) (unat (ms_slot at)))))"

definition set_row :: "state_store \<Rightarrow> nat \<Rightarrow> market \<Rightarrow> u16 \<Rightarrow> market_row \<Rightarrow> state_store" where
  "set_row st mi m slot row =
     st\<lparr>st_markets := (st_markets st)[mi := m\<lparr>m_rows := (m_rows m)[unat slot := row]\<rparr>]\<rparr>"

definition set_market ::
  "state_store \<Rightarrow> market_slot \<Rightarrow> market_row \<Rightarrow> (unit, protocol_error) result \<times> state_store" where
  "set_market st at row =
     try_opt (row_mut (st_markets st) (st_market_index st) at) (SlotOutOfRange at) st
       (\<lambda>(mi, m, prev).
         (Ok (),
          (set_row st mi m (ms_slot at) row)
            \<lparr>st_undo := ring_push_market (st_undo st) at prev, st_writes := st_writes st + 1\<rparr>))"

definition push_market ::
  "state_store \<Rightarrow> market_id \<Rightarrow> market_row \<Rightarrow> (market_slot, protocol_error) result \<times> state_store"
where
  "push_market st market row =
     (let (mi, created) = (case market_idx (st_market_index st) market of
                             Some i \<Rightarrow> (i, False)
                           | None \<Rightarrow> (length (st_markets st), True));
          id_ix = unat market in
      if created \<and> (id_ix \<ge> MAX_MARKETS \<or> mi \<ge> MAX_MARKETS) then (Err Internal, st)
      else
        try_opt (if created then Some 0
                 else map_option (\<lambda>m. length (m_rows m)) (get (st_markets st) mi))
          (UnknownMarket market) st (\<lambda>n.
        try_opt (try_from_usize n)
          (SlotOutOfRange \<lparr>ms_market = market, ms_slot = - 1\<rparr>) st (\<lambda>slot.
          let at = \<lparr>ms_market = market, ms_slot = slot\<rparr> in
          if slot \<ge> MAX_SLOTS then (Err (SlotOutOfRange at), st)
          else
        try_opt (usize_add n 1) Internal st (\<lambda>slots.
          if created then
            try_opt (if id_ix \<ge> length (st_market_index st) then usize_add id_ix 1
                     else Some (length (st_market_index st))) Internal st (\<lambda>len.
              let st = st\<lparr>st_market_index := resize (st_market_index st) len NO_MARKET\<rparr> in
            try_opt (try_from_usize mi) Internal st (\<lambda>mi16.
              case ensure_stride market_new slots of
                (Err _, _) \<Rightarrow> (Err Internal, st)
              | (Ok _, m) \<Rightarrow>
                  let m = m\<lparr>m_rows := m_rows m @ [row]\<rparr> in
                  try_opt (get (st_market_index st) id_ix) Internal st (\<lambda>_.
                    (Ok at,
                     st\<lparr>st_undo := ring_push (st_undo st) (UndoPushed market True),
                        st_markets := st_markets st @ [m],
                        st_market_index := (st_market_index st)[id_ix := mi16],
                        st_writes := st_writes st + 1\<rparr>))))
          else
            try_opt (get (st_markets st) mi) (UnknownMarket market) st (\<lambda>m.
              case ensure_stride m slots of
                (Err _, m) \<Rightarrow> (Err Internal, st\<lparr>st_markets := (st_markets st)[mi := m]\<rparr>)
              | (Ok _, m) \<Rightarrow>
                  (Ok at,
                   st\<lparr>st_undo := ring_push (st_undo st) (UndoPushed market False),
                      st_markets := (st_markets st)[mi := m\<lparr>m_rows := m_rows m @ [row]\<rparr>],
                      st_writes := st_writes st + 1\<rparr>))))))"

section \<open>Unwinding\<close>

definition restore_cell ::
  "col \<Rightarrow> position_id \<Rightarrow> u16 \<Rightarrow> bool \<Rightarrow> u128 \<Rightarrow> state_store \<Rightarrow>
   (unit, state_error) result \<times> state_store" where
  "restore_cell c pos slot prev_set prev st =
     try_opt (pt_entry (st_positions st) (unat pos)) Inconsistent st (\<lambda>entry.
     try_opt (market_idx (st_market_index st) (pk_market (pe_key entry))) Inconsistent st (\<lambda>mi.
     try_opt (get (st_markets st) mi) Inconsistent st (\<lambda>m.
     try_opt (market_cell m (pe_local entry) slot) Inconsistent st (\<lambda>ci.
     try_opt (get (col_get c m) ci) Inconsistent st (\<lambda>_.
       let st = st\<lparr>st_markets := (st_markets st)[mi := col_set c ((col_get c m)[ci := prev]) m]\<rparr> in
     try_opt (get (st_config st) (unat pos)) Inconsistent st (\<lambda>config.
     try_opt (if prev_set then mask_with config slot else Some (mask_without config slot))
       Inconsistent st (\<lambda>config.
       (Ok (), st\<lparr>st_config := (st_config st)[unat pos := config]\<rparr>))))))))"

definition restore_slot_extra ::
  "position_id \<Rightarrow> u16 \<Rightarrow> position_extra_repr \<Rightarrow> state_store \<Rightarrow>
   (unit, state_error) result \<times> state_store" where
  "restore_slot_extra pos slot prev st =
     try_opt (pt_entry (st_positions st) (unat pos)) Inconsistent st (\<lambda>entry.
     try_opt (market_idx (st_market_index st) (pk_market (pe_key entry))) Inconsistent st (\<lambda>mi.
     try_opt (get (st_markets st) mi) Inconsistent st (\<lambda>m.
     try_opt (market_cell m (pe_local entry) slot) Inconsistent st (\<lambda>ci.
     try_opt (get (m_slot_extra m) ci) Inconsistent st (\<lambda>_.
       (Ok (),
        st\<lparr>st_markets :=
             (st_markets st)[mi := m\<lparr>m_slot_extra := (m_slot_extra m)[ci := prev]\<rparr>]\<rparr>))))))"

definition revert_created ::
  "position_id \<Rightarrow> state_store \<Rightarrow> (unit, state_error) result \<times> state_store" where
  "revert_created pos st =
     try_opt (usize_sub (pt_len (st_positions st)) 1) Inconsistent st (\<lambda>last.
       if last \<noteq> unat pos then (Err Inconsistent, st)
       else
     try_opt (pt_pop (st_positions st)) Inconsistent st (\<lambda>(entry, table).
       let st = st\<lparr>st_positions := table, st_config := butlast (st_config st),
                   st_extra := butlast (st_extra st)\<rparr> in
     try_opt (market_idx (st_market_index st) (pk_market (pe_key entry))) Inconsistent st (\<lambda>mi.
     try_opt (get (st_markets st) mi) Inconsistent st (\<lambda>m.
     try_opt (checked_sub (m_n_pos m) 1) Inconsistent st (\<lambda>n.
       if pe_local entry \<noteq> n then (Err Inconsistent, st)
       else
         let m = m\<lparr>m_n_pos := n\<rparr>;
             st = st\<lparr>st_markets := (st_markets st)[mi := m]\<rparr> in
     try_opt (usize_mul (unat n) (m_stride m)) Inconsistent st (\<lambda>len.
       (Ok (),
        st\<lparr>st_markets := (st_markets st)
             [mi := m\<lparr>m_supply := take len (m_supply m), m_debt := take len (m_debt m),
                      m_slot_extra := take len (m_slot_extra m)\<rparr>]\<rparr>)))))))"

definition revert_pushed ::
  "market_id \<Rightarrow> bool \<Rightarrow> state_store \<Rightarrow> (unit, state_error) result \<times> state_store" where
  "revert_pushed market created st =
     try_opt (market_idx (st_market_index st) market) Inconsistent st (\<lambda>mi.
     try_opt (usize_sub (length (st_markets st)) 1) Inconsistent st (\<lambda>last.
     try_opt (get (st_markets st) mi) Inconsistent st (\<lambda>m.
     try_opt (pop (m_rows m)) Inconsistent st (\<lambda>(_, rows).
       let m = m\<lparr>m_rows := rows\<rparr>;
           st = st\<lparr>st_markets := (st_markets st)[mi := m]\<rparr> in
       if created then
         if mi \<noteq> last \<or> m_rows m \<noteq> [] \<or> m_n_pos m \<noteq> 0 then (Err Inconsistent, st)
         else
           let st = st\<lparr>st_markets := butlast (st_markets st)\<rparr> in
           try_opt (get (st_market_index st) (unat market)) Inconsistent st (\<lambda>_.
             (Ok (), st\<lparr>st_market_index := (st_market_index st)[unat market := NO_MARKET]\<rparr>))
       else (Ok (), st)))))"

text \<open>\<open>revert\<close> threads the two side tables of the block, from which it pops, next to the store.\<close>

type_synonym revert_state = "position_extra_repr list \<times> market_row list \<times> state_store"

definition in_store ::
  "position_extra_repr list \<Rightarrow> market_row list \<Rightarrow> (unit, state_error) result \<times> state_store \<Rightarrow>
   (unit, state_error) result \<times> revert_state" where
  "in_store extras rows = (\<lambda>(r, st). (r, (extras, rows, st)))"

fun revert :: "undo_op \<Rightarrow> revert_state \<Rightarrow> (unit, state_error) result \<times> revert_state" where
  "revert (UndoSupply pos slot prev_set prev) (extras, rows, st) =
     in_store extras rows (restore_cell Supply pos slot prev_set prev st)"
| "revert (UndoDebt pos slot prev_set prev) (extras, rows, st) =
     in_store extras rows (restore_cell Debt pos slot prev_set prev st)"
| "revert (UndoExtra pos) (extras, rows, st) =
     try_opt (pop extras) Inconsistent (extras, rows, st) (\<lambda>(prev, extras).
     try_opt (get (st_extra st) (unat pos)) Inconsistent (extras, rows, st) (\<lambda>_.
       (Ok (), (extras, rows, st\<lparr>st_extra := (st_extra st)[unat pos := prev]\<rparr>))))"
| "revert (UndoSlotExtra pos slot) (extras, rows, st) =
     try_opt (pop extras) Inconsistent (extras, rows, st) (\<lambda>(prev, extras).
       in_store extras rows (restore_slot_extra pos slot prev st))"
| "revert (UndoMarket at) (extras, rows, st) =
     try_opt (pop rows) Inconsistent (extras, rows, st) (\<lambda>(prev, rows).
     try_opt (row_mut (st_markets st) (st_market_index st) at) Inconsistent (extras, rows, st)
       (\<lambda>(mi, m, _). (Ok (), (extras, rows, set_row st mi m (ms_slot at) prev))))"
| "revert (UndoCreated pos) (extras, rows, st) = in_store extras rows (revert_created pos st)"
| "revert (UndoPushed market created) (extras, rows, st) =
     in_store extras rows (revert_pushed market created st)"

fun revert_ops :: "undo_op list \<Rightarrow> revert_state \<Rightarrow> (unit, state_error) result \<times> revert_state" where
  "revert_ops [] s = (Ok (), s)"
| "revert_ops (u # us) s =
     (case revert u s of (Ok _, s) \<Rightarrow> revert_ops us s | (Err e, s) \<Rightarrow> (Err e, s))"

text \<open>The body of the loop of \<open>unwind_to\<close>: one block's record taken, applied, cleared and put back.\<close>

definition unwind_block ::
  "block_num \<Rightarrow> state_store \<Rightarrow> (unit, state_error) result \<times> state_store" where
  "unwind_block block st =
     try_opt (ring_slot_of (st_undo st) block) Inconsistent st (\<lambda>slot.
     try_opt (ring_take (st_undo st) slot) Inconsistent st (\<lambda>(rec, ring).
       case revert_ops (rev (rv_items (bu_ops rec)))
              (rv_items (bu_extras rec), rv_items (bu_rows rec), st\<lparr>st_undo := ring\<rparr>) of
         (result, (extras, rows, st)) \<Rightarrow>
           (result,
            st\<lparr>st_undo := ring_put (st_undo st) slot
                 (rec\<lparr>bu_extras := (bu_extras rec)\<lparr>rv_items := extras\<rparr>,
                      bu_rows := (bu_rows rec)\<lparr>rv_items := rows\<rparr>\<rparr>)\<rparr>)))"

function unwind_loop ::
  "block_num \<Rightarrow> block_num \<Rightarrow> state_store \<Rightarrow> (unit, state_error) result \<times> state_store" where
  "unwind_loop target block st =
     (if block > target then
        (case unwind_block block st of
           (Err e, st) \<Rightarrow> (Err e, st)
         | (Ok _, st) \<Rightarrow> unwind_loop target (saturating_sub block 1) st)
      else (Ok (), st))"
  by pat_completeness auto
termination
  by (relation "measure (\<lambda>(target, block, st). unat block)")
    (auto simp: unat_saturating_sub word_less_unat)

definition unwind_to :: "state_store \<Rightarrow> block_num \<Rightarrow> (unit, state_error) result \<times> state_store" where
  "unwind_to st target =
     (let tip = ur_tip (st_undo st); floor = ur_floor (st_undo st) in
      if target > tip then (Err (TargetAboveTip target tip), st)
      else if target < floor
      then (Err (ReorgTooDeep (saturating_sub tip target) (saturating_sub tip floor)), st)
      else
        (case unwind_loop target tip st of
           (Err e, st) \<Rightarrow> (Err e, st)
         | (Ok _, st) \<Rightarrow>
             (case ring_rewind (st_undo st) target of (r, u) \<Rightarrow> (r, st\<lparr>st_undo := u\<rparr>))))"

declare unwind_loop.simps [simp del]

end
