(* ===== verification/Store_Layout.thy ===== *)
theory Store_Layout
  imports Store
begin

text \<open>
  The strided columns of a market as a matrix of cells. \<open>market_wf\<close> is the layout invariant of
  \<^verbatim>\<open>Market\<close>; \<open>cell\<close> reads the matrix and is zero outside it. The lemmas say what each physical
  change of a column (write, row append, truncation, re-laying) does to the matrix.
\<close>

section \<open>Indices\<close>

lemma stride_index_inj:
  fixes s :: nat
  assumes "s < k" and "t < k" and "l * k + s = j * k + t"
  shows "l = j \<and> s = t"
proof -
  have "(l * k + s) div k = l" "(j * k + t) div k = j" using assms(1,2) by simp_all
  then have "l = j" using assms(3) by simp
  then show ?thesis using assms(3) by simp
qed

lemma stride_index_less:
  fixes s :: nat
  assumes "l < n" and "s < k"
  shows "l * k + s < n * k"
proof -
  have "l * k + s < (l + 1) * k" using assms(2) by simp
  also have "\<dots> \<le> n * k" using assms(1) by (intro mult_le_mono1) simp
  finally show ?thesis .
qed

section \<open>Re-laying a column\<close>

lemma nth_copy_within:
  assumes "src + w \<le> length xs" and "dst + w \<le> length xs"
  shows "length (copy_within xs src (src + w) dst) = length xs"
    and "i < length xs \<Longrightarrow> copy_within xs src (src + w) dst ! i =
           (if dst \<le> i \<and> i < dst + w then xs ! (src + (i - dst)) else xs ! i)"
proof -
  have w: "length (take w (drop src xs)) = w" "length (take dst xs) = dst" using assms by auto
  show "length (copy_within xs src (src + w) dst) = length xs"
    using assms w by (simp add: copy_within_def)
  show "copy_within xs src (src + w) dst ! i =
      (if dst \<le> i \<and> i < dst + w then xs ! (src + (i - dst)) else xs ! i)" if "i < length xs"
    using assms that by (simp add: copy_within_def nth_append w del: length_take) auto
qed

lemma nth_fill_range:
  assumes "a \<le> b" and "b \<le> length xs"
  shows "length (fill_range xs a b v) = length xs"
    and "i < length xs \<Longrightarrow> fill_range xs a b v ! i = (if a \<le> i \<and> i < b then v else xs ! i)"
  using assms by (auto simp: fill_range_def nth_append min_def)

text \<open>One pass of the loop moves row \<open>l\<close> and leaves every cell below and above it.\<close>

lemma restride_row:
  assumes "l < n" and "old \<le> new" and "length col = n * new"
    and c_def: "c = fill_range (copy_within col (l * old) (l * old + old) (l * new))
                  (l * new + old) (l * new + new) z"
  shows "length c = n * new"
    and "s < new \<Longrightarrow> c ! (l * new + s) = (if s < old then col ! (l * old + s) else z)"
    and "i < l * new \<Longrightarrow> c ! i = col ! i"
    and "l * new + new \<le> i \<Longrightarrow> i < n * new \<Longrightarrow> c ! i = col ! i"
proof -
  have top: "l * new + new \<le> n * new" using mult_le_mono1 [of "l + 1" n new] assms(1) by simp
  have "l * old + old \<le> l * new + new" using assms(2) by (simp add: add_mono)
  then have src: "l * old + old \<le> length col" and dst: "l * new + old \<le> length col"
    using top assms(2,3) by auto
  let ?m = "copy_within col (l * old) (l * old + old) (l * new)"
  have m: "length ?m = n * new"
    "\<And>i. i < n * new \<Longrightarrow> ?m ! i =
       (if l * new \<le> i \<and> i < l * new + old then col ! (l * old + (i - l * new)) else col ! i)"
    using nth_copy_within [OF src dst] assms(3) by auto
  have f: "length c = n * new"
    "\<And>i. i < n * new \<Longrightarrow> c ! i = (if l * new + old \<le> i \<and> i < l * new + new then z else ?m ! i)"
    using nth_fill_range [of "l * new + old" "l * new + new" ?m] top assms(2) m(1)
    by (auto simp: c_def)
  then show "length c = n * new" by simp
  show "c ! (l * new + s) = (if s < old then col ! (l * old + s) else z)" if "s < new"
    using that top by (auto simp: f m)
  show "c ! i = col ! i" if "i < l * new" using that top by (auto simp: f m)
  show "c ! i = col ! i" if "l * new + new \<le> i" "i < n * new" using that assms(2) by (auto simp: f m)
qed

lemma restride_loop_rows:
  assumes "k \<le> n" and "old \<le> new" and "length col = n * new" and "n * new < USIZE_LIMIT"
  shows "\<exists>c. restride_loop k old new (n * new) z col = (Ok (), c) \<and> length c = n * new \<and>
    (\<forall>l s. l < k \<longrightarrow> s < new \<longrightarrow> c ! (l * new + s) = (if s < old then col ! (l * old + s) else z)) \<and>
    (\<forall>i. k * new \<le> i \<longrightarrow> i < n * new \<longrightarrow> c ! i = col ! i)"
  using assms
proof (induction k arbitrary: col)
  case 0
  then show ?case by simp
next
  case (Suc l)
  define col' where "col' = fill_range (copy_within col (l * old) (l * old + old) (l * new))
                  (l * new + old) (l * new + new) z"
  have l: "l < n" using Suc.prems(1) by simp
  note row = restride_row [OF l Suc.prems(2,3) col'_def]
  have top: "l * new + new \<le> n * new" using mult_le_mono1 [of "l + 1" n new] l by simp
  have le: "l * old \<le> l * new" using Suc.prems(2) by (rule mult_le_mono2)
  then have bounds: "l * old + old \<le> n * new" "l * new + old \<le> n * new" "l * old \<le> n * new"
    "l * new \<le> n * new" using top Suc.prems(2) by linarith+
  have run: "restride_loop (Suc l) old new (n * new) z col = restride_loop l old new (n * new) z col'"
    using top bounds Suc.prems(4)
    by (simp add: usize_mul_def usize_add_def col'_def le_less_trans [OF bounds(1)]
        le_less_trans [OF bounds(2)] le_less_trans [OF bounds(3)] le_less_trans [OF bounds(4)]
        le_less_trans [OF top] not_less del: mult_le_cancel1 mult_le_cancel2)
  obtain c where c: "restride_loop l old new (n * new) z col' = (Ok (), c)" "length c = n * new"
    "\<And>j s. j < l \<Longrightarrow> s < new \<Longrightarrow> c ! (j * new + s) = (if s < old then col' ! (j * old + s) else z)"
    "\<And>i. l * new \<le> i \<Longrightarrow> i < n * new \<Longrightarrow> c ! i = col' ! i"
    using Suc.IH [of col'] l Suc.prems(2,4) row(1) by auto
  have "c ! (j * new + s) = (if s < old then col ! (j * old + s) else z)"
    if "j < Suc l" "s < new" for j s
  proof (cases "j = l")
    case True
    then show ?thesis using that(2) top by (simp add: c(4) row(2))
  next
    case False
    then have "j * old + s < l * new" if "s < old"
      using less_le_trans [OF stride_index_less [of j l s old] le] that \<open>j < Suc l\<close> by simp
    then show ?thesis using False that by (simp add: c(3) row(3))
  qed
  moreover have "c ! i = col ! i" if "Suc l * new \<le> i" "i < n * new" for i
    using that by (simp add: c(4) row(4))
  ultimately show ?case using run c(1,2) by auto
qed

lemma restride_rows:
  assumes "old \<le> new" and "length col = n * old" and "n * new < USIZE_LIMIT"
  obtains c where "restride col n old new z = (Ok (), c)" "length c = n * new"
    "\<And>l s. l < n \<Longrightarrow> s < new \<Longrightarrow> c ! (l * new + s) = (if s < old then col ! (l * old + s) else z)"
proof -
  have le: "n * old \<le> n * new" using assms(1) by (rule mult_le_mono2)
  let ?col = "resize col (n * new) z"
  obtain c where c: "restride_loop n old new (n * new) z ?col = (Ok (), c)" "length c = n * new"
    "\<And>l s. l < n \<Longrightarrow> s < new \<Longrightarrow> c ! (l * new + s) = (if s < old then ?col ! (l * old + s) else z)"
    using restride_loop_rows [of n n old new ?col z] assms(1,3) by (auto simp: length_resize)
  have "?col ! (l * old + s) = col ! (l * old + s)" if "l < n" "s < old" for l s
    using less_le_trans [OF stride_index_less [OF that] le] stride_index_less [OF that] assms(2)
    by (subst nth_resize) simp_all
  with c show ?thesis using assms(3) by (intro that [of c]) (auto simp: restride_def usize_mul_def)
qed


section \<open>The matrix of a column\<close>

text \<open>
  A column of \<open>n\<close> rows at stride \<open>k\<close> of which the first \<open>r\<close> cells are in use: \<open>col_wf\<close> is its
  layout, with the unused cells zero, and \<open>cell\<close> its contents.
\<close>

definition col_wf :: "'a \<Rightarrow> nat \<Rightarrow> nat \<Rightarrow> nat \<Rightarrow> 'a list \<Rightarrow> bool" where
  "col_wf z n k r xs \<longleftrightarrow>
     length xs = n * k \<and> (\<forall>l s. l < n \<longrightarrow> r \<le> s \<longrightarrow> s < k \<longrightarrow> xs ! (l * k + s) = z)"

definition cell :: "'a \<Rightarrow> nat \<Rightarrow> nat \<Rightarrow> nat \<Rightarrow> 'a list \<Rightarrow> nat \<Rightarrow> nat \<Rightarrow> 'a" where
  "cell z n k r xs l s = (if l < n \<and> s < r then xs ! (l * k + s) else z)"

lemma col_wf_bound: "col_wf z n k r xs \<Longrightarrow> l < n \<Longrightarrow> s < r \<Longrightarrow> r \<le> k \<Longrightarrow> l * k + s < length xs"
  using stride_index_less [of l n s k] by (simp add: col_wf_def)

lemma col_wf_empty: "col_wf z 0 k r []"
  by (simp add: col_wf_def)

lemma col_update:
  assumes "col_wf z n k r xs" and "l < n" and "s < r" and "r \<le> k"
  shows "col_wf z n k r (xs[l * k + s := v])"
    and "cell z n k r (xs[l * k + s := v]) j t = (if j = l \<and> t = s then v else cell z n k r xs j t)"
proof -
  have b: "l * k + s < length xs" by (rule col_wf_bound [OF assms])
  have other: "xs[l * k + s := v] ! (j * k + t) = xs ! (j * k + t)"
    if "t < k" "\<not> (j = l \<and> t = s)" for j t
  proof -
    have "s < k" using assms(3,4) by simp
    then have "l * k + s \<noteq> j * k + t" using stride_index_inj [of s k t l j] that by blast
    then show ?thesis by simp
  qed
  have "xs[l * k + s := v] ! (j * k + t) = z" if "j < n" "r \<le> t" "t < k" for j t
    using other [of t j] that assms(1,3) by (auto simp: col_wf_def)
  then show "col_wf z n k r (xs[l * k + s := v])"
    using assms(1) by (simp add: col_wf_def)
  show "cell z n k r (xs[l * k + s := v]) j t = (if j = l \<and> t = s then v else cell z n k r xs j t)"
  proof (cases "j = l \<and> t = s")
    case True
    then show ?thesis using assms(2,3) b by (simp add: cell_def)
  next
    case False
    then have "cell z n k r (xs[l * k + s := v]) j t = cell z n k r xs j t"
      using other [of t j] assms(4) by (auto simp: cell_def)
    then show ?thesis using False by (simp only: if_False)
  qed
qed

lemma col_grow:
  assumes "col_wf z n k r xs" and "r \<le> k"
  shows "col_wf z (Suc n) k r (resize xs (length xs + k) z)"
    and "cell z (Suc n) k r (resize xs (length xs + k) z) = cell z n k r xs"
proof -
  have len: "length xs = n * k" using assms(1) by (simp add: col_wf_def)
  have nth: "resize xs (length xs + k) z ! (l * k + s) = (if l < n then xs ! (l * k + s) else z)"
    if "l < Suc n" "s < k" for l s
    using stride_index_less [OF that] stride_index_less [of l n s k] that len
    by (cases "l = n") (auto simp: nth_resize)
  show "col_wf z (Suc n) k r (resize xs (length xs + k) z)"
    using assms(1) nth by (auto simp: col_wf_def)
  show "cell z (Suc n) k r (resize xs (length xs + k) z) = cell z n k r xs"
    using assms(2) nth by (intro ext) (auto simp: cell_def)
qed

lemma col_truncate:
  assumes "col_wf z (Suc n) k r xs" and "r \<le> k" and "\<And>s. cell z (Suc n) k r xs n s = z"
  shows "col_wf z n k r (take (n * k) xs)"
    and "cell z n k r (take (n * k) xs) = cell z (Suc n) k r xs"
proof -
  have nth: "take (n * k) xs ! (l * k + s) = xs ! (l * k + s)" if "l < n" "s < k" for l s
    using stride_index_less [OF that] by simp
  show "col_wf z n k r (take (n * k) xs)" using assms(1) nth by (auto simp: col_wf_def)
  have last: "xs ! (n * k + s) = z" if "s < r" for s using assms(3) [of s] that by (simp add: cell_def)
  show "cell z n k r (take (n * k) xs) = cell z (Suc n) k r xs"
    using assms(2) nth last by (intro ext) (auto simp: cell_def less_Suc_eq)
qed

lemma col_push_row:
  assumes "col_wf z n k r xs" and "r < k"
  shows "col_wf z n k (Suc r) xs" and "cell z n k (Suc r) xs = cell z n k r xs"
  using assms by (auto simp: col_wf_def cell_def less_Suc_eq intro!: ext)

lemma col_pop_row:
  assumes "col_wf z n k (Suc r) xs" and "\<And>l. cell z n k (Suc r) xs l r = z"
  shows "col_wf z n k r xs" and "cell z n k r xs = cell z n k (Suc r) xs"
proof -
  have last: "xs ! (l * k + r) = z" if "l < n" for l using assms(2) [of l] that by (simp add: cell_def)
  have "xs ! (l * k + s) = z" if "l < n" "r \<le> s" "s < k" for l s
    using assms(1) last that by (cases "s = r") (auto simp: col_wf_def Suc_le_eq)
  then show "col_wf z n k r xs" using assms(1) by (simp add: col_wf_def)
  show "cell z n k r xs = cell z n k (Suc r) xs"
    using last by (intro ext) (auto simp: cell_def less_Suc_eq)
qed

lemma col_restride:
  assumes "col_wf z n k r xs" and "r \<le> k" and "k \<le> k'" and "n * k' < USIZE_LIMIT"
  obtains c where "restride xs n k k' z = (Ok (), c)" "col_wf z n k' r c"
    "cell z n k' r c = cell z n k r xs"
proof -
  have len: "length xs = n * k" using assms(1) by (simp add: col_wf_def)
  obtain c where c: "restride xs n k k' z = (Ok (), c)" "length c = n * k'"
    "\<And>l s. l < n \<Longrightarrow> s < k' \<Longrightarrow> c ! (l * k' + s) = (if s < k then xs ! (l * k + s) else z)"
    by (rule restride_rows [OF assms(3) len assms(4), of z]) blast
  have "col_wf z n k' r c" using assms(1) c(2,3) by (auto simp: col_wf_def)
  moreover have "cell z n k' r c = cell z n k r xs"
    using assms(2,3) c(3) by (intro ext) (auto simp: cell_def)
  ultimately show ?thesis by (rule that [OF c(1)])
qed

section \<open>The layout invariant of a market\<close>

definition market_wf :: "market \<Rightarrow> bool" where
  "market_wf m \<longleftrightarrow>
     (let n = unat (m_n_pos m); k = m_stride m; r = length (m_rows m)
      in r \<le> 128 \<and> r \<le> k \<and> k \<le> 128 \<and>
         col_wf 0 n k r (m_supply m) \<and> col_wf 0 n k r (m_debt m) \<and>
         col_wf extra_ZERO n k r (m_slot_extra m))"

definition bal_cell :: "col \<Rightarrow> market \<Rightarrow> nat \<Rightarrow> nat \<Rightarrow> u128" where
  "bal_cell c m = cell 0 (unat (m_n_pos m)) (m_stride m) (length (m_rows m)) (col_get c m)"

definition sx_cell :: "market \<Rightarrow> nat \<Rightarrow> nat \<Rightarrow> position_extra_repr" where
  "sx_cell m = cell extra_ZERO (unat (m_n_pos m)) (m_stride m) (length (m_rows m)) (m_slot_extra m)"

lemma market_wf_col:
  "market_wf m \<Longrightarrow> col_wf 0 (unat (m_n_pos m)) (m_stride m) (length (m_rows m)) (col_get c m)"
  by (cases c) (auto simp: market_wf_def Let_def)

lemma market_wf_new: "market_wf market_new"
  by (simp add: market_wf_def market_new_def col_wf_empty)

lemma col_set_simps [simp]:
  "m_rows (col_set c xs m) = m_rows m" "m_stride (col_set c xs m) = m_stride m"
  "m_n_pos (col_set c xs m) = m_n_pos m" "m_slot_extra (col_set c xs m) = m_slot_extra m"
  "col_get c (col_set c xs m) = xs"
  by (cases c, simp_all)+

lemma col_get_set_other: "d \<noteq> c \<Longrightarrow> col_get d (col_set c xs m) = col_get d m"
  by (cases c; cases d) simp_all

lemma market_cell_wf:
  assumes "market_wf m" and "unat slot < length (m_rows m)" and "unat loc < unat (m_n_pos m)"
  shows "market_cell m loc slot = Some (unat loc * m_stride m + unat slot)"
    and "get (col_get c m) (unat loc * m_stride m + unat slot) =
           Some (bal_cell c m (unat loc) (unat slot))"
    and "get (m_slot_extra m) (unat loc * m_stride m + unat slot) =
           Some (sx_cell m (unat loc) (unat slot))"
proof -
  have k: "m_stride m \<le> 128" "length (m_rows m) \<le> m_stride m"
    using assms(1) by (auto simp: market_wf_def Let_def)
  have "unat loc * m_stride m \<le> 2 ^ 32 * 128"
    using unat_bound [of loc] k(1) by (intro mult_le_mono) auto
  then show "market_cell m loc slot = Some (unat loc * m_stride m + unat slot)"
    using unat_bound [of slot] by (simp add: market_cell_def usize_mul_def usize_add_def USIZE_LIMIT_def)
  show "get (col_get c m) (unat loc * m_stride m + unat slot) =
      Some (bal_cell c m (unat loc) (unat slot))"
    using col_wf_bound [OF market_wf_col [OF assms(1)] assms(3,2) k(2)] assms(2,3)
    by (simp add: get_def bal_cell_def cell_def)
  have "col_wf extra_ZERO (unat (m_n_pos m)) (m_stride m) (length (m_rows m)) (m_slot_extra m)"
    using assms(1) by (simp add: market_wf_def Let_def)
  from col_wf_bound [OF this assms(3,2) k(2)]
  show "get (m_slot_extra m) (unat loc * m_stride m + unat slot) =
      Some (sx_cell m (unat loc) (unat slot))"
    using assms(2,3) by (simp add: get_def sx_cell_def cell_def)
qed

lemma next_multiple_128:
  assumes "slots \<le> 128"
  obtains new where "checked_next_multiple_of slots LINE_CELLS = Some new" "slots \<le> new" "new \<le> 128"
proof -
  have "slots = 4 * (slots div 4) + slots mod 4" "slots mod 4 < 4" by simp_all
  then have "slots + (4 - slots mod 4) \<le> 128" if "slots mod 4 \<noteq> 0"
    using assms that by (cases "slots div 4 \<le> 31") linarith+
  then show ?thesis
    using assms that
    by (cases "slots mod 4 = 0")
      (auto simp: checked_next_multiple_of_def LINE_CELLS_def usize_add_def USIZE_LIMIT_def Let_def)
qed

lemma ensure_stride_wf:
  assumes "market_wf m" and "slots \<le> 128"
  obtains m' where "ensure_stride m slots = (Ok (), m')" "market_wf m'" "slots \<le> m_stride m'"
    "m_rows m' = m_rows m" "m_n_pos m' = m_n_pos m" "\<And>c. bal_cell c m' = bal_cell c m"
    "sx_cell m' = sx_cell m"
proof (cases "slots \<le> m_stride m")
  case True
  then show ?thesis using assms(1) by (intro that [of m]) (simp_all add: ensure_stride_def)
next
  case False
  obtain new where new: "checked_next_multiple_of slots LINE_CELLS = Some new" "slots \<le> new" "new \<le> 128"
    using next_multiple_128 [OF assms(2)] .
  let ?n = "unat (m_n_pos m)" and ?k = "m_stride m" and ?r = "length (m_rows m)"
  have wf: "?r \<le> 128" "?r \<le> ?k" "col_wf 0 ?n ?k ?r (m_supply m)" "col_wf 0 ?n ?k ?r (m_debt m)"
    "col_wf extra_ZERO ?n ?k ?r (m_slot_extra m)"
    using assms(1) by (auto simp: market_wf_def Let_def)
  have "?n * new \<le> 2 ^ 32 * 128" using unat_bound [of "m_n_pos m"] new(3) by (intro mult_le_mono) auto
  then have lim: "?n * new < USIZE_LIMIT" by (simp add: USIZE_LIMIT_def)
  have kn: "?k \<le> new" using False new(2) by simp
  obtain s where s: "restride (m_supply m) ?n ?k new 0 = (Ok (), s)" "col_wf 0 ?n new ?r s"
    "cell 0 ?n new ?r s = cell 0 ?n ?k ?r (m_supply m)" by (rule col_restride [OF wf(3,2) kn lim])
  obtain d where d: "restride (m_debt m) ?n ?k new 0 = (Ok (), d)" "col_wf 0 ?n new ?r d"
    "cell 0 ?n new ?r d = cell 0 ?n ?k ?r (m_debt m)" by (rule col_restride [OF wf(4,2) kn lim])
  obtain x where x: "restride (m_slot_extra m) ?n ?k new extra_ZERO = (Ok (), x)"
    "col_wf extra_ZERO ?n new ?r x"
    "cell extra_ZERO ?n new ?r x = cell extra_ZERO ?n ?k ?r (m_slot_extra m)"
    by (rule col_restride [OF wf(5,2) kn lim])
  let ?m = "m\<lparr>m_supply := s, m_debt := d, m_slot_extra := x, m_stride := new\<rparr>"
  show ?thesis
  proof (rule that [of ?m])
    show "ensure_stride m slots = (Ok (), ?m)"
      using False new(1) s(1) d(1) x(1) by (simp add: ensure_stride_def Let_def)
    show "market_wf ?m" using wf(1,2) kn new(3) s(2) d(2) x(2) by (simp add: market_wf_def)
    show "bal_cell c ?m = bal_cell c m" for c using s(3) d(3) by (cases c) (simp_all add: bal_cell_def)
    show "sx_cell ?m = sx_cell m" using x(3) by (simp add: sx_cell_def)
  qed (use new(2) in simp_all)
qed

end
