(* ===== verification/Store_Logic.thy ===== *)
theory Store_Logic
  imports Store_Layout
begin

text \<open>
  The logical content of the store and the inverse operations on it. \<open>labs\<close> forgets what a reader
  cannot see: strides and padding, the tail of the market index, the write counter and the ring.
  \<open>lrevert\<close> is the abstract inverse of one journalled mutation; \<open>revert_sim\<close> shows that the store's
  \<^verbatim>\<open>revert\<close> implements it, and the lemmas after it that every setter journals the inverse of what
  it did.
\<close>

section \<open>Logical state\<close>

record lstate =
  l_config :: "asset_mask list"
  l_entries :: "pos_entry list"
  l_extra :: "position_extra_repr list"
  l_index :: "market_id \<Rightarrow> nat option"
  l_mk :: "(market_row list \<times> u32) list"
  l_bal :: "nat \<Rightarrow> col \<Rightarrow> nat \<Rightarrow> nat \<Rightarrow> u128"
  l_sx :: "nat \<Rightarrow> nat \<Rightarrow> nat \<Rightarrow> position_extra_repr"

definition mk_view :: "market \<Rightarrow> market_row list \<times> u32" where
  "mk_view m = (m_rows m, m_n_pos m)"

definition labs :: "state_store \<Rightarrow> lstate" where
  "labs st =
     \<lparr>l_config = st_config st, l_entries = pt_entries (st_positions st), l_extra = st_extra st,
      l_index = market_idx (st_market_index st), l_mk = map mk_view (st_markets st),
      l_bal = (\<lambda>mi. case get (st_markets st) mi of None \<Rightarrow> (\<lambda>_ _ _. 0)
                                                  | Some m \<Rightarrow> (\<lambda>c. bal_cell c m)),
      l_sx = (\<lambda>mi. case get (st_markets st) mi of None \<Rightarrow> (\<lambda>_ _. extra_ZERO)
                                                 | Some m \<Rightarrow> sx_cell m)\<rparr>"

definition phys :: "state_store \<Rightarrow> bool" where
  "phys st \<longleftrightarrow>
     pt_inv (st_positions st) \<and> (\<forall>m \<in> set (st_markets st). market_wf m) \<and> ring_inv (st_undo st)"

definition upd2 :: "('a \<Rightarrow> 'b \<Rightarrow> 'c) \<Rightarrow> 'a \<Rightarrow> 'b \<Rightarrow> 'c \<Rightarrow> 'a \<Rightarrow> 'b \<Rightarrow> 'c" where
  "upd2 f a b v = (\<lambda>x y. if x = a \<and> y = b then v else f x y)"

lemma upd2_restore [simp]: "upd2 (upd2 f a b v) a b (f a b) = f"
  by (auto simp: upd2_def intro!: ext)

lemma labs_simps [simp]:
  "l_config (labs st) = st_config st" "l_entries (labs st) = pt_entries (st_positions st)"
  "l_extra (labs st) = st_extra st" "l_index (labs st) = market_idx (st_market_index st)"
  "l_mk (labs st) = map mk_view (st_markets st)"
  by (simp_all add: labs_def)

lemma labs_frame [simp]:
  "labs (st\<lparr>st_config := cs\<rparr>) = (labs st)\<lparr>l_config := cs\<rparr>"
  "labs (st\<lparr>st_positions := t\<rparr>) = (labs st)\<lparr>l_entries := pt_entries t\<rparr>"
  "labs (st\<lparr>st_extra := es\<rparr>) = (labs st)\<lparr>l_extra := es\<rparr>"
  "labs (st\<lparr>st_market_index := ix\<rparr>) = (labs st)\<lparr>l_index := market_idx ix\<rparr>"
  "labs (st\<lparr>st_undo := r\<rparr>) = labs st" "labs (st\<lparr>st_writes := w\<rparr>) = labs st"
  by (simp_all add: labs_def)

lemma labs_cells:
  "get (st_markets st) mi = Some m \<Longrightarrow> l_bal (labs st) mi = (\<lambda>c. bal_cell c m)"
  "get (st_markets st) mi = Some m \<Longrightarrow> l_sx (labs st) mi = sx_cell m"
  by (simp_all add: labs_def)

lemma get_map: "get (map f xs) i = map_option f (get xs i)"
  by (simp add: get_def)

text \<open>Replacing one market.\<close>

lemma labs_market_update:
  assumes "mi < length (st_markets st)"
  shows "labs (st\<lparr>st_markets := (st_markets st)[mi := m]\<rparr>) =
    (labs st)\<lparr>l_mk := (map mk_view (st_markets st))[mi := mk_view m],
              l_bal := (l_bal (labs st))(mi := \<lambda>c. bal_cell c m),
              l_sx := (l_sx (labs st))(mi := sx_cell m)\<rparr>"
  using assms by (auto simp: labs_def map_update get_list_update fun_eq_iff)

lemma labs_market_keep:
  assumes "get (st_markets st) mi = Some m"
  shows "mk_view m' = mk_view m \<Longrightarrow> sx_cell m' = sx_cell m \<Longrightarrow>
      labs (st\<lparr>st_markets := (st_markets st)[mi := m']\<rparr>) =
      (labs st)\<lparr>l_bal := (l_bal (labs st))(mi := \<lambda>c. bal_cell c m')\<rparr>"
    and "mk_view m' = mk_view m \<Longrightarrow> (\<lambda>c. bal_cell c m') = (\<lambda>c. bal_cell c m) \<Longrightarrow>
      labs (st\<lparr>st_markets := (st_markets st)[mi := m']\<rparr>) =
      (labs st)\<lparr>l_sx := (l_sx (labs st))(mi := sx_cell m')\<rparr>"
    and "(\<lambda>c. bal_cell c m') = (\<lambda>c. bal_cell c m) \<Longrightarrow> sx_cell m' = sx_cell m \<Longrightarrow>
      labs (st\<lparr>st_markets := (st_markets st)[mi := m']\<rparr>) =
      (labs st)\<lparr>l_mk := (l_mk (labs st))[mi := mk_view m']\<rparr>"
proof -
  have mi: "mi < length (st_markets st)" "st_markets st ! mi = m"
    using assms by (auto simp: get_Some)
  then have "(map mk_view (st_markets st))[mi := mk_view m] = map mk_view (st_markets st)"
    by (simp add: list_update_same_conv)
  moreover have "(l_bal (labs st))(mi := \<lambda>c. bal_cell c m) = l_bal (labs st)"
    "(l_sx (labs st))(mi := sx_cell m) = l_sx (labs st)"
    using assms by (simp_all add: fun_upd_idem labs_cells)
  ultimately show "mk_view m' = mk_view m \<Longrightarrow> sx_cell m' = sx_cell m \<Longrightarrow>
      labs (st\<lparr>st_markets := (st_markets st)[mi := m']\<rparr>) =
      (labs st)\<lparr>l_bal := (l_bal (labs st))(mi := \<lambda>c. bal_cell c m')\<rparr>"
    and "mk_view m' = mk_view m \<Longrightarrow> (\<lambda>c. bal_cell c m') = (\<lambda>c. bal_cell c m) \<Longrightarrow>
      labs (st\<lparr>st_markets := (st_markets st)[mi := m']\<rparr>) =
      (labs st)\<lparr>l_sx := (l_sx (labs st))(mi := sx_cell m')\<rparr>"
    and "(\<lambda>c. bal_cell c m') = (\<lambda>c. bal_cell c m) \<Longrightarrow> sx_cell m' = sx_cell m \<Longrightarrow>
      labs (st\<lparr>st_markets := (st_markets st)[mi := m']\<rparr>) =
      (labs st)\<lparr>l_mk := (l_mk (labs st))[mi := mk_view m']\<rparr>"
    using labs_market_update [OF mi(1), of m'] by (auto intro: lstate.equality)
qed

lemma phys_market_update:
  "phys st \<Longrightarrow> market_wf m \<Longrightarrow> phys (st\<lparr>st_markets := (st_markets st)[mi := m]\<rparr>)"
  using set_update_subset_insert [of "st_markets st" mi m] by (auto simp: phys_def)

lemma phys_market: "phys st \<Longrightarrow> get (st_markets st) mi = Some m \<Longrightarrow> market_wf m"
  by (auto simp: phys_def get_Some)

section \<open>Writing one cell\<close>

lemma market_set_cell:
  assumes "market_wf m" and "l < unat (m_n_pos m)" and "s < length (m_rows m)"
    and m'_def: "m' = col_set c ((col_get c m)[l * m_stride m + s := v]) m"
  shows "market_wf m'" and "mk_view m' = mk_view m" and "sx_cell m' = sx_cell m"
    and "(\<lambda>d. bal_cell d m') = (\<lambda>d. bal_cell d m)(c := upd2 (bal_cell c m) l s v)"
proof -
  let ?n = "unat (m_n_pos m)" and ?k = "m_stride m" and ?r = "length (m_rows m)"
  have k: "?r \<le> ?k" using assms(1) by (simp add: market_wf_def Let_def)
  note upd = col_update [OF market_wf_col [OF assms(1), of c] assms(2,3) k, of v]
  show "market_wf m'"
    using assms(1) upd(1) by (cases c) (auto simp: market_wf_def m'_def Let_def)
  show "mk_view m' = mk_view m" "sx_cell m' = sx_cell m"
    by (simp_all add: m'_def mk_view_def sx_cell_def)
  show "(\<lambda>d. bal_cell d m') = (\<lambda>d. bal_cell d m)(c := upd2 (bal_cell c m) l s v)"
    by (intro ext) (auto simp: bal_cell_def m'_def upd(2) upd2_def col_get_set_other)
qed

lemma market_set_slot_extra:
  assumes "market_wf m" and "l < unat (m_n_pos m)" and "s < length (m_rows m)"
    and m'_def: "m' = m\<lparr>m_slot_extra := (m_slot_extra m)[l * m_stride m + s := v]\<rparr>"
  shows "market_wf m'" and "mk_view m' = mk_view m" and "sx_cell m' = upd2 (sx_cell m) l s v"
    and "(\<lambda>d. bal_cell d m') = (\<lambda>d. bal_cell d m)"
proof -
  let ?n = "unat (m_n_pos m)" and ?k = "m_stride m" and ?r = "length (m_rows m)"
  have k: "?r \<le> ?k" and x: "col_wf extra_ZERO ?n ?k ?r (m_slot_extra m)"
    using assms(1) by (simp_all add: market_wf_def Let_def)
  note upd = col_update [OF x assms(2,3) k, of v]
  show "market_wf m'" using assms(1) upd(1) by (simp add: market_wf_def m'_def Let_def)
  show "mk_view m' = mk_view m" by (simp add: m'_def mk_view_def)
  show "sx_cell m' = upd2 (sx_cell m) l s v"
    by (intro ext) (simp add: sx_cell_def m'_def upd(2) upd2_def)
  have "col_get d m' = col_get d m" for d by (cases d) (simp_all add: m'_def)
  then show "(\<lambda>d. bal_cell d m') = (\<lambda>d. bal_cell d m)"
    by (simp add: bal_cell_def) (simp add: m'_def)
qed

section \<open>Abstract inverses\<close>

definition lresolve :: "lstate \<Rightarrow> position_id \<Rightarrow> u16 \<Rightarrow> (nat \<times> nat) option" where
  "lresolve l pos slot =
     Option.bind (get (l_entries l) (unat pos)) (\<lambda>e.
     Option.bind (l_index l (pk_market (pe_key e))) (\<lambda>mi.
     Option.bind (get (l_mk l) mi) (\<lambda>(rows, n).
       if unat slot < length rows \<and> unat (pe_local e) < unat n
       then Some (mi, unat (pe_local e)) else None)))"

definition lset_bal :: "nat \<Rightarrow> nat \<Rightarrow> col \<Rightarrow> nat \<Rightarrow> u128 \<Rightarrow> lstate \<Rightarrow> lstate" where
  "lset_bal mi loc c s v l =
     l\<lparr>l_bal := (l_bal l)(mi := (l_bal l mi)(c := upd2 (l_bal l mi c) loc s v))\<rparr>"

definition lset_sx :: "nat \<Rightarrow> nat \<Rightarrow> nat \<Rightarrow> position_extra_repr \<Rightarrow> lstate \<Rightarrow> lstate" where
  "lset_sx mi loc s v l = l\<lparr>l_sx := (l_sx l)(mi := upd2 (l_sx l mi) loc s v)\<rparr>"

definition lrestore :: "col \<Rightarrow> position_id \<Rightarrow> u16 \<Rightarrow> bool \<Rightarrow> u128 \<Rightarrow> lstate \<Rightarrow> lstate option" where
  "lrestore c pos slot was prev l =
     Option.bind (lresolve l pos slot) (\<lambda>(mi, loc).
     Option.bind (get (l_config l) (unat pos)) (\<lambda>config.
     map_option (\<lambda>config.
         (lset_bal mi loc c (unat slot) prev l)\<lparr>l_config := (l_config l)[unat pos := config]\<rparr>)
       (if was then mask_with config slot else Some (mask_without config slot))))"

definition lrevert_created :: "position_id \<Rightarrow> lstate \<Rightarrow> lstate option" where
  "lrevert_created pos l =
     Option.bind (pop (l_entries l)) (\<lambda>(e, es).
     Option.bind (l_index l (pk_market (pe_key e))) (\<lambda>mi.
     Option.bind (get (l_mk l) mi) (\<lambda>(rows, n).
       if length es = unat pos \<and> n \<noteq> 0 \<and> pe_local e = n - 1 \<and>
          (\<forall>c s. l_bal l mi c (unat n - 1) s = 0) \<and> (\<forall>s. l_sx l mi (unat n - 1) s = extra_ZERO)
       then Some (l\<lparr>l_entries := es, l_config := butlast (l_config l),
                    l_extra := butlast (l_extra l), l_mk := (l_mk l)[mi := (rows, n - 1)]\<rparr>)
       else None)))"

definition lrevert_pushed :: "market_id \<Rightarrow> bool \<Rightarrow> lstate \<Rightarrow> lstate option" where
  "lrevert_pushed market created l =
     Option.bind (l_index l market) (\<lambda>mi.
     Option.bind (get (l_mk l) mi) (\<lambda>(rows, n).
     Option.bind (pop rows) (\<lambda>(_, rows').
       if (\<forall>c j. l_bal l mi c j (length rows') = 0) \<and> (\<forall>j. l_sx l mi j (length rows') = extra_ZERO)
       then
         if created then
           if Suc mi = length (l_mk l) \<and> rows' = [] \<and> n = 0
           then Some (l\<lparr>l_mk := butlast (l_mk l), l_index := (l_index l)(market := None)\<rparr>)
           else None
         else Some (l\<lparr>l_mk := (l_mk l)[mi := (rows', n)]\<rparr>)
       else None)))"

type_synonym lrevert_state = "position_extra_repr list \<times> market_row list \<times> lstate"

fun lrevert :: "undo_op \<Rightarrow> lrevert_state \<Rightarrow> lrevert_state option" where
  "lrevert (UndoSupply pos slot was prev) (xs, ys, l) =
     map_option (\<lambda>l. (xs, ys, l)) (lrestore Supply pos slot was prev l)"
| "lrevert (UndoDebt pos slot was prev) (xs, ys, l) =
     map_option (\<lambda>l. (xs, ys, l)) (lrestore Debt pos slot was prev l)"
| "lrevert (UndoExtra pos) (xs, ys, l) =
     Option.bind (pop xs) (\<lambda>(prev, xs).
     map_option (\<lambda>_. (xs, ys, l\<lparr>l_extra := (l_extra l)[unat pos := prev]\<rparr>))
       (get (l_extra l) (unat pos)))"
| "lrevert (UndoSlotExtra pos slot) (xs, ys, l) =
     Option.bind (pop xs) (\<lambda>(prev, xs).
     map_option (\<lambda>(mi, loc). (xs, ys, lset_sx mi loc (unat slot) prev l)) (lresolve l pos slot))"
| "lrevert (UndoMarket at) (xs, ys, l) =
     Option.bind (pop ys) (\<lambda>(prev, ys).
     Option.bind (l_index l (ms_market at)) (\<lambda>mi.
     Option.bind (get (l_mk l) mi) (\<lambda>(rows, n).
       if unat (ms_slot at) < length rows
       then Some (xs, ys, l\<lparr>l_mk := (l_mk l)[mi := (rows[unat (ms_slot at) := prev], n)]\<rparr>)
       else None)))"
| "lrevert (UndoCreated pos) (xs, ys, l) = map_option (\<lambda>l. (xs, ys, l)) (lrevert_created pos l)"
| "lrevert (UndoPushed market created) (xs, ys, l) =
     map_option (\<lambda>l. (xs, ys, l)) (lrevert_pushed market created l)"

section \<open>The store implements the inverses\<close>

lemma lresolve_Some:
  assumes "phys st" and "lresolve (labs st) pos slot = Some (mi, loc)"
  obtains e m where "pt_entry (st_positions st) (unat pos) = Some e"
    "market_idx (st_market_index st) (pk_market (pe_key e)) = Some mi"
    "get (st_markets st) mi = Some m" "loc = unat (pe_local e)" "market_wf m"
    "unat slot < length (m_rows m)" "unat (pe_local e) < unat (m_n_pos m)" "mi < length (st_markets st)"
proof -
  from assms(2) obtain e m where em: "get (pt_entries (st_positions st)) (unat pos) = Some e"
    "market_idx (st_market_index st) (pk_market (pe_key e)) = Some mi"
    "get (st_markets st) mi = Some m" "loc = unat (pe_local e)"
    "unat slot < length (m_rows m)" "unat (pe_local e) < unat (m_n_pos m)"
    by (auto simp: lresolve_def bind_eq_Some_conv get_map mk_view_def split: if_splits)
  then show ?thesis
    using phys_market [OF assms(1) em(3)] by (intro that [of e m]) (simp_all add: pt_entry_def get_Some)
qed

lemma restore_cell_sim:
  assumes "phys st" and "lrestore c pos slot was prev (labs st) = Some l'"
  shows "\<exists>st'. restore_cell c pos slot was prev st = (Ok (), st') \<and> phys st' \<and> labs st' = l' \<and>
    st_undo st' = st_undo st"
proof -
  from assms(2) obtain mi loc config config' where r: "lresolve (labs st) pos slot = Some (mi, loc)"
    "get (st_config st) (unat pos) = Some config"
    "(if was then mask_with config slot else Some (mask_without config slot)) = Some config'"
    and l': "l' = (lset_bal mi loc c (unat slot) prev (labs st))
                    \<lparr>l_config := (st_config st)[unat pos := config']\<rparr>"
    by (auto simp: lrestore_def bind_eq_Some_conv)
  obtain e m where em: "pt_entry (st_positions st) (unat pos) = Some e"
    "market_idx (st_market_index st) (pk_market (pe_key e)) = Some mi"
    "get (st_markets st) mi = Some m" "loc = unat (pe_local e)" "market_wf m"
    "unat slot < length (m_rows m)" "unat (pe_local e) < unat (m_n_pos m)" "mi < length (st_markets st)"
    by (rule lresolve_Some [OF assms(1) r(1)])
  define m' where "m' = col_set c ((col_get c m)[loc * m_stride m + unat slot := prev]) m"
  note cell = market_cell_wf [OF em(5,6,7)]
  note upd = market_set_cell [OF em(5,7,6) m'_def [unfolded em(4)]]
  let ?st = "st\<lparr>st_markets := (st_markets st)[mi := m']\<rparr>"
  have "restore_cell c pos slot was prev st =
      (Ok (), ?st\<lparr>st_config := (st_config st)[unat pos := config']\<rparr>)"
    using r(2,3) em cell by (simp add: restore_cell_def m'_def Let_def)
  moreover have "phys ?st" by (rule phys_market_update [OF assms(1) upd(1)])
  then have "phys (?st\<lparr>st_config := (st_config st)[unat pos := config']\<rparr>)" by (simp add: phys_def)
  moreover have "labs ?st = lset_bal mi loc c (unat slot) prev (labs st)"
    using em(3,4) upd(4) by (simp add: labs_market_keep(1) [OF em(3) upd(2,3)] lset_bal_def labs_cells)
  then have "labs (?st\<lparr>st_config := (st_config st)[unat pos := config']\<rparr>) = l'"
    by (simp add: l')
  ultimately show ?thesis by auto
qed

lemma restore_slot_extra_sim:
  assumes "phys st" and "lresolve (labs st) pos slot = Some (mi, loc)"
  shows "\<exists>st'. restore_slot_extra pos slot prev st = (Ok (), st') \<and> phys st' \<and>
    labs st' = lset_sx mi loc (unat slot) prev (labs st) \<and> st_undo st' = st_undo st"
proof -
  obtain e m where em: "pt_entry (st_positions st) (unat pos) = Some e"
    "market_idx (st_market_index st) (pk_market (pe_key e)) = Some mi"
    "get (st_markets st) mi = Some m" "loc = unat (pe_local e)" "market_wf m"
    "unat slot < length (m_rows m)" "unat (pe_local e) < unat (m_n_pos m)" "mi < length (st_markets st)"
    by (rule lresolve_Some [OF assms])
  define m' where "m' = m\<lparr>m_slot_extra := (m_slot_extra m)[loc * m_stride m + unat slot := prev]\<rparr>"
  note upd = market_set_slot_extra [OF em(5,7,6) m'_def [unfolded em(4)]]
  let ?st = "st\<lparr>st_markets := (st_markets st)[mi := m']\<rparr>"
  have "restore_slot_extra pos slot prev st = (Ok (), ?st)"
    using em market_cell_wf [OF em(5,6,7)] by (simp add: restore_slot_extra_def m'_def)
  moreover have "phys ?st" by (rule phys_market_update [OF assms(1) upd(1)])
  moreover have "labs ?st = lset_sx mi loc (unat slot) prev (labs st)"
    using em(3,4) upd(3) by (simp add: labs_market_keep(2) [OF em(3) upd(2,4)] lset_sx_def labs_cells)
  ultimately show ?thesis by simp
qed

subsection \<open>Rows and positions\<close>

lemma market_set_row:
  assumes "market_wf m" and m'_def: "m' = m\<lparr>m_rows := (m_rows m)[i := row]\<rparr>"
  shows "market_wf m'" and "(\<lambda>c. bal_cell c m') = (\<lambda>c. bal_cell c m)" and "sx_cell m' = sx_cell m"
    and "mk_view m' = ((m_rows m)[i := row], m_n_pos m)"
proof -
  show "market_wf m'" using assms(1) by (simp add: market_wf_def m'_def)
  have "col_get c m' = col_get c m" for c by (cases c) (simp_all add: m'_def)
  then show "(\<lambda>c. bal_cell c m') = (\<lambda>c. bal_cell c m)"
    by (simp add: bal_cell_def) (simp add: m'_def)
  show "sx_cell m' = sx_cell m" "mk_view m' = ((m_rows m)[i := row], m_n_pos m)"
    by (simp_all add: m'_def sx_cell_def mk_view_def)
qed

lemma market_truncate:
  assumes "market_wf m" and "m_n_pos m \<noteq> 0" and n: "n = m_n_pos m - 1"
    and "\<forall>c s. bal_cell c m (unat n) s = 0" and "\<forall>s. sx_cell m (unat n) s = extra_ZERO"
    and m'_def: "m' = m\<lparr>m_n_pos := n, m_supply := take (unat n * m_stride m) (m_supply m),
                        m_debt := take (unat n * m_stride m) (m_debt m),
                        m_slot_extra := take (unat n * m_stride m) (m_slot_extra m)\<rparr>"
  shows "market_wf m'" and "(\<lambda>c. bal_cell c m') = (\<lambda>c. bal_cell c m)" and "sx_cell m' = sx_cell m"
    and "mk_view m' = (m_rows m, n)"
proof -
  let ?k = "m_stride m" and ?r = "length (m_rows m)"
  have "0 < unat (m_n_pos m)" using assms(2) by (simp add: unat_gt_0)
  then have N: "unat (m_n_pos m) = Suc (unat n)"
    unfolding n by (subst unat_sub_exact) (simp_all add: word_le_unat)
  have k: "?r \<le> ?k" "?r \<le> 128" "?k \<le> 128"
    and x: "col_wf extra_ZERO (Suc (unat n)) ?k ?r (m_slot_extra m)"
    using assms(1) by (simp_all add: market_wf_def Let_def N)
  have b: "col_wf 0 (Suc (unat n)) ?k ?r (col_get c m)" for c
    using market_wf_col [OF assms(1), of c] by (simp add: N)
  have tb: "col_wf 0 (unat n) ?k ?r (take (unat n * ?k) (col_get c m))"
    "cell 0 (unat n) ?k ?r (take (unat n * ?k) (col_get c m)) = bal_cell c m" for c
    using col_truncate [OF b k(1)] assms(4) by (simp_all add: bal_cell_def N)
  have tx: "col_wf extra_ZERO (unat n) ?k ?r (take (unat n * ?k) (m_slot_extra m))"
    "cell extra_ZERO (unat n) ?k ?r (take (unat n * ?k) (m_slot_extra m)) = sx_cell m"
    using col_truncate [OF x k(1)] assms(5) by (simp_all add: sx_cell_def N)
  have col: "col_get c m' = take (unat n * ?k) (col_get c m)" for c
    by (cases c) (simp_all add: m'_def)
  show "market_wf m'"
    using k tb(1) [of Supply] tb(1) [of Debt] tx(1) by (simp add: market_wf_def m'_def)
  show "(\<lambda>c. bal_cell c m') = (\<lambda>c. bal_cell c m)"
    by (simp add: bal_cell_def [of _ m'] col) (simp add: m'_def tb(2))
  show "sx_cell m' = sx_cell m" by (simp add: sx_cell_def [of m']) (simp add: m'_def tx(2))
  show "mk_view m' = (m_rows m, n)" by (simp add: m'_def mk_view_def)
qed

lemma market_pop_row:
  assumes "market_wf m" and "m_rows m \<noteq> []"
    and "\<forall>c j. bal_cell c m j (length (m_rows m) - 1) = 0"
    and "\<forall>j. sx_cell m j (length (m_rows m) - 1) = extra_ZERO"
    and m'_def: "m' = m\<lparr>m_rows := butlast (m_rows m)\<rparr>"
  shows "market_wf m'" and "(\<lambda>c. bal_cell c m') = (\<lambda>c. bal_cell c m)" and "sx_cell m' = sx_cell m"
    and "mk_view m' = (butlast (m_rows m), m_n_pos m)"
proof -
  let ?n = "unat (m_n_pos m)" and ?k = "m_stride m"
  obtain r where R: "length (m_rows m) = Suc r" using assms(2) by (cases "m_rows m") auto
  then have len: "length (m_rows m) - Suc 0 = r" by simp
  have k: "Suc r \<le> ?k" "Suc r \<le> 128" "?k \<le> 128"
    and x: "col_wf extra_ZERO ?n ?k (Suc r) (m_slot_extra m)"
    using assms(1) unfolding market_wf_def Let_def R by simp_all
  have b: "col_wf 0 ?n ?k (Suc r) (col_get c m)" for c
    using market_wf_col [OF assms(1), of c] unfolding R .
  have pb: "col_wf 0 ?n ?k r (col_get c m)" "cell 0 ?n ?k r (col_get c m) = bal_cell c m" for c
    using col_pop_row [OF b] assms(3) len unfolding bal_cell_def R by simp_all
  have px: "col_wf extra_ZERO ?n ?k r (m_slot_extra m)"
    "cell extra_ZERO ?n ?k r (m_slot_extra m) = sx_cell m"
    using col_pop_row [OF x] assms(4) len unfolding sx_cell_def R by simp_all
  have col: "col_get c m' = col_get c m" for c by (cases c) (simp_all add: m'_def)
  show "market_wf m'"
    using k pb(1) [of Supply] pb(1) [of Debt] px(1) by (simp add: market_wf_def m'_def len)
  show "(\<lambda>c. bal_cell c m') = (\<lambda>c. bal_cell c m)"
    by (simp add: bal_cell_def [of _ m'] col) (simp add: m'_def len pb(2))
  show "sx_cell m' = sx_cell m" by (simp add: sx_cell_def [of m']) (simp add: m'_def len px(2))
  show "mk_view m' = (butlast (m_rows m), m_n_pos m)" by (simp add: m'_def mk_view_def)
qed

lemma pt_pop_inv:
  assumes "pt_inv t" and "pop (pt_entries t) = Some (e, es)"
  obtains t' where "pt_pop t = Some (e, t')" "pt_inv t'" "pt_entries t' = es"
proof -
  have es: "pt_entries t = es @ [e]" using assms(2) by (auto simp: pop_def split: if_splits)
  have fresh: "pe_key e \<notin> set (map pe_key es)"
    using positions.keys_distinct [OF assms(1)] by (simp add: es)
  have lookup: "pt_map t k = Some i \<longleftrightarrow> unat i < Suc (length es) \<and> pe_key ((es @ [e]) ! unat i) = k"
    for k i using assms(1) by (simp add: pt_inv_def es)
  define t' where "t' = t\<lparr>pt_map := (pt_map t)(pe_key e := None), pt_entries := es\<rparr>"
  have "pt_map t' k = Some i \<longleftrightarrow> unat i < length es \<and> pe_key (es ! unat i) = k" for k i
  proof (cases "k = pe_key e")
    case True
    have "pe_key (es ! unat i) \<noteq> pe_key e" if "unat i < length es"
      using fresh nth_mem [OF that] by (metis imageI list.set_map)
    then show ?thesis using True by (auto simp: t'_def)
  next
    case False
    then show ?thesis by (auto simp: t'_def lookup nth_append less_Suc_eq)
  qed
  then have "pt_inv t'" using assms(1) by (simp add: pt_inv_def es) (simp add: t'_def)
  moreover have "pt_pop t = Some (e, t')" by (simp add: pt_pop_def es t'_def pop_append)
  moreover have "pt_entries t' = es" by (simp add: t'_def)
  ultimately show ?thesis by (intro that)
qed

lemma revert_created_sim:
  assumes "phys st" and "lrevert_created pos (labs st) = Some l'"
  shows "\<exists>st'. revert_created pos st = (Ok (), st') \<and> phys st' \<and> labs st' = l' \<and>
    st_undo st' = st_undo st"
proof -
  from assms(2) obtain e es mi m where r: "pop (pt_entries (st_positions st)) = Some (e, es)"
    "market_idx (st_market_index st) (pk_market (pe_key e)) = Some mi"
    "get (st_markets st) mi = Some m" "length es = unat pos" "m_n_pos m \<noteq> 0"
    "pe_local e = m_n_pos m - 1"
    and z: "\<forall>c s. bal_cell c m (unat (m_n_pos m) - 1) s = 0"
      "\<forall>s. sx_cell m (unat (m_n_pos m) - 1) s = extra_ZERO"
    and l': "l' = (labs st)\<lparr>l_entries := es, l_config := butlast (st_config st),
      l_extra := butlast (st_extra st), l_mk := (map mk_view (st_markets st))[mi := (m_rows m, m_n_pos m - 1)]\<rparr>"
    by (auto simp: lrevert_created_def bind_eq_Some_conv get_map mk_view_def labs_cells split: if_splits)
  obtain t where t: "pt_pop (st_positions st) = Some (e, t)" "pt_inv t" "pt_entries t = es"
    using assms(1) by (auto simp: phys_def intro: pt_pop_inv [OF _ r(1)])
  have wf: "market_wf m" by (rule phys_market [OF assms(1) r(3)])
  define n where "n = m_n_pos m - 1"
  have "0 < unat (m_n_pos m)" using r(5) by (simp add: unat_gt_0)
  then have sub: "checked_sub (m_n_pos m) 1 = Some n" and un: "unat n = unat (m_n_pos m) - 1"
    by (simp_all add: checked_sub_def n_def word_le_unat unat_sub_exact)
  have "unat n * m_stride m \<le> 2 ^ 32 * 128"
    using wf unat_bound [of n] by (intro mult_le_mono) (auto simp: market_wf_def Let_def)
  then have mul: "usize_mul (unat n) (m_stride m) = Some (unat n * m_stride m)"
    by (simp add: usize_mul_def USIZE_LIMIT_def)
  have len: "usize_sub (pt_len (st_positions st)) 1 = Some (unat pos)"
    using r(1,4) by (auto simp: pt_len_def usize_sub_def pop_def Suc_le_eq split: if_splits)
  define m' where "m' = m\<lparr>m_n_pos := n, m_supply := take (unat n * m_stride m) (m_supply m),
                        m_debt := take (unat n * m_stride m) (m_debt m),
                        m_slot_extra := take (unat n * m_stride m) (m_slot_extra m)\<rparr>"
  note upd = market_truncate [OF wf r(5) n_def z [folded un] m'_def]
  let ?st = "st\<lparr>st_positions := t, st_config := butlast (st_config st), st_extra := butlast (st_extra st)\<rparr>"
  let ?st' = "?st\<lparr>st_markets := (st_markets ?st)[mi := m']\<rparr>"
  have "revert_created pos st = (Ok (), ?st')"
    using r len t(1) sub mul by (simp add: revert_created_def Let_def m'_def n_def)
  moreover have "phys ?st" using assms(1) t(2) by (simp add: phys_def)
  then have "phys ?st'" by (rule phys_market_update [OF _ upd(1)])
  moreover have "get (st_markets ?st) mi = Some m" using r(3) by simp
  from labs_market_keep(3) [OF this upd(2,3)] have "labs ?st' = l'"
    by (simp add: l' t(3) upd(4) n_def)
  ultimately show ?thesis by auto
qed

lemma market_idx_clear:
  "market_idx (ix[unat i := NO_MARKET]) = (market_idx ix)(i := None)"
proof
  fix j
  show "market_idx (ix[unat i := NO_MARKET]) j = ((market_idx ix)(i := None)) j"
    by (cases "j = i") (auto simp: market_idx_def get_def nth_list_update word_unat_eq_iff)
qed

lemma revert_pushed_sim:
  assumes "phys st" and "lrevert_pushed market created (labs st) = Some l'"
  shows "\<exists>st'. revert_pushed market created st = (Ok (), st') \<and> phys st' \<and> labs st' = l' \<and>
    st_undo st' = st_undo st"
proof -
  from assms(2) obtain mi m where r: "market_idx (st_market_index st) market = Some mi"
    "get (st_markets st) mi = Some m" "m_rows m \<noteq> []"
    and z: "\<forall>c j. bal_cell c m j (length (m_rows m) - 1) = 0"
      "\<forall>j. sx_cell m j (length (m_rows m) - 1) = extra_ZERO"
    and l': "if created
      then Suc mi = length (st_markets st) \<and> butlast (m_rows m) = [] \<and> m_n_pos m = 0 \<and>
        l' = (labs st)\<lparr>l_mk := butlast (map mk_view (st_markets st)),
                       l_index := (market_idx (st_market_index st))(market := None)\<rparr>
      else l' = (labs st)\<lparr>l_mk := (map mk_view (st_markets st))[mi := (butlast (m_rows m), m_n_pos m)]\<rparr>"
    by (auto simp: lrevert_pushed_def bind_eq_Some_conv get_map mk_view_def labs_cells pop_def
        split: if_splits)
  have wf: "market_wf m" by (rule phys_market [OF assms(1) r(2)])
  define m' where "m' = m\<lparr>m_rows := butlast (m_rows m)\<rparr>"
  note upd = market_pop_row [OF wf r(3) z m'_def]
  let ?st = "st\<lparr>st_markets := (st_markets st)[mi := m']\<rparr>"
  have p: "phys ?st" by (rule phys_market_update [OF assms(1) upd(1)])
  have mi: "mi < length (st_markets st)" using r(2) by (simp add: get_Some)
  then have sub: "usize_sub (length (st_markets st)) 1 = Some (length (st_markets st) - 1)"
    by (simp add: usize_sub_def)
  have rows: "pop (m_rows m) = Some (last (m_rows m), butlast (m_rows m))" using r(3) by (simp add: pop_def)
  show ?thesis
  proof (cases created)
    case False
    have "revert_pushed market created st = (Ok (), ?st)"
      using r(1,2) False sub rows by (simp add: revert_pushed_def Let_def m'_def)
    moreover have "labs ?st = l'"
      using labs_market_keep(3) [OF r(2) upd(2,3)] l' False by (simp add: upd(4))
    ultimately show ?thesis using p by auto
  next
    case True
    let ?st' = "?st\<lparr>st_markets := butlast (st_markets st),
                    st_market_index := (st_market_index st)[unat market := NO_MARKET]\<rparr>"
    have c: "Suc mi = length (st_markets st)" "butlast (m_rows m) = []" "m_n_pos m = 0"
      "l' = (labs st)\<lparr>l_mk := butlast (map mk_view (st_markets st)),
                      l_index := (market_idx (st_market_index st))(market := None)\<rparr>"
      using l' True by auto
    have last: "butlast ((st_markets st)[mi := m']) = butlast (st_markets st)"
      using c(1) by (metis butlast_list_update diff_Suc_1)
    have mi': "length (st_markets st) - Suc 0 = mi" using c(1) by simp
    obtain ix where "get (st_market_index st) (unat market) = Some ix"
      using r(1) by (auto simp: market_idx_def split: option.splits)
    then have "revert_pushed market created st = (Ok (), ?st')"
      using r(1,2) True sub rows c last mi'
      by (simp add: revert_pushed_def Let_def m'_def)
    moreover have "phys ?st'" using assms(1) by (auto simp: phys_def dest: in_set_butlastD)
    moreover have "labs ?st' = l'"
    proof -
      have "get (butlast (st_markets st)) j = (if j = mi then None else get (st_markets st) j)" for j
        using c(1) by (auto simp: get_def nth_butlast)
      moreover have "bal_cell d m = (\<lambda>_ _. 0)" "sx_cell m = (\<lambda>_ _. extra_ZERO)" for d
        using c(3) by (simp_all add: bal_cell_def sx_cell_def cell_def fun_eq_iff)
      ultimately have "labs (st\<lparr>st_markets := butlast (st_markets st)\<rparr>) =
          (labs st)\<lparr>l_mk := butlast (map mk_view (st_markets st))\<rparr>"
        using r(2) by (auto simp: labs_def map_butlast fun_eq_iff)
      then show ?thesis by (simp add: c(4) market_idx_clear)
    qed
    ultimately show ?thesis by auto
  qed
qed

lemma revert_sim:
  assumes "phys st" and "lrevert u (xs, ys, labs st) = Some (xs', ys', l')"
  shows "\<exists>st'. revert u (xs, ys, st) = (Ok (), (xs', ys', st')) \<and> phys st' \<and> labs st' = l' \<and>
    st_undo st' = st_undo st"
proof (cases u)
  case (UndoSupply pos slot was prev)
  then show ?thesis using assms restore_cell_sim [OF assms(1)] by (fastforce simp: in_store_def)
next
  case (UndoDebt pos slot was prev)
  then show ?thesis using assms restore_cell_sim [OF assms(1)] by (fastforce simp: in_store_def)
next
  case (UndoExtra pos)
  then show ?thesis
    using assms by (auto simp: bind_eq_Some_conv phys_def split: prod.splits)
next
  case (UndoSlotExtra pos slot)
  then obtain prev mi loc where "pop xs = Some (prev, xs')" "lresolve (labs st) pos slot = Some (mi, loc)"
    "ys' = ys" "l' = lset_sx mi loc (unat slot) prev (labs st)"
    using assms(2) by (auto simp: bind_eq_Some_conv)
  then show ?thesis
    using UndoSlotExtra restore_slot_extra_sim [OF assms(1), of pos slot mi loc prev]
    by (auto simp: in_store_def)
next
  case (UndoMarket at)
  then obtain prev mi m where r: "pop ys = Some (prev, ys')" "xs' = xs"
    "market_idx (st_market_index st) (ms_market at) = Some mi" "get (st_markets st) mi = Some m"
    "unat (ms_slot at) < length (m_rows m)"
    and l': "l' = (labs st)\<lparr>l_mk := (map mk_view (st_markets st))
                     [mi := ((m_rows m)[unat (ms_slot at) := prev], m_n_pos m)]\<rparr>"
    using assms(2) by (auto simp: bind_eq_Some_conv get_map mk_view_def split: if_splits)
  note upd = market_set_row [OF phys_market [OF assms(1) r(4)] refl, of "unat (ms_slot at)" prev]
  show ?thesis
    using UndoMarket r l' phys_market_update [OF assms(1) upd(1), of mi]
      labs_market_keep(3) [OF r(4) upd(2,3)]
    by (simp add: row_mut_def get_def [of "m_rows m"] set_row_def upd(4))
next
  case (UndoCreated pos)
  then show ?thesis using assms revert_created_sim [OF assms(1)] by (fastforce simp: in_store_def)
next
  case (UndoPushed market created)
  then show ?thesis using assms revert_pushed_sim [OF assms(1)] by (fastforce simp: in_store_def)
qed

end
