(* ===== verification/Store_Journal.thy ===== *)
theory Store_Journal
  imports Store_Logic
begin

text \<open>
  The invariant of the store and what every setter does to it. \<open>linv\<close> holds of the logical
  content: ids resolve, no two positions share their cells, and a position's mask has a bit set
  exactly for the slots with a nonzero balance. Every setter either succeeds, keeps the invariant
  and journals one inverse that leads back (\<open>journaled\<close>), or fails and changes nothing a reader
  can see (\<open>quiet\<close>).
\<close>

section \<open>The invariant\<close>

definition entry_cell :: "pos_entry \<Rightarrow> market_id \<times> u32" where
  "entry_cell e = (pk_market (pe_key e), pe_local e)"

definition mask_exact :: "lstate \<Rightarrow> bool" where
  "mask_exact l \<longleftrightarrow>
     (\<forall>i e mi s. get (l_entries l) i = Some e \<longrightarrow> l_index l (pk_market (pe_key e)) = Some mi \<longrightarrow>
        (bit (l_config l ! i) s \<longleftrightarrow> (\<exists>c. l_bal l mi c (unat (pe_local e)) s \<noteq> 0)))"

definition linv :: "lstate \<Rightarrow> bool" where
  "linv l \<longleftrightarrow>
     length (l_config l) = length (l_entries l) \<and> length (l_extra l) = length (l_entries l) \<and>
     length (l_mk l) \<le> 65535 \<and>
     (\<forall>i mi. l_index l i = Some mi \<longrightarrow> mi < length (l_mk l)) \<and>
     (\<forall>i j mi. l_index l i = Some mi \<longrightarrow> l_index l j = Some mi \<longrightarrow> i = j) \<and>
     (\<forall>e \<in> set (l_entries l). \<exists>mi rows n. l_index l (pk_market (pe_key e)) = Some mi \<and>
        get (l_mk l) mi = Some (rows, n) \<and> unat (pe_local e) < unat n) \<and>
     distinct (map entry_cell (l_entries l)) \<and> mask_exact l"

definition store_inv :: "state_store \<Rightarrow> bool" where
  "store_inv st \<longleftrightarrow> phys st \<and> linv (labs st)"

definition journaled :: "state_store \<Rightarrow> state_store \<Rightarrow> bool" where
  "journaled st st' \<longleftrightarrow> store_inv st' \<and>
     (\<exists>u es rs. ring_extends u es rs (st_undo st) (st_undo st') \<and>
        (\<forall>xs ys. lrevert u (xs @ es, ys @ rs, labs st') = Some (xs, ys, labs st)))"

definition quiet :: "state_store \<Rightarrow> state_store \<Rightarrow> bool" where
  "quiet st st' \<longleftrightarrow> phys st' \<and> labs st' = labs st \<and> st_undo st' = st_undo st"

lemma linvD:
  assumes "linv l"
  shows linv_lens: "length (l_config l) = length (l_entries l)"
      "length (l_extra l) = length (l_entries l)" "length (l_mk l) \<le> 65535"
    and linv_range: "l_index l i = Some mi \<Longrightarrow> mi < length (l_mk l)"
    and linv_inj: "l_index l i = Some mi \<Longrightarrow> l_index l j = Some mi \<Longrightarrow> i = j"
    and linv_entry: "e \<in> set (l_entries l) \<Longrightarrow>
      \<exists>mi rows n. l_index l (pk_market (pe_key e)) = Some mi \<and>
        get (l_mk l) mi = Some (rows, n) \<and> unat (pe_local e) < unat n"
    and linv_cells: "distinct (map entry_cell (l_entries l))"
    and linv_mask: "mask_exact l"
  using assms unfolding linv_def by blast+

lemma mask_exactD:
  "mask_exact l \<Longrightarrow> get (l_entries l) i = Some e \<Longrightarrow> l_index l (pk_market (pe_key e)) = Some mi \<Longrightarrow>
   bit (l_config l ! i) s \<longleftrightarrow> (\<exists>c. l_bal l mi c (unat (pe_local e)) s \<noteq> 0)"
  unfolding mask_exact_def by blast

lemma labs_undo_under [simp]:
  "labs (st\<lparr>st_undo := r, st_markets := ms\<rparr>) = labs (st\<lparr>st_markets := ms\<rparr>)"
  by (simp add: labs_def)

lemma journaledI:
  assumes "phys st'" and "linv (labs st')" and "ring_extends u es rs (st_undo st) (st_undo st')"
    and "\<And>xs ys. lrevert u (xs @ es, ys @ rs, labs st') = Some (xs, ys, labs st)"
  shows "journaled st st'"
  using assms unfolding journaled_def store_inv_def by blast

lemma quiet_inv: "quiet st st' \<Longrightarrow> store_inv st \<Longrightarrow> store_inv st'"
  by (simp add: quiet_def store_inv_def)

lemma quiet_refl: "store_inv st \<Longrightarrow> quiet st st"
  by (simp add: quiet_def store_inv_def)

lemma store_inv_new: "store_inv (store_new cfg)"
proof -
  have "market_idx [] = (\<lambda>_. None)" by (simp add: market_idx_def get_def fun_eq_iff)
  then show ?thesis
    by (simp add: store_inv_def phys_def store_new_def linv_def mask_exact_def pt_inv_new
        ring_inv_new position_table_new_def get_def)
      (simp add: pt_inv_def)
qed

lemma linv_resolve:
  assumes "linv l" and "get (l_entries l) (unat pos) = Some e"
    and "l_index l (pk_market (pe_key e)) = Some mi" and "get (l_mk l) mi = Some (rows, n)"
    and "unat slot < length rows"
  shows "lresolve l pos slot = Some (mi, unat (pe_local e))" and "unat (pe_local e) < unat n"
proof -
  have "e \<in> set (l_entries l)" using assms(2) by (auto simp: get_Some)
  then show "unat (pe_local e) < unat n" using linv_entry [OF assms(1)] assms(3,4) by fastforce
  then show "lresolve l pos slot = Some (mi, unat (pe_local e))"
    using assms(2-5) by (simp add: lresolve_def)
qed

text \<open>Two positions never share a cell.\<close>

lemma linv_cells_apart:
  assumes "linv l" and "get (l_entries l) i = Some e" and "get (l_entries l) j = Some f" and "i \<noteq> j"
    and "l_index l (pk_market (pe_key e)) = Some mi" and "l_index l (pk_market (pe_key f)) = Some mi"
  shows "unat (pe_local e) \<noteq> unat (pe_local f)"
proof -
  have "pk_market (pe_key e) = pk_market (pe_key f)" by (rule linv_inj [OF assms(1,5,6)])
  moreover have "entry_cell e \<noteq> entry_cell f"
    using linv_cells [OF assms(1)] assms(2-4) by (auto simp: get_Some distinct_conv_nth)
  ultimately show ?thesis by (auto simp: entry_cell_def word_unat_eq_iff)
qed

section \<open>Balances\<close>

lemma linv_set_bal:
  assumes "linv l" and "get (l_entries l) (unat pos) = Some e"
    and "l_index l (pk_market (pe_key e)) = Some mi"
    and bits: "\<And>s. bit config' s \<longleftrightarrow>
      (if s = slot then v \<noteq> 0 \<or> l_bal l mi (col_other c) (unat (pe_local e)) slot \<noteq> 0
       else bit (l_config l ! unat pos) s)"
  shows "linv ((lset_bal mi (unat (pe_local e)) c slot v l)\<lparr>l_config := (l_config l)[unat pos := config']\<rparr>)"
proof -
  let ?l = "(lset_bal mi (unat (pe_local e)) c slot v l)\<lparr>l_config := (l_config l)[unat pos := config']\<rparr>"
  have len: "unat pos < length (l_config l)" using linv_lens(1) [OF assms(1)] assms(2) by (simp add: get_Some)
  have same: "l_entries ?l = l_entries l" "l_index ?l = l_index l" "l_mk ?l = l_mk l"
    "l_extra ?l = l_extra l" by (simp_all add: lset_bal_def)
  have bal: "l_bal (lset_bal mi (unat (pe_local e)) c slot v l) mj d j s =
      (if mj = mi \<and> d = c \<and> j = unat (pe_local e) \<and> s = slot then v else l_bal l mj d j s)" for mj d j s
    by (simp add: lset_bal_def upd2_def)
  have old: "bit (l_config l ! i) s \<longleftrightarrow> (\<exists>d. l_bal l mj d (unat (pe_local f)) s \<noteq> 0)"
    if "get (l_entries l) i = Some f" "l_index l (pk_market (pe_key f)) = Some mj" for i f mj s
    by (rule mask_exactD [OF linv_mask [OF assms(1)] that])
  have ex: "(\<exists>d. P d) \<longleftrightarrow> P c \<or> P (col_other c)" for P :: "col \<Rightarrow> bool"
    by (cases c) (metis col.exhaust col_other.simps)+
  have oc: "col_other c \<noteq> c" by (cases c) simp_all
  have "bit (l_config ?l ! i) s \<longleftrightarrow> (\<exists>d. l_bal ?l mj d (unat (pe_local f)) s \<noteq> 0)"
    if f: "get (l_entries l) i = Some f" "l_index l (pk_market (pe_key f)) = Some mj" for i f mj s
  proof (cases "i = unat pos")
    case True
    then have "f = e" "mj = mi" using f assms(2,3) by simp_all
    then show ?thesis
      using True len old [OF f, of s] bits [of s] oc
      by (simp add: bal ex)
  next
    case False
    then have "\<not> (mj = mi \<and> unat (pe_local f) = unat (pe_local e))"
      using linv_cells_apart [OF assms(1) f(1) assms(2) False] f(2) assms(3) by auto
    then show ?thesis using False old [OF f, of s] by (auto simp: bal)
  qed
  then have "mask_exact ?l" unfolding mask_exact_def same by blast
  then show ?thesis using assms(1) unfolding linv_def same by simp
qed

text \<open>What a successful write of a balance does, on the content and on the ring.\<close>

lemma set_column_labs:
  assumes "store_inv st" and "set_column c pos slot v st = (Ok (), st')"
  shows "\<exists>e mi config config'. phys st' \<and> unat slot < 128 \<and>
    get (l_entries (labs st)) (unat pos) = Some e \<and>
    l_index (labs st) (pk_market (pe_key e)) = Some mi \<and>
    lresolve (labs st) pos slot = Some (mi, unat (pe_local e)) \<and>
    get (st_config st) (unat pos) = Some config \<and>
    labs st' = (lset_bal mi (unat (pe_local e)) c (unat slot) v (labs st))
                 \<lparr>l_config := (st_config st)[unat pos := config']\<rparr> \<and>
    st_undo st' = ring_push (st_undo st) (undo_column c pos slot (mask_contains config slot)
                    (l_bal (labs st) mi c (unat (pe_local e)) (unat slot))) \<and>
    (\<forall>s. bit config' s \<longleftrightarrow>
       (if s = unat slot
        then v \<noteq> 0 \<or> l_bal (labs st) mi (col_other c) (unat (pe_local e)) (unat slot) \<noteq> 0
        else bit config s))"
proof -
  have P: "phys st" and L: "linv (labs st)" using assms(1) by (simp_all add: store_inv_def)
  obtain e mi m ci config other prev config' where
    e: "pt_entry (st_positions st) (unat pos) = Some e"
    "market_idx (st_market_index st) (pk_market (pe_key e)) = Some mi"
    "get (st_markets st) mi = Some m" "unat slot < length (m_rows m)"
    "market_cell m (pe_local e) slot = Some ci" "get (st_config st) (unat pos) = Some config"
    "get (col_get (col_other c) m) ci = Some other" "get (col_get c m) ci = Some prev"
    and config': "(if v \<noteq> 0 \<or> other \<noteq> 0 then mask_with config slot
                   else Some (mask_without config slot)) = Some config'"
    and st': "st' = st\<lparr>st_undo := ring_push (st_undo st)
                         (undo_column c pos slot (mask_contains config slot) prev),
                      st_markets := (st_markets st)[mi := col_set c ((col_get c m)[ci := v]) m],
                      st_config := (st_config st)[unat pos := config'],
                      st_writes := st_writes st + 1\<rparr>"
    using assms(2) by (auto simp: set_column_def early_Ok Let_def)
  let ?loc = "unat (pe_local e)" and ?s = "unat slot"
  have wf: "market_wf m" by (rule phys_market [OF P e(3)])
  have ent: "get (l_entries (labs st)) (unat pos) = Some e" using e(1) by (simp add: pt_entry_def)
  have mk: "get (l_mk (labs st)) mi = Some (m_rows m, m_n_pos m)" using e(3) by (simp add: get_map mk_view_def)
  have ix: "l_index (labs st) (pk_market (pe_key e)) = Some mi" using e(2) by simp
  note res = linv_resolve [OF L ent ix mk e(4)]
  note cell = market_cell_wf [OF wf e(4) res(2)]
  have ci: "ci = ?loc * m_stride m + ?s" using e(5) cell(1) by simp
  have vals: "prev = l_bal (labs st) mi c ?loc ?s" "other = l_bal (labs st) mi (col_other c) ?loc ?s"
    using e(3,7,8) cell(2) by (simp_all add: ci labs_cells)
  define m' where "m' = col_set c ((col_get c m)[?loc * m_stride m + ?s := v]) m"
  note upd = market_set_cell [OF wf res(2) e(4) m'_def]
  have labs': "labs st' = (lset_bal mi ?loc c ?s v (labs st))\<lparr>l_config := (st_config st)[unat pos := config']\<rparr>"
    using upd(4) by (simp add: st' ci m'_def [symmetric] labs_market_keep(1) [OF e(3) upd(2,3)]
        lset_bal_def labs_cells [OF e(3)])
  have bits: "bit config' s \<longleftrightarrow>
      (if s = ?s then v \<noteq> 0 \<or> l_bal (labs st) mi (col_other c) ?loc ?s \<noteq> 0
       else bit config s)" for s
    using config' e(6) by (auto simp: vals(2) [symmetric] get_Some bit_mask_with bit_mask_without
        split: if_splits)
  have "unat slot < 128" using wf e(4) by (simp add: market_wf_def Let_def)
  moreover have "phys st'"
    using ring_push_extends(1) [of "st_undo st"] P phys_market_update [OF P upd(1), of mi]
    by (simp add: st' ci m'_def phys_def ring_extends_def)
  moreover have "st_undo st' = ring_push (st_undo st) (undo_column c pos slot (mask_contains config slot)
      (l_bal (labs st) mi c ?loc ?s))" by (simp add: st' vals(1))
  ultimately show ?thesis using ent ix res(1) e(6) labs' bits by blast
qed

lemma set_column_inv:
  assumes "store_inv st" and "set_column c pos slot v st = (r, st')"
  shows "case r of Ok _ \<Rightarrow> journaled st st' | Err _ \<Rightarrow> st' = st"
proof (cases r)
  case (Err e)
  then show ?thesis
    using assms(2) by (auto simp: set_column_def early_Err Let_def)
next
  case (Ok _)
  have P: "phys st" and L: "linv (labs st)" using assms(1) by (simp_all add: store_inv_def)
  have run: "set_column c pos slot v st = (Ok (), st')" using assms(2) Ok by simp
  from set_column_labs [OF assms(1) run] obtain e mi config config' where
    e: "phys st'" "unat slot < 128" "get (l_entries (labs st)) (unat pos) = Some e"
    "l_index (labs st) (pk_market (pe_key e)) = Some mi"
    "lresolve (labs st) pos slot = Some (mi, unat (pe_local e))" "get (st_config st) (unat pos) = Some config"
    and labs': "labs st' = (lset_bal mi (unat (pe_local e)) c (unat slot) v (labs st))
                 \<lparr>l_config := (st_config st)[unat pos := config']\<rparr>"
    and undo': "st_undo st' = ring_push (st_undo st) (undo_column c pos slot (mask_contains config slot)
                    (l_bal (labs st) mi c (unat (pe_local e)) (unat slot)))"
    and bits: "\<And>s. bit config' s \<longleftrightarrow>
       (if s = unat slot
        then v \<noteq> 0 \<or> l_bal (labs st) mi (col_other c) (unat (pe_local e)) (unat slot) \<noteq> 0
        else bit config s)" by blast
  let ?prev = "l_bal (labs st) mi c (unat (pe_local e)) (unat slot)"
  let ?u = "undo_column c pos slot (mask_contains config slot) ?prev"
  have "config = l_config (labs st) ! unat pos" using e(6) by (simp add: get_Some)
  then have linv': "linv (labs st')"
    unfolding labs' using linv_set_bal [OF L e(3,4), of config' "unat slot" v c] bits by simp
  have undoes: "lrestore c pos slot (mask_contains config slot) ?prev (labs st') = Some (labs st)"
  proof -
    have "lresolve (labs st') pos slot = lresolve (labs st) pos slot"
      by (simp add: labs' lresolve_def lset_bal_def)
    moreover have "get (l_config (labs st')) (unat pos) = Some config'"
      using e(6) by (simp add: labs' get_list_update get_Some)
    moreover have "(if mask_contains config slot then mask_with config' slot
        else Some (mask_without config' slot)) = Some config"
      using bits by (intro mask_restore [OF e(2)]) simp
    moreover have "(lset_bal mi (unat (pe_local e)) c (unat slot) ?prev (labs st'))
        \<lparr>l_config := (l_config (labs st'))[unat pos := config]\<rparr> = labs st"
      using e(6) by (simp add: labs' lset_bal_def get_Some fun_upd_idem)
    ultimately show ?thesis by (simp add: lrestore_def e(5))
  qed
  have "journaled st st'"
  proof (rule journaledI [OF e(1) linv'])
    show "ring_extends ?u [] [] (st_undo st) (st_undo st')"
      using P ring_push_extends(1) by (simp add: undo' phys_def)
    show "lrevert ?u (xs @ [], ys @ [], labs st') = Some (xs, ys, labs st)" for xs ys
      using undoes by (cases c) (simp_all add: undo_column_def)
  qed
  then show ?thesis using Ok by simp
qed

section \<open>Extras\<close>

lemma linv_set_sx: "linv l \<Longrightarrow> linv (lset_sx mi loc s v l)"
  by (simp add: linv_def mask_exact_def lset_sx_def)

lemma set_extra_inv:
  assumes "store_inv st" and "set_extra st pos x = (r, st')"
  shows "case r of Ok _ \<Rightarrow> journaled st st' | Err _ \<Rightarrow> st' = st"
proof (cases r)
  case (Err e)
  then show ?thesis using assms(2) by (auto simp: set_extra_def early_Err)
next
  case (Ok _)
  have P: "phys st" and L: "linv (labs st)" using assms(1) by (simp_all add: store_inv_def)
  obtain prev where prev: "get (st_extra st) (unat pos) = Some prev"
    and st': "st' = st\<lparr>st_undo := ring_push_extra (st_undo st) pos prev,
                      st_extra := (st_extra st)[unat pos := x], st_writes := st_writes st + 1\<rparr>"
    using assms(2) Ok by (auto simp: set_extra_def early_Ok)
  have "ring_inv (st_undo st)" using P by (simp add: phys_def)
  note ext = ring_push_extends(2) [OF this, of pos prev]
  have "journaled st st'"
  proof (rule journaledI)
    show "phys st'" using P ext by (simp add: st' phys_def ring_extends_def)
    show "linv (labs st')" using L by (simp add: st' linv_def mask_exact_def)
    show "ring_extends (UndoExtra pos) [prev] [] (st_undo st) (st_undo st')" using ext by (simp add: st')
    show "lrevert (UndoExtra pos) (xs @ [prev], ys @ [], labs st') = Some (xs, ys, labs st)" for xs ys
      using prev by (simp add: st' pop_append get_list_update get_Some)
  qed
  then show ?thesis using Ok by simp
qed

lemma set_slot_extra_inv:
  assumes "store_inv st" and "set_slot_extra st pos slot x = (r, st')"
  shows "case r of Ok _ \<Rightarrow> journaled st st' | Err _ \<Rightarrow> st' = st"
proof (cases r)
  case (Err e)
  then show ?thesis using assms(2) by (auto simp: set_slot_extra_def early_Err Let_def)
next
  case (Ok _)
  have P: "phys st" and L: "linv (labs st)" using assms(1) by (simp_all add: store_inv_def)
  obtain e mi m ci prev where
    e: "pt_entry (st_positions st) (unat pos) = Some e"
    "market_idx (st_market_index st) (pk_market (pe_key e)) = Some mi"
    "get (st_markets st) mi = Some m" "unat slot < length (m_rows m)"
    "market_cell m (pe_local e) slot = Some ci" "get (m_slot_extra m) ci = Some prev"
    and st': "st' = st\<lparr>st_undo := ring_push_slot_extra (st_undo st) pos slot prev,
                st_markets := (st_markets st)[mi := m\<lparr>m_slot_extra := (m_slot_extra m)[ci := x]\<rparr>],
                st_writes := st_writes st + 1\<rparr>"
    using assms(2) Ok by (auto simp: set_slot_extra_def early_Ok Let_def)
  let ?loc = "unat (pe_local e)" and ?s = "unat slot"
  have wf: "market_wf m" by (rule phys_market [OF P e(3)])
  have "get (l_mk (labs st)) mi = Some (m_rows m, m_n_pos m)" using e(3) by (simp add: get_map mk_view_def)
  then have res: "lresolve (labs st) pos slot = Some (mi, ?loc)" "?loc < unat (m_n_pos m)"
    using linv_resolve [OF L _ _ _ e(4), of pos e mi "m_n_pos m"] e(1,2) by (simp_all add: pt_entry_def)
  note cell = market_cell_wf [OF wf e(4) res(2)]
  have ci: "ci = ?loc * m_stride m + ?s" using e(5) cell(1) by simp
  have prev: "prev = l_sx (labs st) mi ?loc ?s" using e(3,6) cell(3) by (simp add: ci labs_cells)
  define m' where "m' = m\<lparr>m_slot_extra := (m_slot_extra m)[?loc * m_stride m + ?s := x]\<rparr>"
  note upd = market_set_slot_extra [OF wf res(2) e(4) m'_def]
  have labs': "labs st' = lset_sx mi ?loc ?s x (labs st)"
    using upd(3) by (simp add: st' ci m'_def [symmetric] labs_market_keep(2) [OF e(3) upd(2,4)]
        lset_sx_def labs_cells [OF e(3)])
  have "ring_inv (st_undo st)" using P by (simp add: phys_def)
  note ext = ring_push_extends(3) [OF this, of pos slot prev]
  have "journaled st st'"
  proof (rule journaledI)
    show "phys st'"
      using P ext phys_market_update [OF P upd(1), of mi]
      by (simp add: st' ci m'_def phys_def ring_extends_def)
    show "linv (labs st')" using L by (simp add: labs' linv_set_sx)
    show "ring_extends (UndoSlotExtra pos slot) [prev] [] (st_undo st) (st_undo st')"
      using ext by (simp add: st')
    have "lresolve (labs st') pos slot = Some (mi, ?loc)"
      using res(1) by (simp add: labs' lresolve_def lset_sx_def)
    then show "lrevert (UndoSlotExtra pos slot) (xs @ [prev], ys @ [], labs st') = Some (xs, ys, labs st)"
      for xs ys
      by (simp add: pop_append) (simp add: labs' lset_sx_def prev fun_upd_idem)
  qed
  then show ?thesis using Ok by simp
qed

section \<open>Market rows\<close>

lemma linv_set_rows:
  assumes "linv l" and "get (l_mk l) mi = Some (rows, n)"
  shows "linv (l\<lparr>l_mk := (l_mk l)[mi := (rows', n)]\<rparr>)"
proof -
  have "\<exists>rows n. get ((l_mk l)[mi := (rows', n0)]) mj = Some (rows, n) \<and> k < unat n"
    if "get (l_mk l) mj = Some (rows'', n'')" "k < unat n''" "n0 = n" for mj rows'' n'' k n0
    using that assms(2) by (cases "mj = mi") (auto simp: get_Some)
  then show ?thesis using assms(1) unfolding linv_def mask_exact_def by fastforce
qed

lemma set_market_inv:
  assumes "store_inv st" and "set_market st at row = (r, st')"
  shows "case r of Ok _ \<Rightarrow> journaled st st' | Err _ \<Rightarrow> st' = st"
proof (cases r)
  case (Err e)
  then show ?thesis using assms(2) by (auto simp: set_market_def early_Err)
next
  case (Ok _)
  have P: "phys st" and L: "linv (labs st)" using assms(1) by (simp_all add: store_inv_def)
  obtain mi m prev where
    e: "market_idx (st_market_index st) (ms_market at) = Some mi" "get (st_markets st) mi = Some m"
    "get (m_rows m) (unat (ms_slot at)) = Some prev"
    and st': "st' = (set_row st mi m (ms_slot at) row)
                \<lparr>st_undo := ring_push_market (st_undo st) at prev, st_writes := st_writes st + 1\<rparr>"
    using assms(2) Ok by (auto simp: set_market_def early_Ok row_mut_def bind_eq_Some_conv)
  let ?s = "unat (ms_slot at)"
  note upd = market_set_row [OF phys_market [OF P e(2)] refl, of ?s row]
  have labs': "labs st' = (labs st)\<lparr>l_mk := (l_mk (labs st))[mi := ((m_rows m)[?s := row], m_n_pos m)]\<rparr>"
    using labs_market_keep(3) [OF e(2) upd(2,3)] by (simp add: st' set_row_def upd(4))
  have mk: "get (l_mk (labs st)) mi = Some (m_rows m, m_n_pos m)" using e(2) by (simp add: get_map mk_view_def)
  have "ring_inv (st_undo st)" using P by (simp add: phys_def)
  note ext = ring_push_extends(4) [OF this, of at prev]
  have "journaled st st'"
  proof (rule journaledI)
    show "phys st'"
      using ext phys_market_update [OF P upd(1), of mi]
      by (simp add: st' set_row_def phys_def ring_extends_def)
    show "linv (labs st')" unfolding labs' by (rule linv_set_rows [OF L mk])
    show "ring_extends (UndoMarket at) [] [prev] (st_undo st) (st_undo st')" using ext by (simp add: st')
    have restored: "(map mk_view (st_markets st))[mi := (m_rows m, m_n_pos m)] = map mk_view (st_markets st)"
      using mk by (simp add: get_Some list_update_same_conv)
    have "(m_rows m)[?s := prev] = m_rows m" using e(3) by (simp add: get_Some)
    then show "lrevert (UndoMarket at) (xs @ [], ys @ [prev], labs st') = Some (xs, ys, labs st)" for xs ys
      using e mk restored by (simp add: labs' pop_append get_list_update get_Some)
  qed
  then show ?thesis using Ok by simp
qed

section \<open>Interning\<close>

lemma market_grow:
  assumes "market_wf m" and "checked_add (m_n_pos m) 1 = Some n"
    and m'_def: "m' = m\<lparr>m_n_pos := n,
                        m_supply := resize (m_supply m) (length (m_supply m) + m_stride m) 0,
                        m_debt := resize (m_debt m) (length (m_supply m) + m_stride m) 0,
                        m_slot_extra := resize (m_slot_extra m) (length (m_supply m) + m_stride m)
                          extra_ZERO\<rparr>"
  shows "market_wf m'" and "(\<lambda>c. bal_cell c m') = (\<lambda>c. bal_cell c m)" and "sx_cell m' = sx_cell m"
    and "mk_view m' = (m_rows m, n)"
proof -
  let ?n = "unat (m_n_pos m)" and ?k = "m_stride m" and ?r = "length (m_rows m)"
  have N: "unat n = Suc ?n" using assms(2) by (simp add: checked_add_Some)
  have k: "?r \<le> ?k" "?r \<le> 128" "?k \<le> 128" and x: "col_wf extra_ZERO ?n ?k ?r (m_slot_extra m)"
    using assms(1) by (simp_all add: market_wf_def Let_def)
  note b = market_wf_col [OF assms(1)]
  have len: "length (col_get c m) = length (m_supply m)" "length (m_slot_extra m) = length (m_supply m)" for c
    using b [of c] b [of Supply] x by (simp_all add: col_wf_def)
  have col: "col_get c m' = resize (col_get c m) (length (col_get c m) + ?k) 0" for c
    using len(1) [of Debt] by (cases c) (simp_all add: m'_def)
  have sx: "m_slot_extra m' = resize (m_slot_extra m) (length (m_slot_extra m) + ?k) extra_ZERO"
    by (simp add: m'_def len(2))
  have frame: "m_rows m' = m_rows m" "m_stride m' = ?k" "m_n_pos m' = n" by (simp_all add: m'_def)
  note gb = col_grow [OF b k(1)] and gx = col_grow [OF x k(1)]
  show "market_wf m'"
    using k gb(1) [of Supply] gb(1) [of Debt] gx(1) col [of Supply] col [of Debt]
    by (simp add: market_wf_def frame N sx)
  show "(\<lambda>c. bal_cell c m') = (\<lambda>c. bal_cell c m)"
    by (simp add: bal_cell_def frame N col gb(2))
  show "sx_cell m' = sx_cell m" by (simp add: sx_cell_def frame N sx gx(2))
  show "mk_view m' = (m_rows m, n)" by (simp add: mk_view_def frame)
qed

lemma linv_intern:
  assumes "linv l" and "l_index l (pk_market (pe_key e)) = Some mi"
    and "get (l_mk l) mi = Some (rows, pe_local e)" and n: "unat n = Suc (unat (pe_local e))"
    and zero: "\<And>c s. l_bal l mi c (unat (pe_local e)) s = 0"
  shows "linv (l\<lparr>l_mk := (l_mk l)[mi := (rows, n)], l_entries := l_entries l @ [e],
                l_config := l_config l @ [mask_EMPTY], l_extra := l_extra l @ [x]\<rparr>)" (is "linv ?l")
proof -
  have mi: "mi < length (l_mk l)" using assms(3) by (simp add: get_Some)
  note lens = linv_lens(1,2) [OF assms(1)]
  have old: "\<exists>mj rs k. l_index l (pk_market (pe_key f)) = Some mj \<and> get (l_mk l) mj = Some (rs, k) \<and>
      unat (pe_local f) < unat k" if "f \<in> set (l_entries l)" for f
    by (rule linv_entry [OF assms(1) that])
  have "\<exists>mj rs k. l_index l (pk_market (pe_key f)) = Some mj \<and>
      get ((l_mk l)[mi := (rows, n)]) mj = Some (rs, k) \<and> unat (pe_local f) < unat k"
    if "f \<in> set (l_entries l @ [e])" for f
  proof (cases "f = e")
    case True
    then show ?thesis using assms(2) mi n by (auto simp: get_list_update)
  next
    case False
    then have "f \<in> set (l_entries l)" using that by simp
    from old [OF this] obtain mj rs k where "l_index l (pk_market (pe_key f)) = Some mj"
      "get (l_mk l) mj = Some (rs, k)" "unat (pe_local f) < unat k" by blast
    then show ?thesis using assms(3) n by (cases "mj = mi") (auto simp: get_Some)
  qed
  moreover have "entry_cell e \<notin> set (map entry_cell (l_entries l))"
  proof
    assume "entry_cell e \<in> set (map entry_cell (l_entries l))"
    then obtain f where f: "f \<in> set (l_entries l)" "entry_cell f = entry_cell e" by auto
    then show False using old [OF f(1)] assms(2,3) by (auto simp: entry_cell_def)
  qed
  moreover have "mask_exact ?l"
    unfolding mask_exact_def
  proof (intro allI impI)
    fix i f mj s
    assume "get (l_entries ?l) i = Some f" and ix: "l_index ?l (pk_market (pe_key f)) = Some mj"
    then consider "get (l_entries l) i = Some f" | "i = length (l_entries l)" "f = e"
      by (auto simp: get_def nth_append split: if_splits)
    then show "bit (l_config ?l ! i) s \<longleftrightarrow> (\<exists>c. l_bal ?l mj c (unat (pe_local f)) s \<noteq> 0)"
    proof cases
      case 1
      then show ?thesis
        using mask_exactD [OF linv_mask [OF assms(1)] 1, of mj s] ix lens by (auto simp: nth_append get_Some)
    next
      case 2
      then show ?thesis using ix assms(2) zero lens by (auto simp: nth_append mask_EMPTY_def)
    qed
  qed
  ultimately show ?thesis using assms(1) lens unfolding linv_def by simp
qed

lemma intern_inv:
  assumes "store_inv st" and "intern st key = (r, st')"
  shows "case r of
      Ok pid \<Rightarrow> pt_get (st_positions st) key = Some pid \<and> st' = st \<or>
               pt_get (st_positions st) key = None \<and> unat pid = store_len st \<and> journaled st st'
    | Err _ \<Rightarrow> st' = st"
proof (cases "pt_get (st_positions st) key")
  case (Some pid)
  then show ?thesis using assms(2) by (auto simp: intern_def)
next
  case None
  have P: "phys st" and L: "linv (labs st)" using assms(1) by (simp_all add: store_inv_def)
  show ?thesis
  proof (cases r)
    case (Err e)
    then show ?thesis using assms(2) None by (auto simp: intern_def early_Err Let_def)
  next
    case (Ok pid)
    obtain mi m n cells where
      e: "market_idx (st_market_index st) (pk_market key) = Some mi" "get (st_markets st) mi = Some m"
      "pt_next_id (st_positions st) = Some pid" "checked_add (m_n_pos m) 1 = Some n"
      "usize_add (length (m_supply m)) (m_stride m) = Some cells"
      and st': "st' = st\<lparr>st_undo := ring_push (st_undo st) (UndoCreated pid),
                st_markets := (st_markets st)
                  [mi := m\<lparr>m_n_pos := n, m_supply := resize (m_supply m) cells 0,
                           m_debt := resize (m_debt m) cells 0,
                           m_slot_extra := resize (m_slot_extra m) cells extra_ZERO\<rparr>],
                st_positions := pt_push (st_positions st) key pid (m_n_pos m),
                st_config := st_config st @ [mask_EMPTY],
                st_extra := st_extra st @ [extra_ZERO], st_writes := st_writes st + 1\<rparr>"
      using assms(2) Ok None by (auto simp: intern_def early_Ok Let_def)
    have cells: "cells = length (m_supply m) + m_stride m"
      using e(5) by (simp add: usize_add_def split: if_splits)
    have N: "unat n = Suc (unat (m_n_pos m))" using e(4) by (simp add: checked_add_Some)
    have back_n: "n - 1 = m_n_pos m" "n \<noteq> 0"
      using N e(4) by (auto simp: checked_add_def split: if_splits)
    define f where "f = \<lparr>pe_key = key, pe_local = m_n_pos m\<rparr>"
    note upd = market_grow [OF phys_market [OF P e(2)] e(4) refl]
    have pid: "unat pid = length (pt_entries (st_positions st))"
      using e(3) by (simp add: pt_next_id_def try_from_usize_Some)
    have mk: "get (l_mk (labs st)) mi = Some (m_rows m, m_n_pos m)" using e(2) by (simp add: get_map mk_view_def)
    have labs': "labs st' = (labs st)\<lparr>l_mk := (l_mk (labs st))[mi := (m_rows m, n)],
        l_entries := l_entries (labs st) @ [f], l_config := l_config (labs st) @ [mask_EMPTY],
        l_extra := l_extra (labs st) @ [extra_ZERO]\<rparr>"
      using labs_market_keep(3) [OF e(2) upd(2,3)] by (simp add: st' cells upd(4) pt_push_def f_def)
    have zero: "l_bal (labs st) mi c (unat (m_n_pos m)) s = 0" "l_sx (labs st) mi (unat (m_n_pos m)) s = extra_ZERO"
      for c s using e(2) by (simp_all add: labs_cells bal_cell_def sx_cell_def cell_def)
    have "ring_inv (st_undo st)" using P by (simp add: phys_def)
    note ext = ring_push_extends(1) [OF this, of "UndoCreated pid"]
    have "journaled st st'"
    proof (rule journaledI)
      have "pt_inv (pt_push (st_positions st) key pid (m_n_pos m))"
        using P e(3) None by (intro pt_push_inv) (simp_all add: phys_def)
      then show "phys st'"
        using ext phys_market_update [OF P upd(1), of mi] by (simp add: st' cells phys_def ring_extends_def)
      show "linv (labs st')"
        unfolding labs' using linv_intern [OF L, of f mi "m_rows m" n] e(1) mk N zero
        by (simp add: f_def)
      show "ring_extends (UndoCreated pid) [] [] (st_undo st) (st_undo st')" using ext by (simp add: st')
      have "(map mk_view (st_markets st))[mi := (m_rows m, m_n_pos m)] = map mk_view (st_markets st)"
        using mk by (simp add: get_Some list_update_same_conv)
      then have "lrevert_created pid (labs st') = Some (labs st)"
        using e(1) mk zero pid back_n N
        by (simp add: lrevert_created_def labs' f_def pop_append get_list_update get_Some)
      then show "lrevert (UndoCreated pid) (xs @ [], ys @ [], labs st') = Some (xs, ys, labs st)" for xs ys
        by simp
    qed
    then show ?thesis using Ok None pid by (simp add: store_len_def pt_len_def)
  qed
qed

section \<open>Listing reserves\<close>

lemma market_push_row:
  assumes "market_wf m" and "length (m_rows m) < m_stride m" and "length (m_rows m) < 128"
    and m'_def: "m' = m\<lparr>m_rows := m_rows m @ [row]\<rparr>"
  shows "market_wf m'" and "(\<lambda>c. bal_cell c m') = (\<lambda>c. bal_cell c m)" and "sx_cell m' = sx_cell m"
    and "mk_view m' = (m_rows m @ [row], m_n_pos m)"
proof -
  have x: "col_wf extra_ZERO (unat (m_n_pos m)) (m_stride m) (length (m_rows m)) (m_slot_extra m)"
    "m_stride m \<le> 128" using assms(1) by (simp_all add: market_wf_def Let_def)
  note pb = col_push_row [OF market_wf_col [OF assms(1)] assms(2)] and px = col_push_row [OF x(1) assms(2)]
  have col: "col_get c m' = col_get c m" for c by (cases c) (simp_all add: m'_def)
  show "market_wf m'"
    using assms(2,3) x(2) pb(1) [of Supply] pb(1) [of Debt] px(1) by (simp add: market_wf_def m'_def)
  show "(\<lambda>c. bal_cell c m') = (\<lambda>c. bal_cell c m)"
    by (simp add: bal_cell_def [of _ m'] col) (simp add: m'_def pb(2) bal_cell_def)
  show "sx_cell m' = sx_cell m" by (simp add: sx_cell_def m'_def px(2))
  show "mk_view m' = (m_rows m @ [row], m_n_pos m)" by (simp add: mk_view_def m'_def)
qed

lemma market_idx_None: "market_idx ix i = None \<longleftrightarrow> unat i < length ix \<longrightarrow> ix ! unat i = NO_MARKET"
  by (auto simp: market_idx_def get_def)

lemma market_idx_list:
  assumes "market_idx ix i = None" and "mi < 65535" and "unat i < len" and "length ix \<le> len"
  shows "market_idx ((resize ix len NO_MARKET)[unat i := of_nat mi]) = (market_idx ix)(i \<mapsto> mi)"
proof
  have mi: "unat (of_nat mi :: u16) = mi" using assms(2) by (subst unat_of_nat_small) simp_all
  have "unat NO_MARKET = 65535" by (simp add: NO_MARKET_def unat_max)
  then have "(of_nat mi :: u16) \<noteq> NO_MARKET" using mi assms(2) by (metis less_irrefl)
  fix j
  show "market_idx ((resize ix len NO_MARKET)[unat i := of_nat mi]) j = ((market_idx ix)(i \<mapsto> mi)) j"
  proof (cases "j = i")
    case True
    then show ?thesis using assms(3) mi \<open>of_nat mi \<noteq> NO_MARKET\<close> by (simp add: market_idx_def get_def)
  next
    case False
    then have "unat j \<noteq> unat i" by (simp add: word_unat_eq_iff)
    then show ?thesis
      using False assms(4) by (simp add: market_idx_def get_def nth_resize)
  qed
qed

lemma linv_new_market:
  assumes "linv l" and "l_index l market = None" and "length (l_mk l) < 65535"
  shows "linv (l\<lparr>l_mk := l_mk l @ [(rows, 0)], l_index := (l_index l)(market \<mapsto> length (l_mk l))\<rparr>)"
    (is "linv ?l")
proof -
  have r: "mi < length (l_mk l)" if "l_index l i = Some mi" for i mi
    by (rule linv_range [OF assms(1) that])
  have entry: "\<exists>mi rs n. l_index l (pk_market (pe_key e)) = Some mi \<and> get (l_mk l) mi = Some (rs, n) \<and>
      unat (pe_local e) < unat n" if "e \<in> set (l_entries l)" for e
    by (rule linv_entry [OF assms(1) that])
  then have listed: "l_index ?l (pk_market (pe_key e)) = l_index l (pk_market (pe_key e))"
    if "e \<in> set (l_entries l)" for e
    using assms(2) that by fastforce
  have "\<exists>mi rs n. l_index ?l (pk_market (pe_key e)) = Some mi \<and> get (l_mk ?l) mi = Some (rs, n) \<and>
      unat (pe_local e) < unat n" if e: "e \<in> set (l_entries l)" for e
  proof -
    obtain mi rs n where mi: "l_index l (pk_market (pe_key e)) = Some mi"
      "get (l_mk l) mi = Some (rs, n)" "unat (pe_local e) < unat n" using entry [OF e] by blast
    then have "get (l_mk ?l) mi = Some (rs, n)" using r [OF mi(1)] by (simp add: get_append_left)
    then show ?thesis unfolding listed [OF e] using mi by blast
  qed
  moreover have "mask_exact ?l"
    unfolding mask_exact_def
  proof (intro allI impI)
    fix i e mi s
    assume e: "get (l_entries ?l) i = Some e" and ix: "l_index ?l (pk_market (pe_key e)) = Some mi"
    then have "e \<in> set (l_entries l)" by (auto simp: get_Some)
    from ix [unfolded listed [OF this]] e
    show "bit (l_config ?l ! i) s \<longleftrightarrow> (\<exists>c. l_bal ?l mi c (unat (pe_local e)) s \<noteq> 0)"
      using mask_exactD [OF linv_mask [OF assms(1)], of i e mi s] by simp
  qed
  moreover have "i = j" if "l_index ?l i = Some mi" "l_index ?l j = Some mi" for i j mi
  proof (cases "mi = length (l_mk l)")
    case True
    then show ?thesis using that r [of i mi] r [of j mi] by (auto split: if_splits)
  next
    case False
    then have "l_index l i = Some mi" "l_index l j = Some mi" using that by (auto split: if_splits)
    then show ?thesis by (rule linv_inj [OF assms(1)])
  qed
  moreover have "mi < length (l_mk ?l)" if "l_index ?l i = Some mi" for i mi
    using that r [of i mi] by (auto split: if_splits)
  moreover note linv_lens [OF assms(1)] linv_cells [OF assms(1)]
  ultimately show ?thesis
    using assms(3) unfolding linv_def by (intro conjI allI impI ballI) (simp_all del: fun_upd_apply)
qed

lemma push_new_market:
  assumes "store_inv st" and none: "market_idx (st_market_index st) market = None"
    and "unat market < 65535" and "length (st_markets st) < 65535"
  shows "\<exists>st'. push_market st market row = (Ok \<lparr>ms_market = market, ms_slot = 0\<rparr>, st') \<and> journaled st st'"
proof -
  have P: "phys st" and L: "linv (labs st)" using assms(1) by (simp_all add: store_inv_def)
  obtain m where m: "ensure_stride market_new 1 = (Ok (), m)" "market_wf m" "1 \<le> m_stride m"
    "m_rows m = []" "m_n_pos m = 0"
    using ensure_stride_wf [OF market_wf_new, of 1] by (auto simp: market_new_def)
  define m' where "m' = m\<lparr>m_rows := m_rows m @ [row]\<rparr>"
  have upd: "market_wf m'" "mk_view m' = ([row], 0)"
    using market_push_row [OF m(2) _ _ m'_def] m(3,4,5) by (auto simp: mk_view_def)
  have cells: "bal_cell c m' = (\<lambda>_ _. 0)" "sx_cell m' = (\<lambda>_ _. extra_ZERO)" for c
    using m(5) by (simp_all add: bal_cell_def sx_cell_def cell_def m'_def fun_eq_iff)
  define len where "len = max (length (st_market_index st)) (unat market + 1)"
  define ix where "ix = (resize (st_market_index st) len NO_MARKET)[unat market := of_nat (length (st_markets st))]"
  have ix: "market_idx ix = (market_idx (st_market_index st))(market \<mapsto> length (st_markets st))"
    unfolding ix_def by (rule market_idx_list [OF none assms(4)]) (simp_all add: len_def)
  define st' where "st' = st\<lparr>st_undo := ring_push (st_undo st) (UndoPushed market True),
      st_markets := st_markets st @ [m'], st_market_index := ix, st_writes := st_writes st + 1\<rparr>"
  have lim: "MAX_MARKETS = 65535" by (simp add: MAX_MARKETS_def MARKET_ID_LIMIT_def)
  have grow: "(if length (st_market_index st) \<le> unat market then usize_add (unat market) 1
      else Some (length (st_market_index st))) = Some len"
    using assms(3) by (auto simp: len_def usize_add_def USIZE_LIMIT_def)
  have mi16: "try_from_usize (length (st_markets st)) = Some (of_nat (length (st_markets st)) :: u16)"
    using assms(4) by (simp add: try_from_usize_def)
  have run: "push_market st market row = (Ok \<lparr>ms_market = market, ms_slot = 0\<rparr>, st')"
    using none assms(3,4) m(1) grow mi16
    by (simp add: push_market_def lim try_from_usize_def [of 0] MAX_SLOTS_def usize_add_def [of 0]
        USIZE_LIMIT_def get_def len_def st'_def ix_def m'_def Let_def)
  have "labs (st\<lparr>st_markets := st_markets st @ [m']\<rparr>) = (labs st)\<lparr>l_mk := l_mk (labs st) @ [([row], 0)]\<rparr>"
    by (auto simp: labs_def upd(2) get_def nth_append cells fun_eq_iff)
  then have labs': "labs st' = (labs st)\<lparr>l_mk := l_mk (labs st) @ [([row], 0)],
      l_index := (l_index (labs st))(market \<mapsto> length (l_mk (labs st)))\<rparr>"
    by (simp add: st'_def ix)
  have zero: "l_bal (labs st) (length (st_markets st)) = (\<lambda>_ _ _. 0)"
    "l_sx (labs st) (length (st_markets st)) = (\<lambda>_ _. extra_ZERO)" by (simp_all add: labs_def get_def)
  have "ring_inv (st_undo st)" using P by (simp add: phys_def)
  note ext = ring_push_extends(1) [OF this, of "UndoPushed market True"]
  have "journaled st st'"
  proof (rule journaledI)
    show "phys st'" using P ext upd(1) by (auto simp: st'_def phys_def ring_extends_def)
    show "linv (labs st')"
      unfolding labs' using linv_new_market [OF L, of market "[row]"] none assms(4) by simp
    show "ring_extends (UndoPushed market True) [] [] (st_undo st) (st_undo st')"
      using ext by (simp add: st'_def)
    have "lrevert_pushed market True (labs st') = Some (labs st)"
      using none by (simp add: lrevert_pushed_def labs' get_def pop_def zero nth_append fun_upd_idem)
    then show "lrevert (UndoPushed market True) (xs @ [], ys @ [], labs st') = Some (xs, ys, labs st)" for xs ys
      by simp
  qed
  with run show ?thesis by blast
qed

lemma push_known_market:
  assumes "store_inv st" and ix: "market_idx (st_market_index st) market = Some mi"
    and m: "get (st_markets st) mi = Some m" and "length (m_rows m) < 128"
  shows "\<exists>st'. push_market st market row =
      (Ok \<lparr>ms_market = market, ms_slot = of_nat (length (m_rows m))\<rparr>, st') \<and> journaled st st'"
proof -
  have P: "phys st" and L: "linv (labs st)" using assms(1) by (simp_all add: store_inv_def)
  let ?n = "length (m_rows m)"
  have wf: "market_wf m" by (rule phys_market [OF P m])
  have "Suc ?n \<le> 128" using assms(4) by simp
  then obtain m1 where m1: "ensure_stride m (Suc ?n) = (Ok (), m1)" "market_wf m1" "Suc ?n \<le> m_stride m1"
    "m_rows m1 = m_rows m" "m_n_pos m1 = m_n_pos m" "\<And>c. bal_cell c m1 = bal_cell c m"
    "sx_cell m1 = sx_cell m" by (rule ensure_stride_wf [OF wf]) blast
  define m' where "m' = m1\<lparr>m_rows := m_rows m1 @ [row]\<rparr>"
  have upd: "market_wf m'" "(\<lambda>c. bal_cell c m') = (\<lambda>c. bal_cell c m)" "sx_cell m' = sx_cell m"
    "mk_view m' = (m_rows m @ [row], m_n_pos m)"
    using market_push_row [OF m1(2) _ _ m'_def] m1(3-7) assms(4) by auto
  define st' where "st' = st\<lparr>st_undo := ring_push (st_undo st) (UndoPushed market False),
      st_markets := (st_markets st)[mi := m'], st_writes := st_writes st + 1\<rparr>"
  have slot: "unat (of_nat ?n :: u16) = ?n" using assms(4) by (subst unat_of_nat_small) simp_all
  then have small: "\<not> (128 :: u16) \<le> of_nat ?n" using assms(4) by (simp add: word_le_unat)
  have run: "push_market st market row = (Ok \<lparr>ms_market = market, ms_slot = of_nat ?n\<rparr>, st')"
    using ix m m1(1) assms(4) small
    by (simp add: push_market_def try_from_usize_def MAX_SLOTS_def usize_add_def USIZE_LIMIT_def
        st'_def m'_def Let_def)
  have labs': "labs st' = (labs st)\<lparr>l_mk := (l_mk (labs st))[mi := (m_rows m @ [row], m_n_pos m)]\<rparr>"
    using labs_market_keep(3) [OF m upd(2,3)] by (simp add: st'_def upd(4))
  have mk: "get (l_mk (labs st)) mi = Some (m_rows m, m_n_pos m)" using m by (simp add: get_map mk_view_def)
  have zero: "l_bal (labs st) mi c j ?n = 0" "l_sx (labs st) mi j ?n = extra_ZERO" for c j
    using m by (simp_all add: labs_cells bal_cell_def sx_cell_def cell_def)
  have "ring_inv (st_undo st)" using P by (simp add: phys_def)
  note ext = ring_push_extends(1) [OF this, of "UndoPushed market False"]
  have "journaled st st'"
  proof (rule journaledI)
    show "phys st'"
      using ext phys_market_update [OF P upd(1), of mi] by (simp add: st'_def phys_def ring_extends_def)
    show "linv (labs st')" unfolding labs' by (rule linv_set_rows [OF L mk])
    show "ring_extends (UndoPushed market False) [] [] (st_undo st) (st_undo st')"
      using ext by (simp add: st'_def)
    have "(map mk_view (st_markets st))[mi := (m_rows m, m_n_pos m)] = map mk_view (st_markets st)"
      using mk by (simp add: get_Some list_update_same_conv)
    then have "lrevert_pushed market False (labs st') = Some (labs st)"
      using ix mk zero by (simp add: lrevert_pushed_def labs' get_list_update get_Some pop_append)
    then show "lrevert (UndoPushed market False) (xs @ [], ys @ [], labs st') = Some (xs, ys, labs st)" for xs ys
      by simp
  qed
  with run show ?thesis by blast
qed

lemma push_market_inv:
  assumes "store_inv st" and "push_market st market row = (r, st')"
  shows "case r of Ok _ \<Rightarrow> journaled st st' | Err _ \<Rightarrow> st' = st"
proof (cases "market_idx (st_market_index st) market")
  case None
  have lim: "MAX_MARKETS = 65535" by (simp add: MAX_MARKETS_def MARKET_ID_LIMIT_def)
  show ?thesis
  proof (cases "unat market < 65535 \<and> length (st_markets st) < 65535")
    case True
    then show ?thesis using push_new_market [OF assms(1) None, of row] assms(2) by auto
  next
    case False
    then have "push_market st market row = (Err Internal, st)"
      using None by (auto simp: push_market_def lim)
    then show ?thesis using assms(2) by simp
  qed
next
  case (Some mi)
  then have "mi < length (st_markets st)" using linv_range [of "labs st"] assms(1) by (auto simp: store_inv_def)
  then obtain m where m: "get (st_markets st) mi = Some m" by (auto simp: get_def)
  have "length (m_rows m) \<le> 128"
    using phys_market [OF _ m] assms(1) by (auto simp: store_inv_def market_wf_def Let_def)
  then consider "length (m_rows m) < 128" | "length (m_rows m) = 128" by linarith
  then show ?thesis
  proof cases
    case 1
    then show ?thesis using push_known_market [OF assms(1) Some m, of row] assms(2) by auto
  next
    case 2
    then have "\<exists>e. push_market st market row = (Err e, st)"
      using Some m by (simp add: push_market_def try_from_usize_def MAX_SLOTS_def Let_def)
    then show ?thesis using assms(2) by auto
  qed
qed

end
