(* ===== verification/Store_History.thy ===== *)
theory Store_History
  imports Store_Journal
begin

text \<open>
  Reorgs. \<open>undo_log\<close> is the contract between a store and its journal: a mutation extends the open
  record by its inverse, opening a block starts an empty record, unwinding consumes records newest
  first. Under it, a history of past states stays reachable; the interpretation \<open>reorg\<close> on the
  store gives the theorem about \<^verbatim>\<open>StateStore::unwind_to\<close> for every interleaving of blocks,
  mutations (failing ones included) and reorgs.
\<close>

section \<open>The contract\<close>

primrec undo_all :: "('r \<Rightarrow> 'l \<Rightarrow> 'l option) \<Rightarrow> 'r list \<Rightarrow> 'l \<Rightarrow> 'l option" where
  "undo_all undo [] l = Some l"
| "undo_all undo (r # rs) l = Option.bind (undo r l) (undo_all undo rs)"

definition chained :: "('r \<Rightarrow> 'l \<Rightarrow> 'l option) \<Rightarrow> 'r list \<Rightarrow> 'l list \<Rightarrow> bool" where
  "chained undo rs hs \<longleftrightarrow>
     length rs < length hs \<and> (\<forall>i < length rs. undo (rs ! i) (hs ! i) = Some (hs ! Suc i))"

lemma chained_take: "chained undo rs hs \<Longrightarrow> chained undo (take k rs) hs"
  by (auto simp: chained_def)

lemma chained_drop: "chained undo rs hs \<Longrightarrow> k \<le> length rs \<Longrightarrow> chained undo (drop k rs) (drop k hs)"
  by (auto simp: chained_def)

lemma chained_undo_all:
  "chained undo rs hs \<Longrightarrow> k \<le> length rs \<Longrightarrow> undo_all undo (take k rs) (hs ! 0) = Some (hs ! k)"
proof (induction k arbitrary: rs hs)
  case 0
  then show ?case by simp
next
  case (Suc k)
  then obtain r rs' where rs: "rs = r # rs'" by (cases rs) auto
  have "undo r (hs ! 0) = Some (hs ! Suc 0)" using Suc.prems(1) by (auto simp: chained_def rs)
  moreover have "chained undo (drop 1 rs) (drop 1 hs)" using Suc.prems by (intro chained_drop) auto
  then have "undo_all undo (take k rs') (hs ! Suc 0) = Some (hs ! Suc k)"
    using Suc.IH [of rs' "drop 1 hs"] Suc.prems by (auto simp: rs chained_def)
  ultimately show ?case by (simp add: rs)
qed

locale undo_log =
  fixes phys :: "'s \<Rightarrow> bool" and good :: "'l \<Rightarrow> bool" and view :: "'s \<Rightarrow> 'l"
    and recs :: "'s \<Rightarrow> 'r list" and undo :: "'r \<Rightarrow> 'l \<Rightarrow> 'l option"
    and mutate :: "'m \<Rightarrow> 's \<Rightarrow> 's" and begin_next :: "'s \<Rightarrow> 's \<Rightarrow> bool"
    and unwind :: "nat \<Rightarrow> 's \<Rightarrow> 's \<Rightarrow> bool" and fresh :: 'r and depth :: nat
  assumes mutate_keeps: "phys s \<Longrightarrow> good (view s) \<Longrightarrow> phys (mutate m s) \<and> good (view (mutate m s))"
    and mutate_journals: "phys s \<Longrightarrow> good (view s) \<Longrightarrow>
      (case recs s of
         [] \<Rightarrow> recs (mutate m s) = []
       | r # rs \<Rightarrow> \<exists>r'. recs (mutate m s) = r' # rs \<and> undo r' (view (mutate m s)) = undo r (view s))"
    and begin_keeps: "phys s \<Longrightarrow> begin_next s s' \<Longrightarrow>
      phys s' \<and> view s' = view s \<and> recs s' = fresh # take depth (recs s)"
    and fresh_undo: "undo fresh l = Some l"
    and unwind_undoes: "phys s \<Longrightarrow> k \<le> length (recs s) \<Longrightarrow> undo_all undo (take k (recs s)) (view s) = Some l \<Longrightarrow>
      \<exists>s'. unwind k s s' \<and> phys s' \<and> view s' = l \<and> recs s' = drop k (recs s)"
    and unwind_fun: "unwind k s s' \<Longrightarrow> unwind k s s'' \<Longrightarrow> s' = s''"
begin

definition remembers :: "'s \<Rightarrow> 'l list \<Rightarrow> bool" where
  "remembers s hs \<longleftrightarrow>
     phys s \<and> hs \<noteq> [] \<and> hd hs = view s \<and> chained undo (recs s) hs \<and> (\<forall>h \<in> set hs. good h)"

lemma remembers_good: "remembers s hs \<Longrightarrow> phys s \<and> good (view s)"
  by (cases hs) (auto simp: remembers_def)

lemma remembers_mutate:
  assumes "remembers s (h # hs)"
  shows "remembers (mutate m s) (view (mutate m s) # hs)"
proof -
  have s: "phys s" "h = view s" "good (view s)" "\<forall>h \<in> set hs. good h" "chained undo (recs s) (h # hs)"
    using assms by (auto simp: remembers_def)
  note keeps = mutate_keeps [OF s(1,3), of m] and journals = mutate_journals [OF s(1,3), of m]
  have "chained undo (recs (mutate m s)) (view (mutate m s) # hs)"
  proof (cases "recs s")
    case Nil
    then show ?thesis using journals by (simp add: chained_def)
  next
    case (Cons r rs)
    then obtain r' where r': "recs (mutate m s) = r' # rs" "undo r' (view (mutate m s)) = undo r (view s)"
      using journals by auto
    show ?thesis
      unfolding chained_def r'(1)
    proof (intro conjI allI impI)
      show "length (r' # rs) < length (view (mutate m s) # hs)"
        using s(5) by (simp add: chained_def Cons)
      fix i assume "i < length (r' # rs)"
      then show "undo ((r' # rs) ! i) ((view (mutate m s) # hs) ! i) =
          Some ((view (mutate m s) # hs) ! Suc i)"
        using s(2,5) r'(2) by (cases i) (auto simp: chained_def Cons)
    qed
  qed
  then show ?thesis using keeps s(4) by (simp add: remembers_def)
qed

lemma remembers_begin:
  assumes "remembers s (h # hs)" and "begin_next s s'"
  shows "remembers s' (h # h # hs)"
proof -
  have s: "phys s" "h = view s" "chained undo (recs s) (h # hs)" using assms(1) by (auto simp: remembers_def)
  note b = begin_keeps [OF s(1) assms(2)]
  have "chained undo (fresh # take depth (recs s)) (h # h # hs)"
    unfolding chained_def
  proof (intro conjI allI impI)
    show "length (fresh # take depth (recs s)) < length (h # h # hs)"
      using s(3) by (auto simp: chained_def)
    fix i assume "i < length (fresh # take depth (recs s))"
    then show "undo ((fresh # take depth (recs s)) ! i) ((h # h # hs) ! i) = Some ((h # h # hs) ! Suc i)"
      using s(3) fresh_undo by (cases i) (auto simp: chained_def)
  qed
  then show ?thesis using assms(1) b s(2) by (auto simp: remembers_def)
qed

lemma remembers_unwind:
  assumes "remembers s hs" and "k \<le> length (recs s)"
  shows "\<exists>s'. unwind k s s' \<and> view s' = hs ! k \<and> remembers s' (drop k hs)"
proof -
  have s: "phys s" "hs ! 0 = view s" "chained undo (recs s) hs"
    using assms(1) by (auto simp: remembers_def hd_conv_nth)
  have k: "k < length hs" using s(3) assms(2) by (simp add: chained_def)
  obtain s' where s': "unwind k s s'" "phys s'" "view s' = hs ! k" "recs s' = drop k (recs s)"
    using unwind_undoes [OF s(1) assms(2)] chained_undo_all [OF s(3) assms(2)] by (auto simp: s(2))
  have "remembers s' (drop k hs)"
    using assms(1) k s'(2-4) chained_drop [OF s(3) assms(2)]
    by (auto simp: remembers_def hd_drop_conv_nth dest: in_set_dropD)
  then show ?thesis using s' by blast
qed

end

section \<open>Records of the store\<close>

fun lrevert_ops :: "undo_op list \<Rightarrow> lrevert_state \<Rightarrow> lrevert_state option" where
  "lrevert_ops [] s = Some s"
| "lrevert_ops (u # us) s = Option.bind (lrevert u s) (lrevert_ops us)"

definition lrevert_rec :: "rec_view \<Rightarrow> lstate \<Rightarrow> lstate option" where
  "lrevert_rec v l =
     (case v of (us, xs, ys) \<Rightarrow> map_option (\<lambda>(_, _, l). l) (lrevert_ops (rev us) (xs, ys, l)))"

lemma lrevert_rec_fresh: "lrevert_rec ([], [], []) l = Some l"
  by (simp add: lrevert_rec_def)

lemma lrevert_rec_pushed:
  assumes "\<And>xs ys. lrevert u (xs @ es, ys @ rs, l') = Some (xs, ys, l)"
  shows "lrevert_rec (pushed_view u es rs v) l' = lrevert_rec v l"
  by (cases v) (simp add: lrevert_rec_def pushed_view_def assms)

lemma revert_ops_sim:
  assumes "phys st" and "lrevert_ops us (xs, ys, labs st) = Some (xs', ys', l')"
  shows "\<exists>st'. revert_ops us (xs, ys, st) = (Ok (), (xs', ys', st')) \<and> phys st' \<and> labs st' = l' \<and>
    st_undo st' = st_undo st"
  using assms
proof (induction us arbitrary: xs ys st)
  case Nil
  then show ?case by simp
next
  case (Cons u us)
  from Cons.prems(2) obtain x1 y1 l1 where one: "lrevert u (xs, ys, labs st) = Some (x1, y1, l1)"
    and rest: "lrevert_ops us (x1, y1, l1) = Some (xs', ys', l')"
    by (auto simp: bind_eq_Some_conv)
  obtain st1 where st1: "revert u (xs, ys, st) = (Ok (), (x1, y1, st1))" "phys st1" "labs st1 = l1"
    "st_undo st1 = st_undo st"
    using revert_sim [OF Cons.prems(1) one] by blast
  from Cons.IH [OF st1(2), of x1 y1] rest st1 show ?case by auto
qed

section \<open>Unwinding\<close>

lemma unwind_block_sim:
  assumes "phys st" and "i < ring_held (st_undo st)" and "unat block = unat (ur_tip (st_undo st)) - i"
    and "lrevert_rec (ring_rec (st_undo st) i) (labs st) = Some l'"
  shows "\<exists>st'. unwind_block block st = (Ok (), st') \<and> phys st' \<and> labs st' = l' \<and>
    ur_tip (st_undo st') = ur_tip (st_undo st) \<and> ur_floor (st_undo st') = ur_floor (st_undo st) \<and>
    (\<forall>j < 128. j \<noteq> i \<longrightarrow> ring_rec (st_undo st') j = ring_rec (st_undo st) j)"
proof -
  let ?r = "st_undo st"
  have inv: "ring_inv ?r" using assms(1) by (simp add: phys_def)
  then have i: "i < 128" using assms(2) by (auto simp: ring_inv_def ring_held_def)
  obtain rec r1 where t: "ring_take ?r (ring_slot ?r i) = Some (rec, r1)" "rec_view rec = ring_rec ?r i"
    "r1 = ?r\<lparr>ur_blocks := (ur_blocks ?r)[ring_slot ?r i := block_undo_default]\<rparr>"
    by (rule ring_take_held [OF inv])
  have "ring_inv r1" using inv by (simp add: t(3) ring_inv_def)
  then have p1: "phys (st\<lparr>st_undo := r1\<rparr>)" using assms(1) by (simp add: phys_def)
  from assms(4) obtain xs' ys' where
    "lrevert_ops (rev (rv_items (bu_ops rec))) (rv_items (bu_extras rec), rv_items (bu_rows rec), labs st)
       = Some (xs', ys', l')"
    by (auto simp: lrevert_rec_def t(2) [symmetric] rec_view_def)
  then obtain st1 where st1: "revert_ops (rev (rv_items (bu_ops rec)))
      (rv_items (bu_extras rec), rv_items (bu_rows rec), st\<lparr>st_undo := r1\<rparr>) = (Ok (), (xs', ys', st1))"
    "phys st1" "labs st1 = l'" "st_undo st1 = r1"
    using revert_ops_sim [OF p1] by fastforce
  define rec' where "rec' = rec\<lparr>bu_extras := (bu_extras rec)\<lparr>rv_items := xs'\<rparr>,
      bu_rows := (bu_rows rec)\<lparr>rv_items := ys'\<rparr>\<rparr>"
  define r2 where "r2 = ring_put r1 (ring_slot ?r i) rec'"
  note put = ring_put_taken [OF inv t(3) r2_def]
  have "unwind_block block st = (Ok (), st1\<lparr>st_undo := r2\<rparr>)"
    using ring_slot_of_held [OF inv assms(2,3)] t(1) st1(1,4)
    by (simp add: unwind_block_def r2_def rec'_def)
  moreover have "phys (st1\<lparr>st_undo := r2\<rparr>)" using st1(2) put(1) by (simp add: phys_def)
  ultimately show ?thesis using st1(3) put(2,3) put(5) [OF i] by simp
qed

lemma unwind_loop_sim:
  assumes "phys st" and "k \<le> ring_held (st_undo st)" and "i \<le> k"
    and "unat target = unat (ur_tip (st_undo st)) - k"
    and "unat block = unat (ur_tip (st_undo st)) - i"
    and "undo_all lrevert_rec (map (ring_rec (st_undo st)) [i..<k]) (labs st) = Some l'"
  shows "\<exists>st'. unwind_loop target block st = (Ok (), st') \<and> phys st' \<and> labs st' = l' \<and>
    ur_tip (st_undo st') = ur_tip (st_undo st) \<and> ur_floor (st_undo st') = ur_floor (st_undo st) \<and>
    (\<forall>j < 128. k \<le> j \<longrightarrow> ring_rec (st_undo st') j = ring_rec (st_undo st) j)"
  using assms
proof (induction "k - i" arbitrary: i block st)
  case 0
  then have "i = k" by simp
  then have "\<not> target < block" using "0.prems" by (simp add: word_less_unat)
  then show ?case
    using \<open>i = k\<close> "0.prems" by (intro exI [of _ st]) (simp add: unwind_loop.simps [of target block])
next
  case (Suc d)
  let ?r = "st_undo st"
  have ik: "i < k" using Suc.hyps(2) by simp
  have inv: "ring_inv ?r" using Suc.prems(1) by (simp add: phys_def)
  then have tip: "k \<le> unat (ur_tip ?r)" "k \<le> 128"
    using Suc.prems(2) by (auto simp: ring_inv_def ring_held_def)
  have "[i..<k] = i # [Suc i..<k]" using ik by (simp add: upt_conv_Cons)
  then obtain l1 where one: "lrevert_rec (ring_rec ?r i) (labs st) = Some l1"
    and rest: "undo_all lrevert_rec (map (ring_rec ?r) [Suc i..<k]) l1 = Some l'"
    using Suc.prems(6) by (auto simp: bind_eq_Some_conv)
  have "i < ring_held ?r" using ik Suc.prems(2) by simp
  from unwind_block_sim [OF Suc.prems(1) this Suc.prems(5) one]
  obtain st1 where st1: "unwind_block block st = (Ok (), st1)" "phys st1" "labs st1 = l1"
    "ur_tip (st_undo st1) = ur_tip ?r" "ur_floor (st_undo st1) = ur_floor ?r"
    "\<And>j. j < 128 \<Longrightarrow> j \<noteq> i \<Longrightarrow> ring_rec (st_undo st1) j = ring_rec ?r j" by blast
  have recs: "map (ring_rec (st_undo st1)) [Suc i..<k] = map (ring_rec ?r) [Suc i..<k]"
    using st1(6) tip(2) by simp
  have rest1: "undo_all lrevert_rec (map (ring_rec (st_undo st1)) [Suc i..<k]) (labs st1) = Some l'"
    unfolding recs st1(3) by (rule rest)
  have held: "ring_held (st_undo st1) = ring_held ?r" using st1(4,5) by (simp add: ring_held_def)
  have step: "unat (saturating_sub block 1) = unat (ur_tip (st_undo st1)) - Suc i"
    using Suc.prems(5) st1(4) by (simp add: unat_saturating_sub)
  have "target < block" using ik tip(1) Suc.prems(4,5) by (simp add: word_less_unat)
  then have unfold: "unwind_loop target block st = unwind_loop target (saturating_sub block 1) st1"
    by (simp add: unwind_loop.simps [of target block] st1(1))
  have "\<exists>st'. unwind_loop target (saturating_sub block 1) st1 = (Ok (), st') \<and> phys st' \<and> labs st' = l' \<and>
    ur_tip (st_undo st') = ur_tip (st_undo st1) \<and> ur_floor (st_undo st') = ur_floor (st_undo st1) \<and>
    (\<forall>j < 128. k \<le> j \<longrightarrow> ring_rec (st_undo st') j = ring_rec (st_undo st1) j)"
    using Suc.hyps(2) ik Suc.prems(2,4) held st1(2,4) rest1 step
    by (intro Suc.hyps(1)) (simp_all del: map_eq_conv)
  then show ?case using st1(4,5,6) ik by (auto simp: unfold)
qed

lemma unwind_to_sim:
  assumes "phys st" and "k \<le> ring_held (st_undo st)" and "unat target = unat (ur_tip (st_undo st)) - k"
    and "undo_all lrevert_rec (take k (ring_records (st_undo st))) (labs st) = Some l'"
  shows "\<exists>st'. unwind_to st target = (Ok (), st') \<and> phys st' \<and> labs st' = l' \<and>
    ring_records (st_undo st') = drop k (ring_records (st_undo st)) \<and>
    ur_tip (st_undo st') = target \<and> ur_floor (st_undo st') = ur_floor (st_undo st)"
proof -
  let ?r = "st_undo st"
  have inv: "ring_inv ?r" using assms(1) by (simp add: phys_def)
  have held: "ring_held ?r \<le> 128" "unat (ur_floor ?r) \<le> unat (ur_tip ?r)"
    using inv by (auto simp: ring_inv_def ring_held_def)
  have guards: "\<not> target > ur_tip ?r" "\<not> target < ur_floor ?r"
    using assms(2,3) held by (auto simp: word_less_unat ring_held_def)
  have "take k (ring_records ?r) = map (ring_rec ?r) [0..<k]"
    using assms(2) by (simp add: ring_records_def take_map)
  with assms(4) have "undo_all lrevert_rec (map (ring_rec ?r) [0..<k]) (labs st) = Some l'" by simp
  from unwind_loop_sim [OF assms(1,2) le0 assms(3) _ this, of "ur_tip ?r"]
  obtain st1 where st1: "unwind_loop target (ur_tip ?r) st = (Ok (), st1)" "phys st1" "labs st1 = l'"
    "ur_tip (st_undo st1) = ur_tip ?r" "ur_floor (st_undo st1) = ur_floor ?r"
    "\<And>j. j < 128 \<Longrightarrow> k \<le> j \<Longrightarrow> ring_rec (st_undo st1) j = ring_rec ?r j" by auto
  have inv1: "ring_inv (st_undo st1)" using st1(2) by (simp add: phys_def)
  have held1: "ring_held (st_undo st1) = ring_held ?r" using st1(4,5) by (simp add: ring_held_def)
  have k1: "k \<le> ring_held (st_undo st1)" "unat target = unat (ur_tip (st_undo st1)) - k"
    using assms(2,3) held1 st1(4) by simp_all
  obtain r2 where r2: "ring_rewind (st_undo st1) target = (Ok (), r2)" "ring_inv r2" "ur_tip r2 = target"
    "ur_floor r2 = ur_floor (st_undo st1)" "ring_records r2 = drop k (ring_records (st_undo st1))"
    by (rule ring_rewind_held [OF inv1 k1])
  have "drop k (ring_records (st_undo st1)) = drop k (ring_records ?r)"
    using st1(6) held held1 assms(2) by (intro nth_equalityI) (auto simp: nth_ring_records)
  moreover have "unwind_to st target = (Ok (), st1\<lparr>st_undo := r2\<rparr>)"
    using guards st1(1) r2(1) by (simp add: unwind_to_def)
  moreover have "phys (st1\<lparr>st_undo := r2\<rparr>)" using st1(2) r2(2) by (simp add: phys_def)
  ultimately show ?thesis using st1(3,5) r2(3-5) by simp
qed

section \<open>Runs of the store\<close>

text \<open>The mutations of the \<^verbatim>\<open>StateWriter\<close> interface, and the store each leaves, failed or not.\<close>

datatype mutation =
    Intern position_key
  | SetSupply position_id u16 u128
  | SetDebt position_id u16 u128
  | SetExtra position_id position_extra_repr
  | SetSlotExtra position_id u16 position_extra_repr
  | SetMarket market_slot market_row
  | PushMarket market_id market_row

fun apply_mutation :: "mutation \<Rightarrow> state_store \<Rightarrow> state_store" where
  "apply_mutation (Intern key) st = snd (intern st key)"
| "apply_mutation (SetSupply pos slot shares) st = snd (set_supply st pos slot shares)"
| "apply_mutation (SetDebt pos slot shares) st = snd (set_debt st pos slot shares)"
| "apply_mutation (SetExtra pos extra) st = snd (set_extra st pos extra)"
| "apply_mutation (SetSlotExtra pos slot extra) st = snd (set_slot_extra st pos slot extra)"
| "apply_mutation (SetMarket at row) st = snd (set_market st at row)"
| "apply_mutation (PushMarket market row) st = snd (push_market st market row)"

lemma apply_mutation_effect:
  assumes "store_inv st"
  shows "journaled st (apply_mutation m st) \<or> apply_mutation m st = st"
proof (cases m)
  case (Intern key)
  then show ?thesis
    using intern_inv [OF assms, of key] by (cases "intern st key"; cases "fst (intern st key)") auto
next
  case (SetSupply pos slot v)
  then show ?thesis
    using set_column_inv [OF assms, of Supply pos slot v]
    by (cases "set_supply st pos slot v"; cases "fst (set_supply st pos slot v)")
      (auto simp: set_supply_def)
next
  case (SetDebt pos slot v)
  then show ?thesis
    using set_column_inv [OF assms, of Debt pos slot v]
    by (cases "set_debt st pos slot v"; cases "fst (set_debt st pos slot v)") (auto simp: set_debt_def)
next
  case (SetExtra pos x)
  then show ?thesis
    using set_extra_inv [OF assms, of pos x]
    by (cases "set_extra st pos x"; cases "fst (set_extra st pos x)") auto
next
  case (SetSlotExtra pos slot x)
  then show ?thesis
    using set_slot_extra_inv [OF assms, of pos slot x]
    by (cases "set_slot_extra st pos slot x"; cases "fst (set_slot_extra st pos slot x)") auto
next
  case (SetMarket at row)
  then show ?thesis
    using set_market_inv [OF assms, of at row]
    by (cases "set_market st at row"; cases "fst (set_market st at row)") auto
next
  case (PushMarket market row)
  then show ?thesis
    using push_market_inv [OF assms, of market row]
    by (cases "push_market st market row"; cases "fst (push_market st market row)") auto
qed

lemma apply_mutation_ring:
  assumes "store_inv st"
  shows "store_inv (apply_mutation m st)"
    and "ur_tip (st_undo (apply_mutation m st)) = ur_tip (st_undo st)"
    and "ur_floor (st_undo (apply_mutation m st)) = ur_floor (st_undo st)"
    and "case ring_records (st_undo st) of
           [] \<Rightarrow> ring_records (st_undo (apply_mutation m st)) = []
         | v # vs \<Rightarrow> \<exists>v'. ring_records (st_undo (apply_mutation m st)) = v' # vs \<and>
             lrevert_rec v' (labs (apply_mutation m st)) = lrevert_rec v (labs st)"
proof -
  consider (same) "apply_mutation m st = st" | (step) "journaled st (apply_mutation m st)"
    using apply_mutation_effect [OF assms] by blast
  then have "store_inv (apply_mutation m st) \<and>
    ur_tip (st_undo (apply_mutation m st)) = ur_tip (st_undo st) \<and>
    ur_floor (st_undo (apply_mutation m st)) = ur_floor (st_undo st) \<and>
    (case ring_records (st_undo st) of
           [] \<Rightarrow> ring_records (st_undo (apply_mutation m st)) = []
         | v # vs \<Rightarrow> \<exists>v'. ring_records (st_undo (apply_mutation m st)) = v' # vs \<and>
             lrevert_rec v' (labs (apply_mutation m st)) = lrevert_rec v (labs st))"
  proof cases
    case same
    then show ?thesis using assms by (auto split: list.split)
  next
    case step
    then obtain u es rs where "store_inv (apply_mutation m st)"
      "ring_extends u es rs (st_undo st) (st_undo (apply_mutation m st))"
      and inverse: "\<And>xs ys. lrevert u (xs @ es, ys @ rs, labs (apply_mutation m st)) = Some (xs, ys, labs st)"
      by (auto simp: journaled_def)
    then show ?thesis
      using lrevert_rec_pushed [OF inverse] by (auto simp: ring_extends_def split: list.split)
  qed
  then show "store_inv (apply_mutation m st)"
    and "ur_tip (st_undo (apply_mutation m st)) = ur_tip (st_undo st)"
    and "ur_floor (st_undo (apply_mutation m st)) = ur_floor (st_undo st)"
    and "case ring_records (st_undo st) of
           [] \<Rightarrow> ring_records (st_undo (apply_mutation m st)) = []
         | v # vs \<Rightarrow> \<exists>v'. ring_records (st_undo (apply_mutation m st)) = v' # vs \<and>
             lrevert_rec v' (labs (apply_mutation m st)) = lrevert_rec v (labs st)"
    by blast+
qed

lemma begin_block_Ok:
  assumes "phys st" and "begin_block st block = (Ok (), st')"
  shows "phys st' \<and> labs st' = labs st \<and> ur_tip (st_undo st') = block \<and>
    unat block = unat (ur_tip (st_undo st)) + 1 \<and>
    unat (ur_floor (st_undo st')) = max (unat (ur_floor (st_undo st))) (unat block - 128) \<and>
    ring_records (st_undo st') = ([], [], []) # take 127 (ring_records (st_undo st))"
proof -
  have inv: "ring_inv (st_undo st)" using assms(1) by (simp add: phys_def)
  have b: "unat block = unat (ur_tip (st_undo st)) + 1"
    using assms(2) ring_begin_Err [of "st_undo st" block]
    by (cases "unat (ur_tip (st_undo st)) + 1 = unat block") (auto simp: begin_block_def)
  then have "st' = st\<lparr>st_undo := ring_opened (st_undo st) block\<rparr>"
    using assms(2) ring_begin_opened [OF inv b] by (simp add: begin_block_def)
  then show ?thesis
    using assms(1) b ring_opened_inv [OF inv b] ring_opened_records [OF inv b] by (simp add: phys_def)
qed

definition next_block :: "state_store \<Rightarrow> state_store \<Rightarrow> bool" where
  "next_block st st' \<longleftrightarrow> (\<exists>block. begin_block st block = (Ok (), st'))"

definition unwound :: "nat \<Rightarrow> state_store \<Rightarrow> state_store \<Rightarrow> bool" where
  "unwound k st st' \<longleftrightarrow>
     (\<exists>target. unat target + k = unat (store_tip st) \<and> unwind_to st target = (Ok (), st'))"

interpretation reorg: undo_log phys linv labs "\<lambda>st. ring_records (st_undo st)" lrevert_rec
  apply_mutation next_block unwound "([], [], [])" 127
proof
  show "phys st \<Longrightarrow> linv (labs st) \<Longrightarrow> phys (apply_mutation m st) \<and> linv (labs (apply_mutation m st))" for st m
    using apply_mutation_ring(1) [of st m] by (simp add: store_inv_def)
  show "phys st \<Longrightarrow> linv (labs st) \<Longrightarrow>
      (case ring_records (st_undo st) of
         [] \<Rightarrow> ring_records (st_undo (apply_mutation m st)) = []
       | r # rs \<Rightarrow> \<exists>r'. ring_records (st_undo (apply_mutation m st)) = r' # rs \<and>
           lrevert_rec r' (labs (apply_mutation m st)) = lrevert_rec r (labs st))" for st m
    using apply_mutation_ring(4) [of st m] by (simp add: store_inv_def)
  show "phys st \<Longrightarrow> next_block st st' \<Longrightarrow>
      phys st' \<and> labs st' = labs st \<and>
      ring_records (st_undo st') = ([], [], []) # take 127 (ring_records (st_undo st))" for st st'
    using begin_block_Ok by (auto simp: next_block_def)
  show "lrevert_rec ([], [], []) l = Some l" for l by (rule lrevert_rec_fresh)
  show "\<exists>st'. unwound k st st' \<and> phys st' \<and> labs st' = l \<and>
      ring_records (st_undo st') = drop k (ring_records (st_undo st))"
    if "phys st" and k: "k \<le> length (ring_records (st_undo st))"
      and "undo_all lrevert_rec (take k (ring_records (st_undo st))) (labs st) = Some l" for st k l
  proof -
    have "k \<le> unat (ur_tip (st_undo st))" using k by (simp add: ring_held_def)
    then obtain target :: u64 where t: "unat target = unat (ur_tip (st_undo st)) - k"
      using unat_of_nat_small [of "unat (ur_tip (st_undo st)) - k"] unat_bound [of "ur_tip (st_undo st)"]
      by (metis diff_le_self le_less_trans)
    have "k \<le> ring_held (st_undo st)" using k by simp
    from unwind_to_sim [OF that(1) this t that(3)] obtain st' where st': "unwind_to st target = (Ok (), st')"
      "phys st'" "labs st' = l" "ring_records (st_undo st') = drop k (ring_records (st_undo st))" by blast
    have "unat target + k = unat (store_tip st)"
      using t \<open>k \<le> unat (ur_tip (st_undo st))\<close> by (simp add: store_tip_def)
    then show ?thesis using st' unfolding unwound_def by blast
  qed
  show "unwound k st s' \<Longrightarrow> unwound k st s'' \<Longrightarrow> s' = s''" for k st s' s''
  proof -
    assume "unwound k st s'" and "unwound k st s''"
    then obtain t t' where t: "unat t + k = unat (store_tip st)" "unwind_to st t = (Ok (), s')"
      and t': "unat t' + k = unat (store_tip st)" "unwind_to st t' = (Ok (), s'')"
      by (auto simp: unwound_def)
    have "t = t'" by (rule word_eq_unatI) (use t(1) t'(1) in simp)
    with t(2) t'(2) show "s' = s''" by simp
  qed
qed

text \<open>
  A run from an empty store, with the logical states that held at the end of every block so far,
  newest first: the head is the present state. Opening a block repeats it, a mutation replaces it,
  a reorg forgets the states above its target.
\<close>

inductive store_run :: "store_config \<Rightarrow> state_store \<Rightarrow> lstate list \<Rightarrow> bool" for cfg where
  run_new: "store_run cfg (store_new cfg) [labs (store_new cfg)]"
| run_mutate: "store_run cfg st (h # hs) \<Longrightarrow>
    store_run cfg (apply_mutation m st) (labs (apply_mutation m st) # hs)"
| run_begin: "store_run cfg st (h # hs) \<Longrightarrow> begin_block st block = (Ok (), st') \<Longrightarrow>
    store_run cfg st' (h # h # hs)"
| run_unwind: "store_run cfg st hs \<Longrightarrow> unwind_to st target = (Ok (), st') \<Longrightarrow>
    store_run cfg st' (drop (unat (store_tip st) - unat target) hs)"

inductive_cases store_run_nonempty: "store_run cfg st []"

lemma unwind_to_guards:
  assumes "unwind_to st target = (Ok (), st')"
  shows "store_floor st \<le> target" and "target \<le> store_tip st"
  using assms by (auto simp: unwind_to_def store_floor_def store_tip_def Let_def not_less split: if_splits)

lemma remembers_inv: "reorg.remembers st hs \<Longrightarrow> store_inv st"
  using reorg.remembers_good by (simp add: store_inv_def)

lemma remembers_unwind_to:
  assumes "reorg.remembers st hs" and "store_floor st \<le> target" and "target \<le> store_tip st"
  shows "\<exists>st'. unwind_to st target = (Ok (), st') \<and>
    reorg.remembers st' (drop (unat (store_tip st) - unat target) hs) \<and>
    labs st' = hs ! (unat (store_tip st) - unat target) \<and>
    store_tip st' = target \<and> store_floor st' = store_floor st"
proof -
  let ?k = "unat (store_tip st) - unat target" and ?rs = "ring_records (st_undo st)"
  have le: "unat (store_floor st) \<le> unat target" "unat target \<le> unat (store_tip st)"
    using assms(2,3) by (simp_all add: word_le_unat)
  then have k: "?k \<le> length ?rs" by (simp add: ring_held_def store_tip_def store_floor_def)
  obtain s' where s': "unwound ?k st s'" "labs s' = hs ! ?k" "reorg.remembers s' (drop ?k hs)"
    using reorg.remembers_unwind [OF assms(1) k] by blast
  have chain: "chained lrevert_rec ?rs hs" "hs ! 0 = labs st" "phys st"
    using assms(1) by (auto simp: reorg.remembers_def hd_conv_nth)
  have "undo_all lrevert_rec (take ?k ?rs) (labs st) = Some (hs ! ?k)"
    using chained_undo_all [OF chain(1) k] by (simp add: chain(2))
  from unwind_to_sim [OF chain(3) _ _ this, of target] k le obtain st' where
    st': "unwind_to st target = (Ok (), st')" "store_tip st' = target" "store_floor st' = store_floor st"
    by (auto simp: store_tip_def store_floor_def)
  have "unwound ?k st st'" using st'(1) le unfolding unwound_def by (intro exI [of _ target]) simp
  then have "s' = st'" by (rule reorg.unwind_fun [OF s'(1)])
  with s' st' show ?thesis by blast
qed

lemma store_run_remembers:
  assumes "store_run cfg st hs"
  shows "reorg.remembers st hs \<and>
    length hs = unat (store_tip st) - unat (sc_base cfg) + 1 \<and> unat (sc_base cfg) \<le> unat (store_floor st)"
  using assms
proof induction
  case run_new
  have "store_inv (store_new cfg)" by (rule store_inv_new)
  moreover have "st_undo (store_new cfg) = ring_new (sc_base cfg) (sc_undo cfg)" by (simp add: store_new_def)
  ultimately show ?case
    by (simp add: reorg.remembers_def store_inv_def chained_def ring_records_new store_tip_def
        store_floor_def) (simp add: ring_new_def)
next
  case (run_mutate st h hs m)
  then have "store_inv st" by (auto simp: reorg.remembers_def store_inv_def)
  from apply_mutation_ring(2,3) [OF this, of m] show ?case
    using run_mutate reorg.remembers_mutate [of st h hs m] by (simp add: store_tip_def store_floor_def)
next
  case (run_begin st h hs block st')
  then have p: "phys st" by (simp add: reorg.remembers_def)
  then have "ring_inv (st_undo st)" by (simp add: phys_def)
  then have "unat (store_floor st) \<le> unat (store_tip st)"
    by (simp add: ring_inv_def store_floor_def store_tip_def)
  then show ?case
    using run_begin begin_block_Ok [OF p run_begin.hyps(2)] reorg.remembers_begin [of st h hs st']
    by (auto simp: next_block_def store_tip_def store_floor_def)
next
  case (run_unwind st hs target st')
  note g = unwind_to_guards [OF run_unwind.hyps(2)]
  from remembers_unwind_to [OF _ g] run_unwind.IH run_unwind.hyps(2)
  have "reorg.remembers st' (drop (unat (store_tip st) - unat target) hs)" "store_tip st' = target"
    "store_floor st' = store_floor st" by auto
  then show ?case using run_unwind.IH g by (auto simp: word_le_unat)
qed

section \<open>What a reader sees\<close>

text \<open>
  The readers of the store depend on its logical content only: two well-formed stores with the
  same content answer every read alike, whatever their strides and index tables.
\<close>

lemma read_cell_labs:
  assumes "store_inv st"
  shows "read_cell (col_get c) st pos slot =
    (case get (l_entries (labs st)) (unat pos) of
       None \<Rightarrow> Err (UnknownPosition pos)
     | Some e \<Rightarrow>
         (case lresolve (labs st) pos slot of
            None \<Rightarrow> Err (SlotOutOfRange \<lparr>ms_market = pk_market (pe_key e), ms_slot = slot\<rparr>)
          | Some (mi, loc) \<Rightarrow> Ok (l_bal (labs st) mi c loc (unat slot))))"
    and "store_slot_extra st pos slot =
    (case get (l_entries (labs st)) (unat pos) of
       None \<Rightarrow> Err (UnknownPosition pos)
     | Some e \<Rightarrow>
         (case lresolve (labs st) pos slot of
            None \<Rightarrow> Err (SlotOutOfRange \<lparr>ms_market = pk_market (pe_key e), ms_slot = slot\<rparr>)
          | Some (mi, loc) \<Rightarrow> Ok (l_sx (labs st) mi loc (unat slot))))"
proof -
  have P: "phys st" and L: "linv (labs st)" using assms by (simp_all add: store_inv_def)
  have both: "read_cell (col_get c) st pos slot =
      (case lresolve (labs st) pos slot of
         None \<Rightarrow> Err (SlotOutOfRange \<lparr>ms_market = pk_market (pe_key e), ms_slot = slot\<rparr>)
       | Some (mi, loc) \<Rightarrow> Ok (l_bal (labs st) mi c loc (unat slot))) \<and>
     store_slot_extra st pos slot =
      (case lresolve (labs st) pos slot of
         None \<Rightarrow> Err (SlotOutOfRange \<lparr>ms_market = pk_market (pe_key e), ms_slot = slot\<rparr>)
       | Some (mi, loc) \<Rightarrow> Ok (l_sx (labs st) mi loc (unat slot)))"
    if e: "get (pt_entries (st_positions st)) (unat pos) = Some e" for e
  proof -
    have "e \<in> set (l_entries (labs st))" using e by (auto simp: get_Some)
    from linv_entry [OF L this] obtain mi m where
      m: "market_idx (st_market_index st) (pk_market (pe_key e)) = Some mi"
      "get (st_markets st) mi = Some m" "unat (pe_local e) < unat (m_n_pos m)"
      by (auto simp: get_map mk_view_def)
    have wf: "market_wf m" by (rule phys_market [OF P m(2)])
    show ?thesis
    proof (cases "unat slot < length (m_rows m)")
      case True
      then have "lresolve (labs st) pos slot = Some (mi, unat (pe_local e))"
        using e m by (simp add: lresolve_def get_map mk_view_def)
      then show ?thesis
        using e m True market_cell_wf [OF wf True m(3)]
        by (simp add: read_cell_def store_slot_extra_def store_market_def pt_entry_def labs_cells)
    next
      case False
      then have "lresolve (labs st) pos slot = None"
        using e m by (simp add: lresolve_def get_map mk_view_def)
      then show ?thesis
        using e m False by (simp add: read_cell_def store_slot_extra_def store_market_def pt_entry_def)
    qed
  qed
  then show "read_cell (col_get c) st pos slot =
    (case get (l_entries (labs st)) (unat pos) of
       None \<Rightarrow> Err (UnknownPosition pos)
     | Some e \<Rightarrow>
         (case lresolve (labs st) pos slot of
            None \<Rightarrow> Err (SlotOutOfRange \<lparr>ms_market = pk_market (pe_key e), ms_slot = slot\<rparr>)
          | Some (mi, loc) \<Rightarrow> Ok (l_bal (labs st) mi c loc (unat slot))))"
    and "store_slot_extra st pos slot =
    (case get (l_entries (labs st)) (unat pos) of
       None \<Rightarrow> Err (UnknownPosition pos)
     | Some e \<Rightarrow>
         (case lresolve (labs st) pos slot of
            None \<Rightarrow> Err (SlotOutOfRange \<lparr>ms_market = pk_market (pe_key e), ms_slot = slot\<rparr>)
          | Some (mi, loc) \<Rightarrow> Ok (l_sx (labs st) mi loc (unat slot))))"
    by (cases "get (pt_entries (st_positions st)) (unat pos)";
        simp add: read_cell_def store_slot_extra_def pt_entry_def)+
qed

lemma store_supply_col: "store_supply st pos slot = read_cell (col_get Supply) st pos slot"
  and store_debt_col: "store_debt st pos slot = read_cell (col_get Debt) st pos slot"
proof -
  have "col_get Supply = m_supply" "col_get Debt = m_debt" by (simp_all add: fun_eq_iff)
  then show "store_supply st pos slot = read_cell (col_get Supply) st pos slot"
    "store_debt st pos slot = read_cell (col_get Debt) st pos slot"
    by (simp_all add: store_supply_def store_debt_def)
qed

lemma store_rows_labs:
  "store_rows st market =
     Option.bind (l_index (labs st) market) (\<lambda>mi. map_option fst (get (l_mk (labs st)) mi))"
  by (cases "market_idx (st_market_index st) market")
    (auto simp: store_rows_def store_market_def get_map mk_view_def option.map_comp comp_def)

lemma position_lookup_labs:
  assumes "store_inv st" and "store_inv st'" and "labs st = labs st'"
  shows "store_position_id st key = store_position_id st' key"
proof -
  have inv: "pt_inv (st_positions st)" "pt_inv (st_positions st')"
    and same: "pt_entries (st_positions st) = pt_entries (st_positions st')"
    using assms labs_simps(2) [of st] by (simp_all add: store_inv_def phys_def)
  have "pt_map (st_positions st) key = Some i \<longleftrightarrow> pt_map (st_positions st') key = Some i" for i
    using inv same by (simp add: pt_inv_def)
  then show ?thesis by (simp add: store_position_id_def pt_get_def) (metis not_None_eq)
qed

lemma get_range_cells:
  assumes "col_wf z n k r xs" and "l < n" and "r \<le> k"
  shows "get_range xs (l * k, l * k + r) = Some (map (cell z n k r xs l) [0..<r])"
proof -
  have "l * k + r \<le> n * k"
    using mult_le_mono1 [of "l + 1" n k] assms(2,3) by simp
  then have "l * k + r \<le> length xs" using assms(1) by (simp add: col_wf_def)
  then show ?thesis
    using assms(2) by (auto simp: get_range_def cell_def intro!: nth_equalityI)
qed

lemma position_ref_labs:
  assumes "store_inv st"
  shows "store_position_ref st i ts =
    (case get (l_entries (labs st)) (unat i) of
       None \<Rightarrow> Err (SE_UnknownPosition i)
     | Some e \<Rightarrow>
         (case l_index (labs st) (pk_market (pe_key e)) of
            None \<Rightarrow> Err (SE_UnknownMarket (pk_market (pe_key e)))
          | Some mi \<Rightarrow>
              let rows = fst (l_mk (labs st) ! mi); loc = unat (pe_local e) in
              Ok \<lparr>pr_id = i, pr_key = pe_key e, pr_config = l_config (labs st) ! unat i,
                  pr_supply = map (l_bal (labs st) mi Supply loc) [0..<length rows],
                  pr_debt = map (l_bal (labs st) mi Debt loc) [0..<length rows],
                  pr_extra = l_extra (labs st) ! unat i,
                  pr_slot_extra = map (l_sx (labs st) mi loc) [0..<length rows],
                  pr_markets = rows, pr_timestamp = ts\<rparr>))"
proof (cases "get (pt_entries (st_positions st)) (unat i)")
  case None
  have "length (st_config st) = length (pt_entries (st_positions st))"
    using linv_lens(1) [of "labs st"] assms by (simp add: store_inv_def)
  then show ?thesis using None by (simp add: store_position_ref_def pt_entry_def get_def split: if_splits)
next
  case (Some e)
  have P: "phys st" and L: "linv (labs st)" using assms by (simp_all add: store_inv_def)
  have "e \<in> set (l_entries (labs st))" using Some by (auto simp: get_Some)
  from linv_entry [OF L this] obtain mi m where
    m: "market_idx (st_market_index st) (pk_market (pe_key e)) = Some mi"
    "get (st_markets st) mi = Some m" "unat (pe_local e) < unat (m_n_pos m)"
    by (auto simp: get_map mk_view_def)
  have wf: "market_wf m" by (rule phys_market [OF P m(2)])
  then have k: "length (m_rows m) \<le> m_stride m" "m_stride m \<le> 128"
    and x: "col_wf extra_ZERO (unat (m_n_pos m)) (m_stride m) (length (m_rows m)) (m_slot_extra m)"
    by (simp_all add: market_wf_def Let_def)
  have "unat (pe_local e) * m_stride m \<le> 2 ^ 32 * 128"
    using unat_bound [of "pe_local e"] k(2) by (intro mult_le_mono) auto
  then have range: "market_row_range m (pe_local e) =
      Some (unat (pe_local e) * m_stride m, unat (pe_local e) * m_stride m + length (m_rows m))"
    using k by (simp add: market_row_range_def usize_mul_def usize_add_def USIZE_LIMIT_def)
  note cols = get_range_cells [OF market_wf_col [OF wf, of Supply] m(3) k(1)]
    get_range_cells [OF market_wf_col [OF wf, of Debt] m(3) k(1)] get_range_cells [OF x m(3) k(1)]
  have config: "get (st_config st) (unat i) = Some (st_config st ! unat i)"
    "get (st_extra st) (unat i) = Some (st_extra st ! unat i)"
    using linv_lens(1,2) [OF L] Some by (simp_all add: get_def split: if_splits)
  have mk: "map mk_view (st_markets st) ! mi = (m_rows m, m_n_pos m)"
    using m(2) by (simp add: get_Some mk_view_def)
  show ?thesis
    using Some m config range cols
    by (simp add: store_position_ref_def pt_entry_def store_market_def labs_cells [OF m(2)] bal_cell_def
        sx_cell_def mk Let_def)
qed

section \<open>Properties\<close>

text \<open>
  C1: after any run, however it interleaves blocks, successful and failing mutations and earlier
  reorgs, unwinding to any block from the floor to the tip succeeds and leaves exactly the logical
  state that held at the end of that block; the tip is then that block and the invariant holds.
\<close>

theorem unwind_restores_history:
  assumes "store_run cfg st hs" and "store_floor st \<le> target" and "target \<le> store_tip st"
  shows "\<exists>st'. unwind_to st target = (Ok (), st') \<and>
    labs st' = hs ! (unat (store_tip st) - unat target) \<and> store_tip st' = target \<and> store_inv st'"
proof -
  have "reorg.remembers st hs" using store_run_remembers [OF assms(1)] by blast
  from remembers_unwind_to [OF this assms(2,3)] show ?thesis using remembers_inv by blast
qed

text \<open>
  A run for the witnesses: a store based at block 0 that opens block 1 and lists a reserve in it.
\<close>

definition sample_config :: store_config where
  "sample_config = \<lparr>sc_base = 0, sc_positions = 0, sc_markets = 0,
     sc_undo = \<lparr>uc_ops = 0, uc_extras = 0, uc_rows = 0\<rparr>\<rparr>"

definition sample_block :: state_store where
  "sample_block = (store_new sample_config)\<lparr>st_undo := ring_opened (st_undo (store_new sample_config)) 1\<rparr>"

definition sample_listed :: state_store where
  "sample_listed = apply_mutation (PushMarket 0 (market_row_blank 5 18)) sample_block"

lemma sample_new: "ur_tip (st_undo (store_new sample_config)) = 0"
  "ur_floor (st_undo (store_new sample_config)) = 0" "ring_inv (st_undo (store_new sample_config))"
  by (simp_all add: store_new_def sample_config_def ring_new_def ring_inv_def UNDO_DEPTH_def)

lemma sample_opened: "begin_block (store_new sample_config) 1 = (Ok (), sample_block)"
  using ring_begin_opened [OF sample_new(3), of 1] sample_new(1) by (simp add: begin_block_def sample_block_def)

lemma sample_block_run:
  "store_run sample_config sample_block [labs (store_new sample_config), labs (store_new sample_config)]"
  by (rule run_begin [OF run_new sample_opened])

lemma sample_listed_run:
  "store_run sample_config sample_listed [labs sample_listed, labs (store_new sample_config)]"
  unfolding sample_listed_def by (rule run_mutate [OF sample_block_run])

lemma sample_block_tip: "store_tip sample_block = 1" "store_floor sample_block = 0"
  using begin_block_Ok [OF _ sample_opened] store_inv_new [of sample_config] sample_new(2)
  by (auto simp: store_inv_def store_tip_def store_floor_def unat_0_iff)

lemma sample_listed_tip: "store_tip sample_listed = 1" "store_floor sample_listed = 0"
proof -
  have "store_inv sample_block" using store_run_remembers [OF sample_block_run] remembers_inv by blast
  from apply_mutation_ring(2,3) [OF this] sample_block_tip
  show "store_tip sample_listed = 1" "store_floor sample_listed = 0"
    unfolding sample_listed_def store_tip_def store_floor_def by (simp_all del: apply_mutation.simps)
qed

definition sample_key :: position_key where
  "sample_key = \<lparr>pk_protocol = 1, pk_market = 0, pk_user = 7\<rparr>"

definition sample_interned :: state_store where
  "sample_interned = apply_mutation (Intern sample_key) sample_listed"

definition sample_supplied :: state_store where
  "sample_supplied = apply_mutation (SetSupply 0 0 100) sample_interned"

lemma sample_supplied_run:
  "store_run sample_config sample_supplied [labs sample_supplied, labs (store_new sample_config)]"
  unfolding sample_supplied_def sample_interned_def by (rule run_mutate [OF run_mutate [OF sample_listed_run]])

lemma sample_fields:
  "sample_listed = sample_block
     \<lparr>st_undo := ring_push (st_undo sample_block) (UndoPushed 0 True),
      st_markets := [\<lparr>m_rows = [market_row_blank 5 18], m_stride = 4, m_n_pos = 0, m_supply = [],
                      m_debt = [], m_slot_extra = []\<rparr>],
      st_market_index := [0], st_writes := 1\<rparr>"
  "st_config sample_block = []" "st_extra sample_block = []" "st_positions sample_block = position_table_new"
proof -
  show "sample_listed = sample_block
     \<lparr>st_undo := ring_push (st_undo sample_block) (UndoPushed 0 True),
      st_markets := [\<lparr>m_rows = [market_row_blank 5 18], m_stride = 4, m_n_pos = 0, m_supply = [],
                      m_debt = [], m_slot_extra = []\<rparr>],
      st_market_index := [0], st_writes := 1\<rparr>"
    by (simp add: sample_listed_def sample_block_def store_new_def push_market_def market_idx_def get_def
        MAX_MARKETS_def MARKET_ID_LIMIT_def try_from_usize_def MAX_SLOTS_def usize_add_def USIZE_LIMIT_def
        resize_def ensure_stride_def market_new_def checked_next_multiple_of_def LINE_CELLS_def
        restride_def usize_mul_def NO_MARKET_def)
qed (simp_all add: sample_block_def store_new_def)

lemmas sample_eval = market_idx_def get_def pt_get_def pt_next_id_def pt_entry_def try_from_usize_def
  checked_add_def usize_add_def usize_mul_def USIZE_LIMIT_def resize_def NO_MARKET_def market_cell_def
  mask_with_def mask_contains_def checked_shl_def mask_EMPTY_def position_table_new_def

lemma sample_interned_fields:
  "sample_interned = sample_listed
     \<lparr>st_undo := ring_push (st_undo sample_listed) (UndoCreated 0),
      st_markets := [\<lparr>m_rows = [market_row_blank 5 18], m_stride = 4, m_n_pos = 1, m_supply = replicate 4 0,
                      m_debt = replicate 4 0, m_slot_extra = replicate 4 extra_ZERO\<rparr>],
      st_positions := pt_push position_table_new sample_key 0 0,
      st_config := [0], st_extra := [extra_ZERO], st_writes := 2\<rparr>"
  by (simp add: sample_interned_def sample_fields intern_def sample_key_def sample_eval)

lemma sample_supplied_fields:
  "sample_supplied = sample_interned
     \<lparr>st_undo := ring_push (st_undo sample_interned) (UndoSupply 0 0 False 0),
      st_markets := [\<lparr>m_rows = [market_row_blank 5 18], m_stride = 4, m_n_pos = 1,
                      m_supply = (replicate 4 0)[0 := 100],
                      m_debt = replicate 4 0, m_slot_extra = replicate 4 extra_ZERO\<rparr>],
      st_config := [1], st_writes := 3\<rparr>"
  "set_supply sample_interned 0 0 100 = (Ok (), sample_supplied)"
  by (simp_all add: sample_supplied_def sample_interned_fields sample_fields set_supply_def set_column_def
      sample_key_def sample_eval pt_push_def undo_column_def)

lemma sample_interned_run:
  "store_run sample_config sample_interned [labs sample_interned, labs (store_new sample_config)]"
  unfolding sample_interned_def by (rule run_mutate [OF sample_listed_run])

theorem unwind_restores_history_witness:
  "\<exists>st'. unwind_to sample_listed 0 = (Ok (), st') \<and> labs st' = labs (store_new sample_config) \<and>
     store_tip st' = 0 \<and> store_inv st'"
  using unwind_restores_history [OF sample_listed_run, of 0] by (simp add: sample_listed_tip)

text \<open>
  C13: after any run, \<open>unwind_to\<close> fails in two ways only, a target above the tip and one below the
  floor, each reported with its numbers, and a failure has touched nothing; the mid-way
  inconsistency that would leave a partially unwound store never occurs.
\<close>

theorem unwind_fails_clean:
  assumes "store_run cfg st hs" and "unwind_to st target = (Err e, st')"
  shows "st' = st \<and>
    (store_tip st < target \<and> e = TargetAboveTip target (store_tip st) \<or>
     target < store_floor st \<and> target \<le> store_tip st \<and>
       e = ReorgTooDeep (store_tip st - target) (store_tip st - store_floor st))"
proof -
  have R: "reorg.remembers st hs" using store_run_remembers [OF assms(1)] by blast
  then have "store_floor st \<le> store_tip st"
    by (auto simp: reorg.remembers_def phys_def ring_inv_def store_floor_def store_tip_def word_le_unat)
  moreover have "\<not> (store_floor st \<le> target \<and> target \<le> store_tip st)"
    using remembers_unwind_to [OF R, of target] assms(2) by auto
  ultimately show ?thesis
    using assms(2)
    by (auto simp: unwind_to_def store_tip_def store_floor_def saturating_sub_def Let_def not_less not_le
        split: if_splits)
qed

theorem unwind_fails_clean_witness:
  "unwind_to sample_listed 2 = (Err (TargetAboveTip 2 1), sample_listed)"
proof -
  have "\<exists>e st'. unwind_to sample_listed 2 = (Err e, st')"
    using sample_listed_tip by (simp add: unwind_to_def store_tip_def)
  then show ?thesis using unwind_fails_clean [OF sample_listed_run] sample_listed_tip by fastforce
qed

text \<open>
  C7: in every store a run reaches, a position's slot mask agrees with its balances: a bit is set
  exactly when the slot's supply or debt is nonzero, so a health computation that visits the mask's
  slots misses no balance and visits no empty slot.
\<close>

theorem config_mask_exact:
  assumes "store_run cfg st hs" and "get (st_config st) (unat pos) = Some config"
    and "store_supply st pos slot = Ok s" and "store_debt st pos slot = Ok d"
  shows "mask_contains config slot \<longleftrightarrow> s \<noteq> 0 \<or> d \<noteq> 0"
proof -
  have inv: "store_inv st" using store_run_remembers [OF assms(1)] remembers_inv by blast
  then have L: "linv (labs st)" by (simp add: store_inv_def)
  from assms(3,4) obtain e mi loc where
    e: "get (l_entries (labs st)) (unat pos) = Some e" "lresolve (labs st) pos slot = Some (mi, loc)"
    and sd: "s = l_bal (labs st) mi Supply loc (unat slot)" "d = l_bal (labs st) mi Debt loc (unat slot)"
    unfolding store_supply_col store_debt_col read_cell_labs(1) [OF inv]
    by (auto split: option.splits prod.splits)
  have mi: "l_index (labs st) (pk_market (pe_key e)) = Some mi" "loc = unat (pe_local e)"
    using e by (auto simp: lresolve_def bind_eq_Some_conv split: if_splits)
  have ex: "(\<exists>c. P c) \<longleftrightarrow> P Supply \<or> P Debt" for P :: "col \<Rightarrow> bool" by (metis col.exhaust)
  have "config = l_config (labs st) ! unat pos" using assms(2) by (simp add: get_Some)
  then show ?thesis
    using mask_exactD [OF linv_mask [OF L] e(1) mi(1), of "unat slot"] mi(2)
    by (simp add: mask_contains_bit sd ex)
qed

theorem config_mask_exact_witness:
  "mask_contains 1 0 \<longleftrightarrow> (100 :: u128) \<noteq> 0 \<or> (0 :: u128) \<noteq> 0"
proof (rule config_mask_exact [OF sample_supplied_run, of 0])
  show "get (st_config sample_supplied) (unat (0 :: u32)) = Some 1"
    by (simp add: sample_supplied_fields get_def)
  show "store_supply sample_supplied 0 0 = Ok 100" "store_debt sample_supplied 0 0 = Ok 0"
    by (simp_all add: sample_supplied_fields sample_interned_fields sample_fields store_supply_def
        store_debt_def read_cell_def store_market_def sample_key_def sample_eval pt_push_def)
qed

lemma set_column_reads:
  assumes "store_inv st" and "set_column c pos slot v st = (Ok (), st')"
  shows "read_cell (col_get c) st' pos slot = Ok v"
    and "(q, t) \<noteq> (pos, slot) \<or> c' \<noteq> c \<Longrightarrow> read_cell (col_get c') st' q t = read_cell (col_get c') st q t"
    and "store_slot_extra st' q t = store_slot_extra st q t"
proof -
  have "journaled st st'" using set_column_inv [OF assms] by simp
  then have inv': "store_inv st'" by (simp add: journaled_def)
  have P: "phys st" and L: "linv (labs st)" using assms(1) by (simp_all add: store_inv_def)
  obtain e mi loc config' where e: "get (l_entries (labs st)) (unat pos) = Some e"
    "lresolve (labs st) pos slot = Some (mi, loc)"
    "labs st' = (lset_bal mi loc c (unat slot) v (labs st))\<lparr>l_config := config'\<rparr>"
    using set_column_labs [OF assms] by auto
  have same: "l_entries (labs st') = l_entries (labs st)" "lresolve (labs st') q t = lresolve (labs st) q t"
    "l_sx (labs st') = l_sx (labs st)" for q t
    by (simp_all add: e(3) lset_bal_def lresolve_def)
  have bal: "l_bal (labs st') mj d j s =
      (if mj = mi \<and> d = c \<and> j = loc \<and> s = unat slot then v else l_bal (labs st) mj d j s)" for mj d j s
    by (simp add: e(3) lset_bal_def upd2_def)
  show "read_cell (col_get c) st' pos slot = Ok v"
    using e(1,2) unfolding read_cell_labs(1) [OF inv'] same by (simp add: bal del: labs_simps)
  show "store_slot_extra st' q t = store_slot_extra st q t"
    unfolding read_cell_labs(2) [OF inv'] read_cell_labs(2) [OF assms(1)] same by (rule refl)
  show "read_cell (col_get c') st' q t = read_cell (col_get c') st q t"
    if diff: "(q, t) \<noteq> (pos, slot) \<or> c' \<noteq> c"
  proof -
    have "l_bal (labs st') mj c' j (unat t) = l_bal (labs st) mj c' j (unat t)"
      if f: "get (l_entries (labs st)) (unat q) = Some f" "lresolve (labs st) q t = Some (mj, j)" for f mj j
    proof (cases "mj = mi \<and> c' = c \<and> j = loc \<and> unat t = unat slot")
      case True
      then have "unat q \<noteq> unat pos" using diff by (auto simp: word_unat_eq_iff)
      moreover have "l_index (labs st) (pk_market (pe_key f)) = Some mj" "j = unat (pe_local f)"
        "l_index (labs st) (pk_market (pe_key e)) = Some mi" "loc = unat (pe_local e)"
        using f e(1,2) by (auto simp: lresolve_def bind_eq_Some_conv split: if_splits)
      ultimately show ?thesis using linv_cells_apart [OF L f(1) e(1)] True by auto
    next
      case False
      then show ?thesis by (auto simp: bal)
    qed
    then show ?thesis
      unfolding read_cell_labs(1) [OF inv'] read_cell_labs(1) [OF assms(1)] same
      by (auto split: option.split)
  qed
qed

text \<open>
  a successful \<open>set_supply\<close> is read back by \<open>supply\<close> and changes no other supply cell, no
  debt cell and no per-slot extra of any position.
\<close>

theorem set_supply_read_back:
  assumes "store_run cfg st hs" and "set_supply st pos slot v = (Ok (), st')"
  shows "store_supply st' pos slot = Ok v \<and>
    ((q, t) \<noteq> (pos, slot) \<longrightarrow> store_supply st' q t = store_supply st q t) \<and>
    store_debt st' q t = store_debt st q t \<and> store_slot_extra st' q t = store_slot_extra st q t"
proof -
  have inv: "store_inv st" using store_run_remembers [OF assms(1)] remembers_inv by blast
  have run: "set_column Supply pos slot v st = (Ok (), st')" using assms(2) by (simp add: set_supply_def)
  show ?thesis
    unfolding store_supply_col store_debt_col
    using set_column_reads [OF inv run] by blast
qed

theorem set_supply_read_back_witness:
  "store_supply sample_supplied 0 0 = Ok 100 \<and> store_supply sample_supplied 0 1 = store_supply sample_interned 0 1"
  using set_supply_read_back [OF sample_interned_run sample_supplied_fields(2), of 0 1] by simp

text \<open>
  C34: a mutation that fails leaves the store exactly as it was, whichever setter it is and
  whatever its arguments: no cell, mask, row, index entry, journal record or counter moves.
\<close>

theorem failed_mutation_changes_nothing:
  assumes "store_run cfg st hs"
  shows "(\<forall>key e st'. intern st key = (Err e, st') \<longrightarrow> st' = st) \<and>
    (\<forall>p s v e st'. set_supply st p s v = (Err e, st') \<longrightarrow> st' = st) \<and>
    (\<forall>p s v e st'. set_debt st p s v = (Err e, st') \<longrightarrow> st' = st) \<and>
    (\<forall>p x e st'. set_extra st p x = (Err e, st') \<longrightarrow> st' = st) \<and>
    (\<forall>p s x e st'. set_slot_extra st p s x = (Err e, st') \<longrightarrow> st' = st) \<and>
    (\<forall>at row e st'. set_market st at row = (Err e, st') \<longrightarrow> st' = st) \<and>
    (\<forall>m row e st'. push_market st m row = (Err e, st') \<longrightarrow> st' = st)"
proof -
  have inv: "store_inv st" using store_run_remembers [OF assms] remembers_inv by blast
  show ?thesis
    using intern_inv [OF inv] set_column_inv [OF inv] set_extra_inv [OF inv] set_slot_extra_inv [OF inv]
      set_market_inv [OF inv] push_market_inv [OF inv]
    unfolding set_supply_def set_debt_def by fastforce
qed

theorem failed_mutation_changes_nothing_witness:
  "set_supply sample_interned 4 0 1 = (Err (UnknownPosition 4), sample_interned)"
proof -
  have "set_supply sample_interned 4 0 1 = (Err (UnknownPosition 4), snd (set_supply sample_interned 4 0 1))"
    by (simp add: set_supply_def set_column_def sample_interned_fields sample_eval pt_push_def)
  then show ?thesis using failed_mutation_changes_nothing [OF sample_interned_run] by metis
qed

text \<open>
  C35: what the readers answer is a function of the logical content: two stores reached by runs
  with the same content give the same borrowed view of every position, the same balances and
  extras, rows and key lookups, although their strides, index tables and rings may differ.
\<close>

theorem readers_see_content_only:
  assumes "store_run cfg st hs" and "store_run cfg' st' hs'" and "labs st = labs st'"
  shows "store_position_ref st i ts = store_position_ref st' i ts \<and>
    store_supply st i slot = store_supply st' i slot \<and> store_debt st i slot = store_debt st' i slot \<and>
    store_slot_extra st i slot = store_slot_extra st' i slot \<and> store_extra st i = store_extra st' i \<and>
    store_rows st market = store_rows st' market \<and> store_position_key st i = store_position_key st' i \<and>
    store_position_id st key = store_position_id st' key"
proof -
  have inv: "store_inv st" "store_inv st'"
    using store_run_remembers [OF assms(1)] store_run_remembers [OF assms(2)] remembers_inv by blast+
  have fields: "st_extra st = st_extra st'" "pt_entries (st_positions st) = pt_entries (st_positions st')"
    using assms(3) labs_simps(2,3) [of st] labs_simps(2,3) [of st'] by metis+
  show ?thesis
    unfolding position_ref_labs [OF inv(1)] position_ref_labs [OF inv(2)] store_supply_col store_debt_col
      read_cell_labs [OF inv(1)] read_cell_labs [OF inv(2)] store_rows_labs assms(3)
      store_extra_def store_position_key_def pt_entry_def fields position_lookup_labs [OF inv assms(3)]
    by simp
qed

theorem readers_see_content_only_witness:
  "store_position_ref sample_block 0 9 = store_position_ref (store_new sample_config) 0 9 \<and>
   store_rows sample_block 0 = store_rows (store_new sample_config) 0"
proof -
  have "labs sample_block = labs (store_new sample_config)" by (simp add: sample_block_def)
  from readers_see_content_only [OF sample_block_run run_new this] show ?thesis by blast
qed

end
