(* ===== verification/Time_Heap.thy ===== *)
theory Time_Heap
  imports Model_Types "HOL-Library.Product_Lexorder" "HOL-Library.Multiset"
begin

text \<open>
  The time-cross heap, \<^verbatim>\<open>crates/liq-engine/src/heap.rs\<close>: positions that cross from accrual alone,
  popped when due, with lazy deletion by generation. The standard library's \<^verbatim>\<open>BinaryHeap\<close> of
  \<^verbatim>\<open>Reverse\<close> entries is its contents in ascending order: \<^verbatim>\<open>peek\<close> and \<^verbatim>\<open>pop\<close> take the head, and
  equal entries are indistinguishable. The heap refines a schedule, a partial map from positions
  to crossing times; \<open>schedule_queue\<close> is that contract.
\<close>

type_synonym heap_entry = "timestamp \<times> position_id \<times> u32"

definition heap_NONE :: timestamp where
  "heap_NONE = - 1"

definition SLACK :: nat where
  "SLACK = 1024"

record time_cross_heap =
  tch_heap :: "heap_entry list"
  tch_gen :: "u32 list"
  tch_at :: "timestamp list"
  tch_stale_pops :: u64
  tch_compactions :: u64

definition tch_new :: time_cross_heap where
  "tch_new = \<lparr>tch_heap = [], tch_gen = [], tch_at = [], tch_stale_pops = 0, tch_compactions = 0\<rparr>"

definition tch_len :: "time_cross_heap \<Rightarrow> nat" where
  "tch_len h = length (tch_heap h)"

definition tch_is_empty :: "time_cross_heap \<Rightarrow> bool" where
  "tch_is_empty h \<longleftrightarrow> tch_heap h = []"

definition scheduled :: "time_cross_heap \<Rightarrow> position_id \<Rightarrow> timestamp option" where
  "scheduled h pid =
     (case get (tch_at h) (unat pid) of
        None \<Rightarrow> None
      | Some t \<Rightarrow> if t \<noteq> heap_NONE then Some t else None)"

definition tch_ensure :: "time_cross_heap \<Rightarrow> position_id \<Rightarrow> time_cross_heap" where
  "tch_ensure h pid =
     (let i = unat pid in
      if i \<ge> length (tch_gen h) then
        let n = usize_saturating_add i 1 in
        h\<lparr>tch_gen := resize (tch_gen h) n 0, tch_at := resize (tch_at h) n heap_NONE\<rparr>
      else h)"

definition tch_bump :: "time_cross_heap \<Rightarrow> position_id \<Rightarrow> u32 \<times> time_cross_heap" where
  "tch_bump h pid =
     (let i = unat pid;
          (g, h) = (case get (tch_gen h) i of
                      Some g \<Rightarrow> (g + 1, h\<lparr>tch_gen := (tch_gen h)[i := g + 1]\<rparr>)
                    | None \<Rightarrow> (0, h))
      in (g, h\<lparr>tch_at := (tch_at h)[i := heap_NONE]\<rparr>))"

definition tch_compact :: "time_cross_heap \<Rightarrow> time_cross_heap" where
  "tch_compact h =
     h\<lparr>tch_heap := filter (\<lambda>(_, pid, g). get (tch_gen h) (unat pid) = Some g) (tch_heap h),
       tch_compactions := saturating_add (tch_compactions h) 1\<rparr>"

definition tch_push :: "time_cross_heap \<Rightarrow> timestamp \<Rightarrow> position_id \<Rightarrow> time_cross_heap" where
  "tch_push h t pid =
     (let h = tch_ensure h pid in
      if scheduled h pid = Some t then h
      else
        let (gen, h) = tch_bump h pid;
            h = h\<lparr>tch_at := (tch_at h)[unat pid := t]\<rparr>;
            h = h\<lparr>tch_heap := insort (t, pid, gen) (tch_heap h)\<rparr>;
            bound = usize_saturating_add (usize_saturating_mul (length (tch_gen h)) 2) SLACK
        in if length (tch_heap h) > bound then tch_compact h else h)"

definition tch_invalidate :: "time_cross_heap \<Rightarrow> position_id \<Rightarrow> time_cross_heap" where
  "tch_invalidate h pid =
     (let h = tch_ensure h pid in
      if scheduled h pid \<noteq> None then snd (tch_bump h pid) else h)"

text \<open>\<open>Crossed::next\<close>; the loop discards stale entries until a live one or one not yet due.\<close>

function crossed_next ::
  "timestamp \<Rightarrow> time_cross_heap \<Rightarrow> position_id option \<times> time_cross_heap" where
  "crossed_next now h =
     (case tch_heap h of
        [] \<Rightarrow> (None, h)
      | (t, pid, g) # rest \<Rightarrow>
          if t > now then (None, h)
          else
            let h = h\<lparr>tch_heap := rest\<rparr>; i = unat pid in
            if get (tch_gen h) i = Some g then (Some pid, h\<lparr>tch_at := (tch_at h)[i := heap_NONE]\<rparr>)
            else crossed_next now (h\<lparr>tch_stale_pops := saturating_add (tch_stale_pops h) 1\<rparr>))"
  by pat_completeness auto
termination by (relation "measure (\<lambda>(now, h). length (tch_heap h))") auto

declare crossed_next.simps [simp del]

lemma crossed_next_shrinks:
  "crossed_next now h = (Some pid, h') \<Longrightarrow> length (tch_heap h') < length (tch_heap h)"
proof (induction now h rule: crossed_next.induct)
  case (1 now h)
  show ?case
  proof (cases "tch_heap h")
    case Nil
    then show ?thesis using "1.prems" by (simp add: crossed_next.simps [of now h])
  next
    case (Cons e rest)
    obtain t q g where e: "e = (t, q, g)" by (cases e) auto
    show ?thesis
      using "1.prems" "1.IH" [OF Cons e [symmetric] refl _ refl refl]
      by (auto simp: crossed_next.simps [of now h] Cons e Let_def split: if_splits)
  qed
qed

text \<open>The whole iteration, as its caller runs it.\<close>

function crossed_all :: "timestamp \<Rightarrow> time_cross_heap \<Rightarrow> position_id list \<times> time_cross_heap" where
  "crossed_all now h =
     (case crossed_next now h of
        (None, h) \<Rightarrow> ([], h)
      | (Some pid, h) \<Rightarrow> (case crossed_all now h of (pids, h) \<Rightarrow> (pid # pids, h)))"
  by pat_completeness auto
termination
  by (relation "measure (\<lambda>(now, h). length (tch_heap h))") (auto dest: crossed_next_shrinks [OF sym])

declare crossed_all.simps [simp del]

section \<open>The contract\<close>

text \<open>
  A queue of timed positions: \<open>sched\<close> is what is scheduled, \<open>room\<close> says that another push of a
  position is within the generation counter's range.
\<close>

locale schedule_queue =
  fixes inv :: "'h \<Rightarrow> bool" and sched :: "'h \<Rightarrow> position_id \<Rightarrow> timestamp option"
    and room :: "'h \<Rightarrow> position_id \<Rightarrow> bool" and none :: timestamp
    and push :: "'h \<Rightarrow> timestamp \<Rightarrow> position_id \<Rightarrow> 'h" and invalidate :: "'h \<Rightarrow> position_id \<Rightarrow> 'h"
    and drain :: "timestamp \<Rightarrow> 'h \<Rightarrow> position_id list \<times> 'h"
  assumes push_inv: "inv h \<Longrightarrow> room h p \<Longrightarrow> t \<noteq> none \<Longrightarrow> inv (push h t p)"
    and push_sched: "inv h \<Longrightarrow> room h p \<Longrightarrow> t \<noteq> none \<Longrightarrow> sched (push h t p) = (sched h)(p \<mapsto> t)"
    and invalidate_inv: "inv h \<Longrightarrow> room h p \<Longrightarrow> inv (invalidate h p)"
    and invalidate_sched: "inv h \<Longrightarrow> room h p \<Longrightarrow> sched (invalidate h p) = (sched h)(p := None)"
    and drain_inv: "inv h \<Longrightarrow> drain now h = (ps, h') \<Longrightarrow> inv h'"
    and drain_due: "inv h \<Longrightarrow> drain now h = (ps, h') \<Longrightarrow>
      distinct ps \<and> (p \<in> set ps \<longleftrightarrow> (\<exists>t \<le> now. sched h p = Some t)) \<and>
      sorted (map (\<lambda>p. (the (sched h p), p)) ps)"
    and drain_rest: "inv h \<Longrightarrow> drain now h = (ps, h') \<Longrightarrow>
      sched h' p = (case sched h p of Some t \<Rightarrow> if t \<le> now then None else Some t | None \<Rightarrow> None)"
begin

lemma drain_idle:
  assumes "inv h" and "drain now h = (ps, h')" and "drain now h' = (qs, h'')"
  shows "qs = []"
proof (rule ccontr)
  assume "qs \<noteq> []"
  then obtain p where "p \<in> set qs" by (cases qs) auto
  then obtain t where "t \<le> now" "sched h' p = Some t"
    using drain_due [OF drain_inv [OF assms(1,2)] assms(3)] by blast
  then show False using drain_rest [OF assms(1,2), of p] by (auto split: option.splits if_splits)
qed

lemma pushed_is_due:
  assumes "inv h" and "room h p" and "t \<noteq> none" and "t \<le> now" and "drain now (push h t p) = (ps, h')"
  shows "p \<in> set ps"
  using drain_due [OF push_inv [OF assms(1-3)] assms(5)] push_sched [OF assms(1-3)] assms(4) by simp

lemma invalidated_is_not_due:
  assumes "inv h" and "room h p" and "drain now (invalidate h p) = (ps, h')"
  shows "p \<notin> set ps"
  using drain_due [OF invalidate_inv [OF assms(1,2)] assms(3)] invalidate_sched [OF assms(1,2)] by simp

end

section \<open>Invariant\<close>

definition entry_live :: "u32 list \<Rightarrow> heap_entry \<Rightarrow> bool" where
  "entry_live gens = (\<lambda>(_, p, g). get gens (unat p) = Some g)"

definition live_at :: "time_cross_heap \<Rightarrow> position_id \<Rightarrow> heap_entry list" where
  "live_at h p = filter (\<lambda>e. fst (snd e) = p \<and> entry_live (tch_gen h) e) (tch_heap h)"

definition live_spec :: "time_cross_heap \<Rightarrow> position_id \<Rightarrow> heap_entry list" where
  "live_spec h p =
     (case scheduled h p of None \<Rightarrow> [] | Some t \<Rightarrow> [(t, p, tch_gen h ! unat p)])"

definition tch_wf :: "time_cross_heap \<Rightarrow> bool" where
  "tch_wf h \<longleftrightarrow>
     length (tch_at h) = length (tch_gen h) \<and> length (tch_gen h) \<le> 2 ^ 32 \<and> sorted (tch_heap h) \<and>
     (\<forall>t p g. (t, p, g) \<in> set (tch_heap h) \<longrightarrow>
        unat p < length (tch_gen h) \<and> unat g \<le> unat (tch_gen h ! unat p)) \<and>
     (\<forall>p. live_at h p = live_spec h p)"

definition tch_inv :: "time_cross_heap \<Rightarrow> bool" where
  "tch_inv h \<longleftrightarrow> tch_wf h \<and> length (tch_heap h) \<le> 2 * length (tch_gen h) + 1024"

definition tch_room :: "time_cross_heap \<Rightarrow> position_id \<Rightarrow> bool" where
  "tch_room h p \<longleftrightarrow> get (tch_gen h) (unat p) \<noteq> Some (- 1)"

lemma tch_wfD:
  assumes "tch_wf h"
  shows "length (tch_at h) = length (tch_gen h)" "length (tch_gen h) \<le> 2 ^ 32" "sorted (tch_heap h)"
    "(t, p, g) \<in> set (tch_heap h) \<Longrightarrow> unat p < length (tch_gen h) \<and> unat g \<le> unat (tch_gen h ! unat p)"
    "live_at h p = live_spec h p"
  using assms unfolding tch_wf_def by blast+

lemma tch_wf_new: "tch_wf tch_new"
  by (simp add: tch_wf_def tch_new_def live_at_def live_spec_def scheduled_def get_def)

lemma scheduled_Some: "scheduled h p = Some t \<longleftrightarrow> get (tch_at h) (unat p) = Some t \<and> t \<noteq> heap_NONE"
  by (auto simp: scheduled_def split: option.splits)

lemma scheduled_entry:
  assumes "tch_wf h" and "scheduled h p = Some t"
  shows "(t, p, tch_gen h ! unat p) \<in> set (tch_heap h)"
proof -
  have "(t, p, tch_gen h ! unat p) \<in> set (live_at h p)"
    using tch_wfD(5) [OF assms(1), of p] assms(2) by (simp add: live_spec_def)
  then show ?thesis by (simp add: live_at_def)
qed

lemma live_entry_scheduled:
  assumes "tch_wf h" and "(t, p, g) \<in> set (tch_heap h)" and "get (tch_gen h) (unat p) = Some g"
  shows "scheduled h p = Some t"
proof -
  have "(t, p, g) \<in> set (live_at h p)" using assms(2,3) by (simp add: live_at_def entry_live_def)
  then show ?thesis
    using tch_wfD(5) [OF assms(1), of p] by (auto simp: live_spec_def split: option.splits)
qed

text \<open>Growing the tables for an unseen position.\<close>

lemma tch_ensure_wf:
  assumes "tch_wf h"
  shows "tch_wf (tch_ensure h p)" and "scheduled (tch_ensure h p) = scheduled h"
    and "unat p < length (tch_gen (tch_ensure h p))" and "tch_heap (tch_ensure h p) = tch_heap h"
    and "length (tch_gen h) \<le> length (tch_gen (tch_ensure h p))"
    and "tch_room h p \<Longrightarrow> tch_room (tch_ensure h p) p"
proof -
  let ?h = "tch_ensure h p"
  have P: "unat p < 2 ^ 32" using unat_bound [of p] by simp
  consider "unat p < length (tch_gen h)" "?h = h"
    | "length (tch_gen h) \<le> unat p"
      "?h = h\<lparr>tch_gen := resize (tch_gen h) (Suc (unat p)) 0,
             tch_at := resize (tch_at h) (Suc (unat p)) heap_NONE\<rparr>"
    using P by (cases "unat p < length (tch_gen h)")
      (auto simp: tch_ensure_def usize_saturating_add_def USIZE_LIMIT_def Let_def)
  note cases = this
  show len: "unat p < length (tch_gen ?h)" and "tch_heap ?h = tch_heap h"
    and grow: "length (tch_gen h) \<le> length (tch_gen ?h)"
    by (cases rule: cases; simp)+
  have gen: "get (tch_gen ?h) i = Some g" if "get (tch_gen h) i = Some g" for i g
    using that by (cases rule: cases) (auto simp: get_def nth_resize split: if_splits)
  show sch: "scheduled ?h = scheduled h"
    using tch_wfD(1) [OF assms]
    by (cases rule: cases) (auto simp: scheduled_def get_def nth_resize fun_eq_iff split: if_splits)
  show "tch_room h p \<Longrightarrow> tch_room ?h p"
    by (cases rule: cases) (auto simp: tch_room_def get_def nth_resize)
  show "tch_wf ?h"
  proof (cases rule: cases)
    case 1
    then show ?thesis using assms by simp
  next
    case 2
    have nth: "tch_gen ?h ! i = tch_gen h ! i" if "i < length (tch_gen h)" for i
      using that 2 by (simp add: nth_resize)
    have live: "live_at ?h q = live_at h q" for q
    proof -
      have "entry_live (tch_gen ?h) e \<longleftrightarrow> entry_live (tch_gen h) e" if "e \<in> set (tch_heap h)" for e
      proof (cases e)
        case (fields t q g)
        then have "unat q < length (tch_gen h)" using tch_wfD(4) [OF assms] that by blast
        then show ?thesis using fields nth grow by (simp add: entry_live_def get_def)
      qed
      moreover have "tch_heap ?h = tch_heap h" using 2 by simp
      ultimately show ?thesis unfolding live_at_def by (metis (no_types, lifting) filter_cong)
    qed
    have "live_spec ?h q = live_spec h q" for q
    proof (cases "scheduled h q")
      case (Some t)
      then have "unat q < length (tch_gen h)"
        using tch_wfD(1) [OF assms] by (simp add: scheduled_Some get_Some)
      then show ?thesis by (simp add: live_spec_def sch nth Some)
    qed (simp add: live_spec_def sch)
    moreover have "unat q < length (tch_gen ?h) \<and> unat g \<le> unat (tch_gen ?h ! unat q)"
      if "(t, q, g) \<in> set (tch_heap ?h)" for t q g
    proof -
      have "unat q < length (tch_gen h) \<and> unat g \<le> unat (tch_gen h ! unat q)"
        using that 2 tch_wfD(4) [OF assms, of t q g] by simp
      then show ?thesis using grow nth by auto
    qed
    moreover have "length (tch_gen ?h) \<le> 2 ^ 32" using P 2 by simp
    ultimately show ?thesis
      using assms live 2(2) unfolding tch_wf_def by simp
  qed
qed

text \<open>A new generation for one position retires its entry and touches no other.\<close>

definition rescheduled :: "time_cross_heap \<Rightarrow> position_id \<Rightarrow> timestamp \<Rightarrow> heap_entry list \<Rightarrow> time_cross_heap" where
  "rescheduled h p t es =
     h\<lparr>tch_gen := (tch_gen h)[unat p := tch_gen h ! unat p + 1], tch_at := (tch_at h)[unat p := t],
       tch_heap := es\<rparr>"

lemma rescheduled_wf:
  assumes wf: "tch_wf h" and p: "unat p < length (tch_gen h)" and room: "tch_room h p"
    and es: "es = (if t = heap_NONE then tch_heap h
                   else insort (t, p, tch_gen h ! unat p + 1) (tch_heap h))"
  shows "tch_wf (rescheduled h p t es)"
    and "scheduled (rescheduled h p t es) =
           (scheduled h)(p := if t = heap_NONE then None else Some t)"
proof -
  let ?h = "rescheduled h p t es" and ?g = "tch_gen h ! unat p"
  have gen: "tch_gen ?h = (tch_gen h)[unat p := ?g + 1]" and heap: "tch_heap ?h = es"
    by (simp_all add: rescheduled_def)
  have "?g \<noteq> - 1" using room p by (simp add: tch_room_def get_def)
  then have up: "unat (?g + 1) = Suc (unat ?g)" by (rule unat_plus_one)
  show sch: "scheduled ?h = (scheduled h)(p := if t = heap_NONE then None else Some t)"
    using p tch_wfD(1) [OF wf]
    by (auto simp: scheduled_def rescheduled_def get_def fun_eq_iff nth_list_update word_unat_eq_iff)
  have old: "\<not> (fst (snd e) = p \<and> entry_live (tch_gen ?h) e)" if "e \<in> set (tch_heap h)" for e
    using tch_wfD(4) [OF wf, of "fst e" p "snd (snd e)"] that p up
    by (cases e) (auto simp: entry_live_def rescheduled_def get_def)
  have other: "entry_live (tch_gen ?h) e \<longleftrightarrow> entry_live (tch_gen h) e" if "fst (snd e) \<noteq> p" for e
    using that
    by (cases e) (auto simp: entry_live_def rescheduled_def get_def nth_list_update word_unat_eq_iff)
  have sor: "sorted (tch_heap h)" by (rule tch_wfD(3) [OF wf])
  have live: "live_at ?h q = live_spec ?h q" for q
  proof (cases "q = p")
    case True
    have "filter (\<lambda>e. fst (snd e) = p \<and> entry_live (tch_gen ?h) e) (tch_heap h) = []"
      using old by (simp add: filter_empty_conv)
    moreover have "entry_live (tch_gen ?h) (t, p, ?g + 1)"
      using p by (simp add: entry_live_def rescheduled_def get_def)
    ultimately show ?thesis
      using True p sor
      by (simp add: live_at_def live_spec_def sch filter_insort gen heap) (simp add: es filter_insort)
  next
    case False
    have "live_at ?h q = filter (\<lambda>e. fst (snd e) = q \<and> entry_live (tch_gen ?h) e) (tch_heap h)"
      using False by (simp add: live_at_def rescheduled_def es filter_insort_triv)
    also have "\<dots> = live_at h q"
      unfolding live_at_def using False other by (intro filter_cong) auto
    finally show ?thesis
      using False tch_wfD(5) [OF wf, of q]
      by (simp add: live_spec_def sch gen word_unat_eq_iff split: option.splits)
  qed
  have "unat q < length (tch_gen ?h) \<and> unat g \<le> unat (tch_gen ?h ! unat q)"
    if "(u, q, g) \<in> set (tch_heap ?h)" for u q g
    using that tch_wfD(4) [OF wf, of u q g] p up
    by (auto simp: rescheduled_def es nth_list_update set_insort_key split: if_splits)
  then show "tch_wf ?h"
    using wf live sor unfolding tch_wf_def by (auto simp: rescheduled_def es sorted_insort)
qed

lemma live_entries_bounded:
  assumes "tch_wf h"
  shows "length (filter (entry_live (tch_gen h)) (tch_heap h)) \<le> length (tch_gen h)"
proof -
  let ?l = "filter (entry_live (tch_gen h)) (tch_heap h)"
  have "count (mset (map (fst \<circ> snd) ?l)) p \<le> 1" for p
  proof -
    have "count (mset (map (fst \<circ> snd) ?l)) p = length (live_at h p)"
      unfolding count_mset count_list_eq_length_filter filter_map length_map live_at_def filter_filter
      by (simp add: comp_def eq_commute conj_commute)
    then show ?thesis
      using tch_wfD(5) [OF assms, of p] by (simp add: live_spec_def split: option.splits)
  qed
  then have "distinct (map (fst \<circ> snd) ?l)"
    by (metis count_mset_0_iff distinct_count_atmost_1 le_neq_implies_less less_one count_list_0_iff)
  then have "distinct (map (unat \<circ> fst \<circ> snd) ?l)"
    by (simp add: distinct_map inj_on_def comp_def) (metis word_unat_eq_iff)
  moreover have "set (map (unat \<circ> fst \<circ> snd) ?l) \<subseteq> {..< length (tch_gen h)}"
    using tch_wfD(4) [OF assms] by (auto simp: entry_live_def)
  ultimately show ?thesis
    by (metis card_lessThan card_mono distinct_card finite_lessThan length_map)
qed

lemma tch_compact_wf:
  assumes "tch_wf h"
  shows "tch_inv (tch_compact h)" and "scheduled (tch_compact h) = scheduled h"
proof -
  have heap: "tch_heap (tch_compact h) = filter (entry_live (tch_gen h)) (tch_heap h)"
    by (simp add: tch_compact_def entry_live_def)
  have gen: "tch_gen (tch_compact h) = tch_gen h" and at: "tch_at (tch_compact h) = tch_at h"
    by (simp_all add: tch_compact_def)
  show sch: "scheduled (tch_compact h) = scheduled h" by (simp add: scheduled_def at fun_eq_iff)
  have "live_at (tch_compact h) p = live_at h p" for p
    by (auto simp: live_at_def heap gen intro: filter_cong)
  then show "tch_inv (tch_compact h)"
    using assms live_entries_bounded [OF assms]
    unfolding tch_inv_def tch_wf_def
    by (auto simp: live_spec_def sch gen at heap
        intro: sorted_filter [where f = id, simplified] split: option.splits)
qed

text \<open>\<open>push\<close> and \<open>invalidate\<close>.\<close>

lemma tch_bump_eq:
  assumes "unat p < length (tch_gen h)"
  shows "tch_bump h p =
    (tch_gen h ! unat p + 1, rescheduled h p heap_NONE (tch_heap h))"
  using assms by (simp add: tch_bump_def rescheduled_def get_def Let_def)

lemma tch_push_sim:
  assumes inv: "tch_inv h" and room: "tch_room h p" and t: "t \<noteq> heap_NONE"
  shows "tch_inv (tch_push h t p) \<and> scheduled (tch_push h t p) = (scheduled h)(p \<mapsto> t)"
proof -
  let ?e = "tch_ensure h p"
  let ?r = "rescheduled ?e p t (insort (t, p, tch_gen ?e ! unat p + 1) (tch_heap ?e))"
  have wf: "tch_wf h" and len: "length (tch_heap h) \<le> 2 * length (tch_gen h) + 1024"
    using inv by (auto simp: tch_inv_def)
  note e = tch_ensure_wf [OF wf, of p]
  have elen: "length (tch_heap ?e) \<le> 2 * length (tch_gen ?e) + 1024" using len e(4,5) by simp
  have r: "tch_wf ?r" "scheduled ?r = (scheduled h)(p \<mapsto> t)"
    using rescheduled_wf [OF e(1) e(3) e(6) [OF room] refl, of t] t e(2) by simp_all
  have lim: "usize_saturating_add (usize_saturating_mul (length (tch_gen ?r)) 2) SLACK =
      2 * length (tch_gen ?r) + 1024"
    using tch_wfD(2) [OF r(1)]
    by (simp add: usize_saturating_add_def usize_saturating_mul_def USIZE_LIMIT_def SLACK_def)
  have push: "tch_push h t p =
      (if scheduled ?e p = Some t then ?e
       else if length (tch_heap ?r) > 2 * length (tch_gen ?r) + 1024 then tch_compact ?r else ?r)"
    using lim unfolding tch_push_def
    by (simp add: Let_def tch_bump_eq [OF e(3)]) (simp add: rescheduled_def)
  show ?thesis
    using e(1,2) elen r tch_compact_wf [OF r(1)]
    by (auto simp: push tch_inv_def fun_upd_idem_iff)
qed

lemma tch_invalidate_sim:
  assumes inv: "tch_inv h" and room: "tch_room h p"
  shows "tch_inv (tch_invalidate h p) \<and> scheduled (tch_invalidate h p) = (scheduled h)(p := None)"
proof -
  let ?e = "tch_ensure h p" and ?r = "rescheduled (tch_ensure h p) p heap_NONE (tch_heap (tch_ensure h p))"
  have wf: "tch_wf h" and len: "length (tch_heap h) \<le> 2 * length (tch_gen h) + 1024"
    using inv by (auto simp: tch_inv_def)
  note e = tch_ensure_wf [OF wf, of p]
  have r: "tch_wf ?r" "scheduled ?r = (scheduled h)(p := None)"
    using rescheduled_wf [OF e(1) e(3) e(6) [OF room] refl, of heap_NONE] e(2) by simp_all
  have "length (tch_heap ?e) \<le> 2 * length (tch_gen ?e) + 1024" using len e(4,5) by simp
  moreover have "length (tch_gen ?r) = length (tch_gen ?e)" "tch_heap ?r = tch_heap ?e"
    by (simp_all add: rescheduled_def)
  moreover have "tch_invalidate h p = (if scheduled h p \<noteq> None then ?r else ?e)"
    by (simp add: tch_invalidate_def Let_def tch_bump_eq [OF e(3)] e(2))
  ultimately show ?thesis
    using e(1,2) r by (auto simp: tch_inv_def fun_upd_idem_iff)
qed

text \<open>One step of the iteration.\<close>

lemma tch_pop_wf:
  assumes wf: "tch_wf h" and heap: "tch_heap h = (t, p, g) # rest"
    and stale: "get (tch_gen h) (unat p) \<noteq> Some g"
    and h': "h' = h\<lparr>tch_heap := rest, tch_stale_pops := n\<rparr>"
  shows "tch_wf h'" and "scheduled h' = scheduled h"
proof -
  show sch: "scheduled h' = scheduled h" by (simp add: h' scheduled_def fun_eq_iff)
  have "live_at h' q = live_at h q" for q
    using stale by (simp add: live_at_def h' heap entry_live_def)
  moreover have "live_spec h' q = live_spec h q" for q
    by (simp add: live_spec_def sch) (simp add: h' split: option.splits)
  ultimately show "tch_wf h'"
    using wf unfolding tch_wf_def by (auto simp: h' heap)
qed

lemma tch_take_wf:
  assumes wf: "tch_wf h" and heap: "tch_heap h = (t, p, g) # rest"
    and live: "get (tch_gen h) (unat p) = Some g"
    and h': "h' = h\<lparr>tch_heap := rest, tch_at := (tch_at h)[unat p := heap_NONE]\<rparr>"
  shows "tch_wf h'" and "scheduled h' = (scheduled h)(p := None)"
    and "scheduled h p = Some t"
proof -
  have p: "unat p < length (tch_gen h)" using live by (simp add: get_Some)
  show now: "scheduled h p = Some t"
    using live_entry_scheduled [OF wf _ live, of t] heap by simp
  show sch: "scheduled h' = (scheduled h)(p := None)"
    using p tch_wfD(1) [OF wf]
    by (auto simp: h' scheduled_def get_def fun_eq_iff nth_list_update word_unat_eq_iff)
  have "live_at h' q = live_spec h' q" for q
  proof (cases "q = p")
    case True
    have "live_at h p = (t, p, g) # live_at h' p"
      using live by (simp add: live_at_def h' heap entry_live_def)
    then show ?thesis using tch_wfD(5) [OF wf, of p] True by (simp add: live_spec_def sch now)
  next
    case False
    then have "live_at h' q = live_at h q" by (simp add: live_at_def h' heap)
    then show ?thesis using tch_wfD(5) [OF wf, of q] False
      by (simp add: live_spec_def sch) (simp add: h' split: option.splits)
  qed
  then show "tch_wf h'"
    using wf unfolding tch_wf_def by (auto simp: h' heap)
qed

lemma head_is_earliest:
  assumes "tch_wf h" and "tch_heap h = (t, p, g) # rest" and "scheduled h q = Some u"
  shows "(t, p) \<le> (u, q)"
proof -
  have "(u, q, tch_gen h ! unat q) \<in> set ((t, p, g) # rest)"
    using scheduled_entry [OF assms(1,3)] assms(2) by simp
  moreover have "sorted ((t, p, g) # rest)" using tch_wfD(3) [OF assms(1)] assms(2) by simp
  ultimately have "(t, p, g) \<le> (u, q, tch_gen h ! unat q)" by auto
  then show ?thesis by (auto simp: less_eq_prod_def less_prod_def)
qed

definition crossed_spec ::
  "timestamp \<Rightarrow> time_cross_heap \<Rightarrow> position_id option \<Rightarrow> time_cross_heap \<Rightarrow> bool" where
  "crossed_spec now h r h' \<longleftrightarrow>
     tch_inv h' \<and>
     (case r of
        None \<Rightarrow> scheduled h' = scheduled h \<and> (\<forall>q u. scheduled h q = Some u \<longrightarrow> now < u)
      | Some p \<Rightarrow> scheduled h' = (scheduled h)(p := None) \<and>
          (\<exists>t \<le> now. scheduled h p = Some t \<and> (\<forall>q u. scheduled h q = Some u \<longrightarrow> (t, p) \<le> (u, q))))"

lemma crossed_next_sim:
  "tch_inv h \<Longrightarrow> crossed_next now h = (r, h') \<Longrightarrow> crossed_spec now h r h'"
proof (induction now h rule: crossed_next.induct)
  case (1 now h)
  have wf: "tch_wf h" and len: "length (tch_heap h) \<le> 2 * length (tch_gen h) + 1024"
    using "1.prems"(1) by (auto simp: tch_inv_def)
  show ?case
  proof (cases "tch_heap h")
    case Nil
    then have "scheduled h q = None" for q using scheduled_entry [OF wf, of q] by (cases "scheduled h q") auto
    then show ?thesis
      using "1.prems" Nil by (auto simp: crossed_next.simps [of now h] crossed_spec_def)
  next
    case (Cons e rest)
    obtain t p g where e: "e = (t, p, g)" by (cases e) auto
    note heap = Cons [unfolded e] and early = head_is_earliest [OF wf Cons [unfolded e]]
    consider "now < t" | "\<not> now < t" "get (tch_gen h) (unat p) = Some g"
      | "\<not> now < t" "get (tch_gen h) (unat p) \<noteq> Some g" by blast
    then show ?thesis
    proof cases
      case 1
      then show ?thesis
        using "1.prems" heap early
        by (fastforce simp: crossed_next.simps [of now h] crossed_spec_def less_eq_prod_def)
    next
      case 2
      then show ?thesis
        using "1.prems" heap early tch_take_wf [OF wf heap 2(2) refl] len
        by (auto simp: crossed_next.simps [of now h] crossed_spec_def tch_inv_def Let_def)
    next
      case 3
      let ?h = "h\<lparr>tch_heap := rest, tch_stale_pops := saturating_add (tch_stale_pops h) 1\<rparr>"
      have next': "crossed_next now ?h = (r, h')"
        using "1.prems"(2) 3 heap by (simp add: crossed_next.simps [of now h] Let_def)
      note pop = tch_pop_wf [OF wf heap 3(2) refl, of "saturating_add (tch_stale_pops h) 1"]
      have "tch_inv ?h" using pop(1) len heap by (simp add: tch_inv_def)
      then have "crossed_spec now ?h r h'"
        using "1.IH" [OF Cons e [symmetric] refl 3(1) refl refl] 3(2) next' by simp
      then show ?thesis unfolding crossed_spec_def pop(2) .
    qed
  qed
qed

text \<open>The drained positions, in order, and what stays.\<close>

definition due_at :: "timestamp \<Rightarrow> (position_id \<Rightarrow> timestamp option) \<Rightarrow> position_id list \<Rightarrow> bool" where
  "due_at now sch ps \<longleftrightarrow>
     distinct ps \<and> (\<forall>p. p \<in> set ps \<longleftrightarrow> (\<exists>t \<le> now. sch p = Some t)) \<and>
     sorted (map (\<lambda>p. (the (sch p), p)) ps)"

definition not_yet :: "timestamp \<Rightarrow> (position_id \<Rightarrow> timestamp option) \<Rightarrow> position_id \<Rightarrow> timestamp option" where
  "not_yet now sch p = (case sch p of Some t \<Rightarrow> if t \<le> now then None else Some t | None \<Rightarrow> None)"

lemma due_at_Cons:
  assumes "due_at now (sch(p := None)) ps" and "t \<le> now" and "sch p = Some t"
    and "\<And>q u. sch q = Some u \<Longrightarrow> (t, p) \<le> (u, q)"
  shows "due_at now sch (p # ps)"
proof -
  have mem: "q \<in> set ps \<longleftrightarrow> q \<noteq> p \<and> (\<exists>t \<le> now. sch q = Some t)" for q
    using assms(1) by (simp add: due_at_def)
  have "map (\<lambda>q. (the ((sch(p := None)) q), q)) ps = map (\<lambda>q. (the (sch q), q)) ps"
    using mem by (intro map_cong) auto
  then have "sorted (map (\<lambda>q. (the (sch q), q)) ps)" and "distinct ps"
    using assms(1) unfolding due_at_def by metis+
  moreover have "(t, p) \<le> (the (sch q), q)" if "q \<in> set ps" for q
    using mem that assms(4) by force
  ultimately show ?thesis
    using mem assms(2,3) by (auto simp: due_at_def)
qed

lemma crossed_all_sim:
  "tch_inv h \<Longrightarrow> crossed_all now h = (ps, h') \<Longrightarrow>
     tch_inv h' \<and> due_at now (scheduled h) ps \<and> scheduled h' = not_yet now (scheduled h)"
proof (induction now h arbitrary: ps h' rule: crossed_all.induct)
  case (1 now h)
  obtain r h1 where step: "crossed_next now h = (r, h1)" by (cases "crossed_next now h")
  note spec = crossed_next_sim [OF "1.prems"(1) step]
  show ?case
  proof (cases r)
    case None
    then show ?thesis
      using "1.prems"(2) spec step
      by (fastforce simp: crossed_all.simps [of now h] crossed_spec_def due_at_def not_yet_def fun_eq_iff
          split: option.splits)
  next
    case (Some p)
    obtain qs h2 where rest: "crossed_all now h1 = (qs, h2)" by (cases "crossed_all now h1")
    have res: "ps = p # qs" "h' = h2"
      using "1.prems"(2) step rest Some by (simp_all add: crossed_all.simps [of now h])
    obtain t where t: "t \<le> now" "scheduled h p = Some t"
        "\<And>q u. scheduled h q = Some u \<Longrightarrow> (t, p) \<le> (u, q)"
        and sch: "tch_inv h1" "scheduled h1 = (scheduled h)(p := None)"
      using spec Some by (auto simp: crossed_spec_def)
    have "tch_inv h2 \<and> due_at now (scheduled h1) qs \<and> scheduled h2 = not_yet now (scheduled h1)"
      using "1.IH" [OF step [symmetric] Some sch(1) rest] .
    then show ?thesis
      using due_at_Cons [OF _ t(1), of "scheduled h" p qs] t sch(2) res
      by (auto simp: not_yet_def fun_eq_iff)
  qed
qed

interpretation tq: schedule_queue tch_inv scheduled tch_room heap_NONE tch_push tch_invalidate crossed_all
proof unfold_locales
  fix h now ps h' p
  assume *: "tch_inv h" "crossed_all now h = (ps, h')"
  note sim = crossed_all_sim [OF *]
  show "tch_inv h'" using sim by blast
  show "distinct ps \<and> (p \<in> set ps \<longleftrightarrow> (\<exists>t \<le> now. scheduled h p = Some t)) \<and>
      sorted (map (\<lambda>p. (the (scheduled h p), p)) ps)"
    using sim unfolding due_at_def by blast
  show "scheduled h' p =
      (case scheduled h p of Some t \<Rightarrow> if t \<le> now then None else Some t | None \<Rightarrow> None)"
    using sim by (simp add: not_yet_def)
qed (use tch_push_sim tch_invalidate_sim in blast)+

section \<open>Histories\<close>

text \<open>
  A history of the heap's operations, and the same history on a plain map from positions to due
  times. A position's generation rises by at most one per operation, so a history shorter than the
  generation counter never wraps it.
\<close>

datatype tch_op = Push timestamp position_id | Invalidate position_id | Drain timestamp

fun tch_step :: "tch_op \<Rightarrow> time_cross_heap \<Rightarrow> time_cross_heap" where
  "tch_step (Push t p) h = tch_push h t p"
| "tch_step (Invalidate p) h = tch_invalidate h p"
| "tch_step (Drain now) h = snd (crossed_all now h)"

fun sched_step :: "tch_op \<Rightarrow> (position_id \<Rightarrow> timestamp option) \<Rightarrow> (position_id \<Rightarrow> timestamp option)" where
  "sched_step (Push t p) m = m(p \<mapsto> t)"
| "sched_step (Invalidate p) m = m(p := None)"
| "sched_step (Drain now) m = not_yet now m"

fun representable :: "tch_op \<Rightarrow> bool" where
  "representable (Push t _) \<longleftrightarrow> t \<noteq> heap_NONE"
| "representable _ \<longleftrightarrow> True"

definition tch_run :: "tch_op list \<Rightarrow> time_cross_heap" where
  "tch_run ops = fold tch_step ops tch_new"

definition gens_le :: "nat \<Rightarrow> time_cross_heap \<Rightarrow> bool" where
  "gens_le n h \<longleftrightarrow> (\<forall>g \<in> set (tch_gen h). unat g \<le> n)"

lemma set_resize: "set (resize xs n v) \<subseteq> insert v (set xs)"
  by (auto simp: resize_def dest: in_set_takeD)

lemma tch_ensure_gens: "gens_le n h \<Longrightarrow> gens_le n (tch_ensure h p)"
  using set_resize by (fastforce simp: gens_le_def tch_ensure_def Let_def)

lemma unat_plus_one_le: "unat (g + 1 :: 'a::len word) \<le> Suc (unat g)"
  by (cases "g = - 1") (simp_all add: unat_plus_one)

lemma tch_bump_gens:
  assumes "gens_le n h"
  shows "gens_le (Suc n) (snd (tch_bump h p))"
proof -
  have "unat x \<le> Suc n" if "x \<in> set ((tch_gen h)[unat p := tch_gen h ! unat p + 1])" for x
  proof (cases "unat p < length (tch_gen h)")
    case True
    then have "x = tch_gen h ! unat p + 1 \<or> x \<in> set (tch_gen h)"
      using that set_update_subset_insert by fastforce
    moreover have "unat (tch_gen h ! unat p) \<le> n" using True assms by (simp add: gens_le_def)
    ultimately show ?thesis
      using assms unat_plus_one_le [of "tch_gen h ! unat p"] by (auto simp: gens_le_def)
  next
    case False
    then show ?thesis using that assms by (fastforce simp: gens_le_def list_update_beyond)
  qed
  then show ?thesis
    using assms
    by (auto simp: tch_bump_def gens_le_def Let_def get_def split: option.splits if_splits)
qed

lemma gens_le_cong: "tch_gen h' = tch_gen h \<Longrightarrow> gens_le n h' = gens_le n h"
  by (simp add: gens_le_def)

lemma crossed_next_gen: "tch_gen (snd (crossed_next now h)) = tch_gen h"
proof (induction now h rule: crossed_next.induct)
  case (1 now h)
  show ?case
  proof (cases "tch_heap h")
    case (Cons e rest)
    obtain t q g where e: "e = (t, q, g)" by (cases e) auto
    show ?thesis
      using "1.IH" [OF Cons e [symmetric] refl _ refl refl]
      by (simp add: crossed_next.simps [of now h] Cons e Let_def)
  qed (simp add: crossed_next.simps [of now h])
qed

lemma crossed_all_gen: "tch_gen (snd (crossed_all now h)) = tch_gen h"
proof (induction now h rule: crossed_all.induct)
  case (1 now h)
  then show ?case
    using crossed_next_gen [of now h]
    by (simp add: crossed_all.simps [of now h] split: prod.split option.split) force
qed

lemma tch_step_gens:
  assumes "gens_le n h"
  shows "gens_le (Suc n) (tch_step op h)"
proof -
  have mono: "gens_le (Suc n) h'" if "gens_le n h'" for h' using that by (auto simp: gens_le_def)
  note bump = tch_bump_gens [OF tch_ensure_gens [OF assms]]
  show ?thesis
  proof (cases op)
    case (Push t p)
    then show ?thesis
      using mono [OF tch_ensure_gens [OF assms, of p]] bump [of p p]
      by (auto simp: tch_push_def tch_compact_def Let_def gens_le_def split: prod.split)
  next
    case (Invalidate p)
    then show ?thesis
      using mono [OF tch_ensure_gens [OF assms, of p]] bump [of p p] by (auto simp: tch_invalidate_def Let_def)
  next
    case (Drain now)
    then show ?thesis using mono [OF assms] by (simp add: gens_le_cong [OF crossed_all_gen])
  qed
qed

lemma gens_le_room:
  assumes "gens_le n h" and "n < 2 ^ 32 - 1"
  shows "tch_room h p"
proof -
  have "unat (- 1 :: u32) = 2 ^ 32 - 1" by (simp add: unsigned_minus_1_eq_mask mask_eq_exp_minus_1)
  then show ?thesis
    using assms nth_mem [of "unat p" "tch_gen h"]
    by (fastforce simp: tch_room_def gens_le_def get_Some)
qed

lemma tch_step_sim:
  assumes "tch_inv h" and "\<And>p. tch_room h p" and "representable op"
  shows "tch_inv (tch_step op h) \<and> scheduled (tch_step op h) = sched_step op (scheduled h)"
proof (cases op)
  case (Push t p)
  then show ?thesis using tch_push_sim assms by simp
next
  case (Invalidate p)
  then show ?thesis using tch_invalidate_sim assms by simp
next
  case (Drain now)
  obtain ps h' where "crossed_all now h = (ps, h')" by (cases "crossed_all now h")
  then show ?thesis using crossed_all_sim [OF assms(1)] Drain by simp
qed

lemma tch_fold_sim:
  assumes "tch_inv h" and "gens_le n h" and "n + length ops < 2 ^ 32" and "list_all representable ops"
  shows "tch_inv (fold tch_step ops h) \<and>
    scheduled (fold tch_step ops h) = fold sched_step ops (scheduled h)"
  using assms
proof (induction ops arbitrary: h n)
  case (Cons op ops)
  have "tch_room h p" for p using gens_le_room [OF Cons.prems(2)] Cons.prems(3) by simp
  then have "tch_inv (tch_step op h)" "scheduled (tch_step op h) = sched_step op (scheduled h)"
    using tch_step_sim Cons.prems by auto
  then show ?case
    using Cons.IH [OF _ tch_step_gens [OF Cons.prems(2), of op]] Cons.prems(3,4) by simp
qed simp

lemma tch_run_sim:
  assumes "length ops < 2 ^ 32" and "list_all representable ops"
  shows "tch_inv (tch_run ops) \<and> scheduled (tch_run ops) = fold sched_step ops Map.empty"
proof -
  have "tch_inv tch_new" using tch_wf_new by (simp add: tch_inv_def tch_new_def)
  moreover have "gens_le 0 tch_new" by (simp add: gens_le_def tch_new_def)
  moreover have "scheduled tch_new = Map.empty"
    by (simp add: scheduled_def tch_new_def get_def fun_eq_iff)
  ultimately show ?thesis using tch_fold_sim [of tch_new 0 ops] assms by (simp add: tch_run_def)
qed

section \<open>Properties\<close>

text \<open>
  C6. After any history of pushes, invalidations and drains (shorter than the generation counter's
  range, no push at the sentinel time), iterating \<^verbatim>\<open>crossed(now)\<close> yields exactly the positions whose
  last scheduled time is due, each once, earliest first; those are then unscheduled and every other
  position keeps its time.
\<close>

theorem heap_drains_exactly_due:
  assumes "length ops < 2 ^ 32" and "list_all representable ops"
    and "crossed_all now (tch_run ops) = (ps, h')"
  shows "due_at now (fold sched_step ops Map.empty) ps \<and>
    scheduled h' = not_yet now (fold sched_step ops Map.empty)"
  using crossed_all_sim [OF _ assms(3)] tch_run_sim [OF assms(1,2)] by simp

theorem heap_drains_exactly_due_witness:
  "\<exists>ps h'. crossed_all 10 (tch_run [Push 9 0, Push 7 2, Push 20 1, Push 5 0, Invalidate 3]) = (ps, h') \<and>
     due_at 10 (fold sched_step [Push 9 0, Push 7 2, Push 20 1, Push 5 0, Invalidate 3] Map.empty) ps \<and>
     scheduled h' 1 = Some 20"
proof -
  let ?ops = "[Push 9 0, Push 7 2, Push 20 1, Push 5 0, Invalidate 3]"
  obtain ps h' where run: "crossed_all 10 (tch_run ?ops) = (ps, h')" by fastforce
  have "list_all representable ?ops" by (simp add: heap_NONE_def)
  then show ?thesis
    using heap_drains_exactly_due [OF _ _ run] run by (simp add: not_yet_def)
qed

text \<open>
  The heap is bounded whatever the history: stale entries never make it longer than twice the
  tracked positions plus the slack of 1024.
\<close>

theorem heap_len_bounded:
  assumes "length ops < 2 ^ 32" and "list_all representable ops"
  shows "tch_len (tch_run ops) \<le> 2 * length (tch_gen (tch_run ops)) + SLACK"
  using tch_run_sim [OF assms] by (simp add: tch_inv_def tch_len_def SLACK_def)

theorem heap_len_bounded_witness:
  "tch_len (tch_run [Push 9 0, Push 5 0]) \<le> 2 * length (tch_gen (tch_run [Push 9 0, Push 5 0])) + SLACK"
  using heap_len_bounded [of "[Push 9 0, Push 5 0]"] by (simp add: heap_NONE_def)

text \<open>
  An invalidated position is not yielded, and once the due positions have been yielded a
  second pass at the same time yields nothing: no crossing is reported twice.
\<close>

theorem heap_no_stale_crossing:
  assumes "length ops < 2 ^ 32 - 1" and "list_all representable ops"
    and "crossed_all now (tch_invalidate (tch_run ops) p) = (ps, h')"
  shows "p \<notin> set ps \<and> fst (crossed_all now h') = []"
proof -
  have "tch_inv (tch_run (ops @ [Invalidate p]))" and "tch_inv (tch_run ops)"
    using tch_run_sim [of "ops @ [Invalidate p]"] tch_run_sim [of ops] assms(1,2) by simp_all
  moreover have "fold sched_step (ops @ [Invalidate p]) Map.empty p = None" by simp
  ultimately show ?thesis
    using tq.drain_idle [OF _ assms(3)] tq.drain_due [OF _ assms(3), of p]
      tch_run_sim [of "ops @ [Invalidate p]"] assms(1,2)
    by (cases "crossed_all now h'") (auto simp: tch_run_def)
qed

theorem heap_no_stale_crossing_witness:
  "0 \<notin> set (fst (crossed_all 10 (tch_invalidate (tch_run [Push 9 0, Push 4 1]) 0)))"
  using heap_no_stale_crossing [of "[Push 9 0, Push 4 1]" 10 0] by (simp add: heap_NONE_def prod_eq_iff)

end
