(* ===== verification/Band.thy ===== *)
theory Band
  imports Model_Types
begin

text \<open>
  The band manager, \<^verbatim>\<open>crates/liq-engine/src/band.rs\<close>: the band of every position and, for the bands
  the tick loop walks, a dense membership list with swap removal. The lists refine the band map:
  a walked band's list holds exactly the positions of that band, each once.
\<close>

definition HOT_BELOW :: ray where
  "HOT_BELOW = Ray 1020000000000000000000000000"

definition WARM_BELOW :: ray where
  "WARM_BELOW = Ray 1150000000000000000000000000"

definition COOL_BELOW :: ray where
  "COOL_BELOW = Ray 1500000000000000000000000000"

definition classify :: "ray \<Rightarrow> bool \<Rightarrow> band" where
  "classify hf has_debt =
     (if \<not> has_debt then Dead
      else if ray_raw hf < ray_raw HOT_BELOW then Hot
      else if ray_raw hf < ray_raw WARM_BELOW then Warm
      else if ray_raw hf < ray_raw COOL_BELOW then Cool
      else Cold)"

fun set_of :: "band \<Rightarrow> nat option" where
  "set_of Hot = Some 0"
| "set_of Warm = Some 1"
| "set_of Cool = Some 2"
| "set_of Unfundable = Some 3"
| "set_of Cold = None"
| "set_of Dead = None"

definition NO_SLOT :: u32 where
  "NO_SLOT = - 1"

record band_manager =
  bm_band :: "band option list"
  bm_slot :: "u32 list"
  bm_sets :: "position_id list list"

definition band_manager_new :: band_manager where
  "band_manager_new = \<lparr>bm_band = [], bm_slot = [], bm_sets = [[], [], [], []]\<rparr>"

definition bm_len :: "band_manager \<Rightarrow> nat" where
  "bm_len m = length (bm_band m)"

definition bm_is_empty :: "band_manager \<Rightarrow> bool" where
  "bm_is_empty m \<longleftrightarrow> bm_band m = []"

definition band_of :: "band_manager \<Rightarrow> position_id \<Rightarrow> band option" where
  "band_of m pid = Option.bind (get (bm_band m) (unat pid)) (\<lambda>b. b)"

definition members :: "band_manager \<Rightarrow> band \<Rightarrow> position_id list" where
  "members m b =
     (case Option.bind (set_of b) (get (bm_sets m)) of None \<Rightarrow> [] | Some ps \<Rightarrow> ps)"

text \<open>The three phases of \<open>BandManager::set\<close>: grow the tables, leave the old list, join the new.\<close>

definition bm_ensure :: "band_manager \<Rightarrow> position_id \<Rightarrow> band_manager" where
  "bm_ensure m pid =
     (let i = unat pid in
      if i \<ge> length (bm_band m) then
        let n = usize_saturating_add i 1 in
        m\<lparr>bm_band := resize (bm_band m) n None, bm_slot := resize (bm_slot m) n NO_SLOT\<rparr>
      else m)"

definition bm_leave :: "band_manager \<Rightarrow> position_id \<Rightarrow> nat \<Rightarrow> band_manager" where
  "bm_leave m pid si =
     (let at = case get (bm_slot m) (unat pid) of None \<Rightarrow> NO_SLOT | Some s \<Rightarrow> s in
      case get (bm_sets m) si of
        None \<Rightarrow> m
      | Some ps \<Rightarrow>
          (case pop ps of
             None \<Rightarrow> m
           | Some (lst, ps) \<Rightarrow>
               let at = unat at in
               if at < length ps then
                 m\<lparr>bm_sets := (bm_sets m)[si := ps[at := lst]],
                   bm_slot := (bm_slot m)[unat lst := of_nat at]\<rparr>
               else m\<lparr>bm_sets := (bm_sets m)[si := ps]\<rparr>))"

definition bm_join :: "band_manager \<Rightarrow> position_id \<Rightarrow> band \<Rightarrow> band_manager" where
  "bm_join m pid new =
     (let i = unat pid;
          (slot, m) =
            (case Option.bind (set_of new) (\<lambda>si. map_option (Pair si) (get (bm_sets m) si)) of
               Some (si, ps) \<Rightarrow>
                 (case try_from_usize (length ps) of Some at \<Rightarrow> at | None \<Rightarrow> NO_SLOT,
                  m\<lparr>bm_sets := (bm_sets m)[si := ps @ [pid]]\<rparr>)
             | None \<Rightarrow> (NO_SLOT, m))
      in m\<lparr>bm_band := (bm_band m)[i := Some new], bm_slot := (bm_slot m)[i := slot]\<rparr>)"

definition bm_set :: "band_manager \<Rightarrow> position_id \<Rightarrow> band \<Rightarrow> band_manager" where
  "bm_set m pid new =
     (let m = bm_ensure m pid;
          old = band_of m pid
      in if old = Some new then m
         else bm_join (case Option.bind old set_of of Some si \<Rightarrow> bm_leave m pid si | None \<Rightarrow> m) pid new)"

section \<open>Invariant\<close>

text \<open>
  \<open>lists_for m f\<close>: the lists hold the positions that \<open>f\<close> places in them, at the index their slot
  says. One equivalence covers membership, uniqueness and the back pointers.
\<close>

definition slot_of :: "band_manager \<Rightarrow> position_id \<Rightarrow> nat" where
  "slot_of m p = unat (bm_slot m ! unat p)"

definition lists_for :: "band_manager \<Rightarrow> (position_id \<Rightarrow> nat option) \<Rightarrow> bool" where
  "lists_for m f \<longleftrightarrow>
     (\<forall>p si. f p = Some si \<longrightarrow> unat p < length (bm_slot m)) \<and>
     (\<forall>si < 4. \<forall>k p. get (bm_sets m ! si) k = Some p \<longleftrightarrow> f p = Some si \<and> slot_of m p = k)"

definition place :: "band_manager \<Rightarrow> position_id \<Rightarrow> nat option" where
  "place m p = Option.bind (band_of m p) set_of"

definition bm_inv :: "band_manager \<Rightarrow> bool" where
  "bm_inv m \<longleftrightarrow> length (bm_slot m) = length (bm_band m) \<and> length (bm_sets m) = 4 \<and> lists_for m (place m)"

lemma set_of_less: "set_of b = Some si \<Longrightarrow> si < 4"
  by (cases b) auto

lemma set_of_inj: "set_of b = Some si \<Longrightarrow> set_of c = Some si \<Longrightarrow> b = c"
  by (cases b; cases c) auto

lemma place_less: "place m p = Some si \<Longrightarrow> si < 4"
  by (auto simp: place_def set_of_less Option.bind_eq_Some_conv)

lemma bm_inv_new: "bm_inv band_manager_new"
proof -
  have "si < 4 \<Longrightarrow> [[], [], [], []] ! si = ([] :: position_id list)" for si :: nat
    by (auto simp: less_Suc_eq numeral_eq_Suc)
  then show ?thesis
    by (simp add: bm_inv_def band_manager_new_def lists_for_def place_def band_of_def get_def)
qed

lemma lists_for_at:
  assumes "lists_for m f" and "f p = Some si" and "si < 4"
  shows "get (bm_sets m ! si) (slot_of m p) = Some p"
  using assms by (simp add: lists_for_def)

lemma lists_for_distinct:
  assumes "lists_for m f" and "si < 4"
  shows "distinct (bm_sets m ! si)" and "p \<in> set (bm_sets m ! si) \<longleftrightarrow> f p = Some si"
proof -
  have iff: "get (bm_sets m ! si) k = Some q \<longleftrightarrow> f q = Some si \<and> slot_of m q = k" for k q
    using assms by (simp add: lists_for_def)
  show "distinct (bm_sets m ! si)"
    unfolding distinct_conv_nth by (metis get_Some iff)
  show "p \<in> set (bm_sets m ! si) \<longleftrightarrow> f p = Some si"
    unfolding in_set_conv_nth by (metis get_Some iff)
qed

lemma bm_ensure_inv:
  assumes "bm_inv m"
  shows "bm_inv (bm_ensure m p)" and "band_of (bm_ensure m p) = band_of m"
    and "unat p < length (bm_band (bm_ensure m p))"
proof -
  let ?m = "bm_ensure m p"
  have P: "unat p < 2 ^ 32" using unat_bound [of p] by simp
  have len: "length (bm_slot m) = length (bm_band m)" using assms by (simp add: bm_inv_def)
  consider "unat p < length (bm_band m)" "?m = m"
    | "length (bm_band m) \<le> unat p"
      "?m = m\<lparr>bm_band := resize (bm_band m) (Suc (unat p)) None,
             bm_slot := resize (bm_slot m) (Suc (unat p)) NO_SLOT\<rparr>"
    using P by (cases "unat p < length (bm_band m)")
      (auto simp: bm_ensure_def usize_saturating_add_def USIZE_LIMIT_def Let_def)
  note cases = this
  show "unat p < length (bm_band ?m)" by (cases rule: cases) simp_all
  show band: "band_of ?m = band_of m"
    by (cases rule: cases) (auto simp: band_of_def get_def nth_resize fun_eq_iff)
  show "bm_inv ?m"
  proof (cases rule: cases)
    case 2
    have slot: "slot_of ?m q = slot_of m q" if "place m q = Some si" for q si
    proof -
      have "unat q < length (bm_slot m)" using assms that unfolding bm_inv_def lists_for_def by blast
      then show ?thesis using 2 len by (simp add: slot_of_def nth_resize)
    qed
    have "place ?m = place m" by (simp add: place_def band fun_eq_iff)
    moreover have "lists_for ?m (place m)"
      using assms slot 2 len unfolding bm_inv_def lists_for_def by (auto 0 4 simp: less_Suc_eq_le)
    ultimately show ?thesis using assms 2 by (simp add: bm_inv_def)
  qed (use assms in simp)
qed

lemma bm_leave_lists:
  assumes lists: "lists_for m f" and f: "f p = Some si" and si: "si < 4" "length (bm_sets m) = 4"
  shows "lists_for (bm_leave m p si) (f(p := None))"
proof -
  let ?s = "bm_sets m ! si" and ?at = "slot_of m p"
  have iff: "get (bm_sets m ! sj) k = Some q \<longleftrightarrow> f q = Some sj \<and> slot_of m q = k" if "sj < 4" for sj k q
    using lists that by (simp add: lists_for_def)
  have len: "unat q < length (bm_slot m)" if "f q = Some sj" for q sj
    using lists that unfolding lists_for_def by blast
  have at: "get ?s ?at = Some p" using iff [OF si(1)] f by simp
  then obtain s' lst where s: "?s = s' @ [lst]" by (cases ?s rule: rev_cases) (auto simp: get_def)
  have lst: "f lst = Some si" "slot_of m lst = length s'"
    using iff [OF si(1), of "length s'" lst] s by simp_all
  have old: "get (s' @ [lst]) k = Some q \<longleftrightarrow> f q = Some si \<and> slot_of m q = k" for k q
    using iff [OF si(1)] s by simp
  have slot: "get (bm_slot m) (unat p) = Some (bm_slot m ! unat p)" using len [OF f] by (simp add: get_def)
  show ?thesis
  proof (cases "?at < length s'")
    case True
    let ?m = "m\<lparr>bm_sets := (bm_sets m)[si := s'[?at := lst]],
                 bm_slot := (bm_slot m)[unat lst := of_nat ?at]\<rparr>"
    have m': "bm_leave m p si = ?m"
      using True s si slot by (simp add: bm_leave_def get_def slot_of_def)
    have "unat (of_nat ?at :: u32) = ?at" by (simp add: slot_of_def)
    then have slot': "slot_of ?m q = (if q = lst then ?at else slot_of m q)" for q
      using len [OF lst(1)] by (auto simp: slot_of_def nth_list_update word_unat_eq_iff)
    have "s' ! ?at = p" using at s True by (simp add: get_def nth_append)
    moreover have "lst \<noteq> p" using True lst(2) by auto
    ultimately have "get (s'[?at := lst]) k = Some q \<longleftrightarrow> (f(p := None)) q = Some si \<and> slot_of ?m q = k" for k q
      using old [of k q] old [of ?at q] old [of ?at lst] old [of "length s'" q] lst f True slot'
      by (auto simp: get_def nth_append nth_list_update split: if_splits)
    moreover have "get (bm_sets ?m ! sj) k = Some q \<longleftrightarrow> (f(p := None)) q = Some sj \<and> slot_of ?m q = k"
      if "sj < 4" "sj \<noteq> si" for sj k q
      using iff [OF that(1), of k q] that f lst slot' by auto
    ultimately show ?thesis
      unfolding m' lists_for_def using si len by (auto simp: nth_list_update)
  next
    case False
    then have "?at = length s'" using at s by (simp add: get_def split: if_splits)
    then have [simp]: "lst = p" using at s by simp
    have m': "bm_leave m p si = m\<lparr>bm_sets := (bm_sets m)[si := s']\<rparr>"
      using False s si slot by (simp add: bm_leave_def get_def slot_of_def)
    have "get s' k = Some q \<longleftrightarrow> (f(p := None)) q = Some si \<and> slot_of m q = k" for k q
      using old [of k q] old [of "length s'" q] lst f
      by (auto simp: get_def nth_append split: if_splits)
    then show ?thesis
      unfolding m' lists_for_def using si len iff f by (auto simp: nth_list_update slot_of_def)
  qed
qed

lemma bm_leave_band [simp]:
  "bm_band (bm_leave m p si) = bm_band m" "length (bm_slot (bm_leave m p si)) = length (bm_slot m)"
  "length (bm_sets (bm_leave m p si)) = length (bm_sets m)"
  by (auto simp: bm_leave_def Let_def split: option.split)

text \<open>A list never holds more than the 32-bit ids there are, so the slot of a new member is its index.\<close>

lemma absent_length:
  assumes "distinct ps" and "(p :: u32) \<notin> set ps"
  shows "length ps < 2 ^ 32"
proof -
  have "card (set ps) < card (UNIV :: u32 set)"
    using assms(2) by (intro psubset_card_mono) auto
  then show ?thesis using assms(1) by (simp add: distinct_card card_word)
qed

lemma bm_join_lists:
  assumes lists: "lists_for m f" and f: "f p = None" and sets: "length (bm_sets m) = 4"
    and p: "unat p < length (bm_slot m)"
  shows "lists_for (bm_join m p b) (f(p := set_of b))"
proof (cases "set_of b")
  case None
  then have m': "bm_join m p b =
      m\<lparr>bm_band := (bm_band m)[unat p := Some b], bm_slot := (bm_slot m)[unat p := NO_SLOT]\<rparr>"
    by (simp add: bm_join_def Let_def)
  have "slot_of (bm_join m p b) q = slot_of m q" if "q \<noteq> p" for q
    using that by (simp add: m' slot_of_def nth_list_update word_unat_eq_iff)
  then show ?thesis
    using lists f None unfolding lists_for_def by (auto simp: m')
next
  case (Some si)
  let ?s = "bm_sets m ! si"
  have si: "si < 4" using Some by (rule set_of_less)
  have "p \<notin> set ?s" "distinct ?s" using lists_for_distinct [OF lists si] f by simp_all
  then have small: "length ?s < 2 ^ 32" by (metis absent_length)
  then have m': "bm_join m p b =
      m\<lparr>bm_sets := (bm_sets m)[si := ?s @ [p]], bm_band := (bm_band m)[unat p := Some b],
        bm_slot := (bm_slot m)[unat p := of_nat (length ?s)]\<rparr>"
    using Some si sets by (simp add: bm_join_def get_def try_from_usize_def Let_def)
  have "unat (of_nat (length ?s) :: u32) = length ?s" using small by (simp add: unat_of_nat)
  then have slot: "slot_of (bm_join m p b) q = (if q = p then length ?s else slot_of m q)" for q
    using p by (auto simp: m' slot_of_def nth_list_update word_unat_eq_iff)
  have iff: "get (bm_sets m ! sj) k = Some q \<longleftrightarrow> f q = Some sj \<and> slot_of m q = k" if "sj < 4" for sj k q
    using lists that by (simp add: lists_for_def)
  have "get (?s @ [p]) k = Some q \<longleftrightarrow> (f(p := Some si)) q = Some si \<and> slot_of (bm_join m p b) q = k" for k q
    using iff [OF si, of k q] f slot by (auto simp: get_def nth_append less_Suc_eq split: if_splits)
  moreover have "unat q < length (bm_slot m)" if "f q = Some sj" for q sj
    using lists that unfolding lists_for_def by blast
  ultimately show ?thesis
    unfolding lists_for_def using Some si sets p iff f slot by (auto simp: m' nth_list_update)
qed

lemma bm_join_band:
  "unat p < length (bm_band m) \<Longrightarrow> band_of (bm_join m p b) = (band_of m)(p \<mapsto> b)"
  "length (bm_band (bm_join m p b)) = length (bm_band m)"
  "length (bm_slot (bm_join m p b)) = length (bm_slot m)"
  "length (bm_sets (bm_join m p b)) = length (bm_sets m)"
  by (auto simp: bm_join_def Let_def band_of_def get_def fun_eq_iff nth_list_update word_unat_eq_iff
      split: option.split)

lemma bm_set_sim:
  assumes "bm_inv m"
  shows "bm_inv (bm_set m p b)" and "band_of (bm_set m p b) = (band_of m)(p \<mapsto> b)"
proof -
  let ?e = "bm_ensure m p"
  note e = bm_ensure_inv [OF assms, of p]
  define u where "u = (case place ?e p of Some si \<Rightarrow> bm_leave ?e p si | None \<Rightarrow> ?e)"
  have shape: "length (bm_sets ?e) = 4" "length (bm_slot ?e) = length (bm_band ?e)" "lists_for ?e (place ?e)"
    using e(1) by (simp_all add: bm_inv_def)
  have u: "bm_band u = bm_band ?e" "length (bm_slot u) = length (bm_band ?e)" "length (bm_sets u) = 4"
    using shape by (simp_all add: u_def split: option.split)
  have "lists_for u ((place ?e)(p := None))"
    using bm_leave_lists [OF shape(3)] place_less [of ?e p] shape
    by (auto simp: u_def fun_upd_idem split: option.split)
  from bm_join_lists [OF this, of p b] have lists: "lists_for (bm_join u p b) ((place ?e)(p := set_of b))"
    using u e(3) by simp
  have band: "band_of (bm_join u p b) = (band_of ?e)(p \<mapsto> b)"
    using bm_join_band(1) [of p u b] u e(3) by (simp add: band_of_def fun_eq_iff)
  then have "place (bm_join u p b) = (place ?e)(p := set_of b)" by (auto simp: place_def fun_eq_iff)
  then have "bm_inv (bm_join u p b)"
    using lists u by (simp add: bm_inv_def bm_join_band)
  moreover have "bm_set m p b = (if band_of ?e p = Some b then ?e else bm_join u p b)"
    by (simp add: bm_set_def Let_def u_def place_def)
  ultimately show "bm_inv (bm_set m p b)" and "band_of (bm_set m p b) = (band_of m)(p \<mapsto> b)"
    using e(1,2) band by (auto simp: fun_upd_idem_iff)
qed

lemma members_exact:
  assumes "bm_inv m" and "set_of b \<noteq> None"
  shows "distinct (members m b)" and "p \<in> set (members m b) \<longleftrightarrow> band_of m p = Some b"
proof -
  obtain si where si: "set_of b = Some si" "si < 4" using assms(2) set_of_less by blast
  have inv: "lists_for m (place m)" "length (bm_sets m) = 4" using assms(1) by (simp_all add: bm_inv_def)
  have mem: "members m b = bm_sets m ! si" using si inv(2) by (simp add: members_def get_def)
  show "distinct (members m b)" using lists_for_distinct(1) [OF inv(1) si(2)] mem by simp
  have "place m p = Some si \<longleftrightarrow> band_of m p = Some b"
    using si set_of_inj by (auto simp: place_def Option.bind_eq_Some_conv)
  then show "p \<in> set (members m b) \<longleftrightarrow> band_of m p = Some b"
    using lists_for_distinct(2) [OF inv(1) si(2)] mem by simp
qed

section \<open>Properties\<close>

text \<open>A history of assignments, last one last.\<close>

definition bm_run :: "(position_id \<times> band) list \<Rightarrow> band_manager" where
  "bm_run ops = fold (\<lambda>(p, b) m. bm_set m p b) ops band_manager_new"

lemma bm_run_sim:
  "bm_inv (bm_run ops) \<and> band_of (bm_run ops) = fold (\<lambda>(p, b) f. f(p \<mapsto> b)) ops Map.empty"
proof (induction ops rule: rev_induct)
  case Nil
  show ?case
    using bm_inv_new by (simp add: bm_run_def band_manager_new_def band_of_def get_def fun_eq_iff)
next
  case (snoc op ops)
  then show ?case using bm_set_sim by (cases op) (simp add: bm_run_def)
qed

text \<open>
  C26. After any sequence of band assignments, every position is in the band it was last assigned,
  and the membership list of each walked band (\<^verbatim>\<open>Hot\<close>, \<^verbatim>\<open>Warm\<close>, \<^verbatim>\<open>Cool\<close>, \<^verbatim>\<open>Unfundable\<close>) holds exactly
  the positions of that band, each once; \<^verbatim>\<open>Cold\<close> and \<^verbatim>\<open>Dead\<close> are never listed.
\<close>

theorem band_members_exact:
  "band_of (bm_run ops) = fold (\<lambda>(p, b) f. f(p \<mapsto> b)) ops Map.empty \<and>
   distinct (members (bm_run ops) b) \<and>
   set (members (bm_run ops) b) =
     (if b \<in> {Cold, Dead} then {} else {p. band_of (bm_run ops) p = Some b})"
proof (cases "set_of b")
  case None
  then have "b \<in> {Cold, Dead}" by (cases b) auto
  then show ?thesis using bm_run_sim [of ops] None by (simp add: members_def)
next
  case (Some si)
  then have "b \<notin> {Cold, Dead}" by (cases b) auto
  moreover have "set_of b \<noteq> None" using Some by simp
  ultimately show ?thesis
    using bm_run_sim [of ops] members_exact [of "bm_run ops" b] by auto
qed

text \<open>
  The cut points of \<open>classify\<close> are the documented ratios of a ray: a position
  with debt is \<^verbatim>\<open>Hot\<close> below 1.02, \<^verbatim>\<open>Warm\<close> below 1.15, \<^verbatim>\<open>Cool\<close> below 1.50 and \<^verbatim>\<open>Cold\<close> from there on, and one
  without debt is \<^verbatim>\<open>Dead\<close>, whatever its health.
\<close>

theorem classify_cut_points:
  "classify hf has_debt =
     (if \<not> has_debt then Dead
      else if 100 * unat (ray_raw hf) < 102 * unat RAY then Hot
      else if 100 * unat (ray_raw hf) < 115 * unat RAY then Warm
      else if 100 * unat (ray_raw hf) < 150 * unat RAY then Cool
      else Cold)"
  by (simp add: classify_def HOT_BELOW_def WARM_BELOW_def COOL_BELOW_def RAY_def word_less_nat_alt)

end
