(* ===== verification/Threshold.thy ===== *)
theory Threshold
  imports Model_Types "HOL-Library.Product_Lexorder" "HOL-Library.Multiset"
begin

text \<open>
  The threshold index, \<^verbatim>\<open>crates/liq-engine/src/threshold.rs\<close>: per global asset and side a sorted base
  array and a delta with a sorted prefix, generation-based lazy deletion, and the per-block
  \<open>commit\<close>. The index refines, for every asset and side, a multiset of registered
  \<open>(price, position)\<close> pairs. The derived order of \<^verbatim>\<open>Entry\<close> is the lexicographic one on its fields, and
  \<^verbatim>\<open>partition_point\<close> of a partitioned slice is the length of the prefix that satisfies the predicate.
\<close>

datatype engine_error =
    EE_UnknownAsset asset_id
  | EE_UnknownProtocol protocol_id
  | EE_PriceLayout u16 asset_id
  | EE_Protocol protocol_error
  | EE_State state_error
  | EE_Fixed fixed_error

datatype side = Falling | Rising

type_synonym threshold_entry = "u256 \<times> position_id \<times> u32"

definition MERGE_DIV :: nat where
  "MERGE_DIV = 8"

definition partition_point :: "('a \<Rightarrow> bool) \<Rightarrow> 'a list \<Rightarrow> nat" where
  "partition_point P xs = length (takeWhile P xs)"

definition slice_range :: "threshold_entry list \<Rightarrow> u256 \<Rightarrow> u256 \<Rightarrow> threshold_entry list" where
  "slice_range s lo hi =
     (let start = partition_point (\<lambda>e. fst e < lo) s;
          end' = partition_point (\<lambda>e. fst e \<le> hi) s
      in if start \<le> end' then take (end' - start) (drop start s) else [])"

record sorted_array =
  sa_base :: "threshold_entry list"
  sa_delta :: "threshold_entry list"
  sa_sorted :: nat
  sa_spare :: "threshold_entry list"

definition sorted_default :: sorted_array where
  "sorted_default = \<lparr>sa_base = [], sa_delta = [], sa_sorted = 0, sa_spare = []\<rparr>"

definition sa_range :: "sorted_array \<Rightarrow> u256 \<Rightarrow> u256 \<Rightarrow> threshold_entry list" where
  "sa_range s lo hi =
     (let at = min (sa_sorted s) (length (sa_delta s));
          prefix = take at (sa_delta s);
          tail = drop at (sa_delta s)
      in slice_range (sa_base s) lo hi @ slice_range prefix lo hi @
         filter (\<lambda>e. fst e \<ge> lo \<and> fst e \<le> hi) tail)"

definition sa_len :: "sorted_array \<Rightarrow> nat" where
  "sa_len s = usize_saturating_add (length (sa_base s)) (length (sa_delta s))"

definition is_live :: "u32 list \<Rightarrow> threshold_entry \<Rightarrow> bool" where
  "is_live gens e \<longleftrightarrow> get gens (unat (fst (snd e))) = Some (snd (snd e))"

text \<open>The merge loop over what is left of \<open>base\<close> and \<open>delta\<close>.\<close>

fun merge_loop :: "u32 list \<Rightarrow> threshold_entry list \<Rightarrow> threshold_entry list \<Rightarrow> threshold_entry list" where
  "merge_loop gens (l # ls) (r # rs) =
     (if l \<le> r then (if is_live gens l then [l] else []) @ merge_loop gens ls (r # rs)
      else r # merge_loop gens (l # ls) rs)"
| "merge_loop gens [] (r # rs) = r # merge_loop gens [] rs"
| "merge_loop gens (l # ls) [] = (if is_live gens l then [l] else []) @ merge_loop gens ls []"
| "merge_loop gens [] [] = []"

definition sa_merge :: "sorted_array \<Rightarrow> u32 list \<Rightarrow> sorted_array" where
  "sa_merge s gens =
     s\<lparr>sa_spare := sa_base s, sa_base := merge_loop gens (sa_base s) (sa_delta s),
       sa_delta := [], sa_sorted := 0\<rparr>"

definition sa_commit :: "sorted_array \<Rightarrow> u32 list \<Rightarrow> nat \<Rightarrow> sorted_array" where
  "sa_commit s gens merge_min =
     (if length (sa_delta s) = sa_sorted s then s
      else
        let s = s\<lparr>sa_delta := filter (is_live gens) (sa_delta s)\<rparr>;
            s = s\<lparr>sa_delta := sort (sa_delta s)\<rparr>;
            s = s\<lparr>sa_sorted := length (sa_delta s)\<rparr>
        in if length (sa_delta s) > max merge_min (length (sa_base s) div MERGE_DIV)
           then sa_merge s gens else s)"

record threshold_index =
  ti_falling :: "sorted_array list"
  ti_rising :: "sorted_array list"
  ti_gen :: "u32 list"
  ti_merge_min :: nat

definition MERGE_MIN :: nat where
  "MERGE_MIN = 256"

definition ti_new :: "nat \<Rightarrow> threshold_index" where
  "ti_new assets =
     \<lparr>ti_falling = replicate assets sorted_default, ti_rising = replicate assets sorted_default,
      ti_gen = [], ti_merge_min = MERGE_MIN\<rparr>"

definition ti_len :: "threshold_index \<Rightarrow> nat" where
  "ti_len ti = fold (\<lambda>s n. usize_saturating_add n (sa_len s)) (ti_falling ti @ ti_rising ti) 0"

definition ti_is_empty :: "threshold_index \<Rightarrow> bool" where
  "ti_is_empty ti \<longleftrightarrow> ti_len ti = 0"

definition ti_begin :: "threshold_index \<Rightarrow> position_id \<Rightarrow> threshold_index" where
  "ti_begin ti pid =
     (let i = unat pid;
          ti = (if i \<ge> length (ti_gen ti)
                then ti\<lparr>ti_gen := resize (ti_gen ti) (usize_saturating_add i 1) 0\<rparr> else ti)
      in case get (ti_gen ti) i of
           Some g \<Rightarrow> ti\<lparr>ti_gen := (ti_gen ti)[i := g + 1]\<rparr>
         | None \<Rightarrow> ti)"

definition ti_register ::
  "threshold_index \<Rightarrow> position_id \<Rightarrow> asset_id \<Rightarrow> side \<Rightarrow> ray \<Rightarrow> (unit, engine_error) result \<times> threshold_index" where
  "ti_register ti pid asset side price =
     (let gen = (case get (ti_gen ti) (unat pid) of Some g \<Rightarrow> g | None \<Rightarrow> 0);
          arrays = (case side of Falling \<Rightarrow> ti_falling ti | Rising \<Rightarrow> ti_rising ti)
      in try_opt (get arrays (unat asset)) (EE_UnknownAsset asset) ti (\<lambda>s.
           let arrays = arrays[unat asset := s\<lparr>sa_delta := sa_delta s @ [(ray_raw price, pid, gen)]\<rparr>]
           in (Ok (), case side of Falling \<Rightarrow> ti\<lparr>ti_falling := arrays\<rparr>
                                 | Rising \<Rightarrow> ti\<lparr>ti_rising := arrays\<rparr>)))"

definition ti_crossed :: "threshold_index \<Rightarrow> asset_id \<Rightarrow> ray \<Rightarrow> ray \<Rightarrow> position_id list" where
  "ti_crossed ti asset old new =
     (let (arrays, lo, hi) =
            (if ray_raw new < ray_raw old then (ti_falling ti, ray_raw new, ray_raw old)
             else (ti_rising ti, ray_raw old, ray_raw new))
      in case get arrays (unat asset) of
           None \<Rightarrow> []
         | Some s \<Rightarrow> map (fst \<circ> snd) (filter (is_live (ti_gen ti)) (sa_range s lo hi)))"

definition ti_registered :: "threshold_index \<Rightarrow> asset_id \<Rightarrow> position_id list" where
  "ti_registered ti asset =
     (let i = unat asset;
          arrays = (case get (ti_falling ti) i of None \<Rightarrow> [] | Some s \<Rightarrow> [s]) @
                   (case get (ti_rising ti) i of None \<Rightarrow> [] | Some s \<Rightarrow> [s])
      in map (fst \<circ> snd)
           (filter (is_live (ti_gen ti)) (concat (map (\<lambda>s. sa_base s @ sa_delta s) arrays))))"

definition ti_commit :: "threshold_index \<Rightarrow> threshold_index" where
  "ti_commit ti =
     ti\<lparr>ti_falling := map (\<lambda>s. sa_commit s (ti_gen ti) (ti_merge_min ti)) (ti_falling ti),
        ti_rising := map (\<lambda>s. sa_commit s (ti_gen ti) (ti_merge_min ti)) (ti_rising ti)\<rparr>"

section \<open>One array\<close>

lemma filter_ge_dropWhile:
  "sorted (map fst s) \<Longrightarrow> filter (\<lambda>e. lo \<le> fst e) s = dropWhile (\<lambda>e. fst e < lo) s"
proof (induction s)
  case (Cons x xs)
  show ?case
  proof (cases "fst x < lo")
    case True
    then show ?thesis using Cons by simp
  next
    case False
    then have "\<forall>y \<in> set (x # xs). lo \<le> fst y" using Cons.prems by auto
    then have "filter (\<lambda>e. lo \<le> fst e) (x # xs) = x # xs" by (intro filter_True)
    then show ?thesis using False by simp
  qed
qed simp

lemma filter_le_takeWhile:
  "sorted (map fst s) \<Longrightarrow> filter (\<lambda>e. fst e \<le> hi) s = takeWhile (\<lambda>e. fst e \<le> hi) s"
proof (induction s)
  case (Cons x xs)
  show ?case
  proof (cases "fst x \<le> hi")
    case True
    then show ?thesis using Cons by simp
  next
    case False
    then have "\<forall>y \<in> set (x # xs). \<not> fst y \<le> hi" using Cons.prems by auto
    then have "filter (\<lambda>e. fst e \<le> hi) (x # xs) = []" by (intro filter_False)
    then show ?thesis using False by simp
  qed
qed simp

lemma partition_bounds:
  assumes "sorted (map fst s)"
  shows "filter (\<lambda>e. lo \<le> fst e) s = drop (partition_point (\<lambda>e. fst e < lo) s) s"
    and "filter (\<lambda>e. fst e \<le> hi) s = take (partition_point (\<lambda>e. fst e \<le> hi) s) s"
  unfolding filter_ge_dropWhile [OF assms] filter_le_takeWhile [OF assms] partition_point_def
  by (rule dropWhile_eq_drop takeWhile_eq_take)+

lemma sorted_map_fst: "sorted s \<Longrightarrow> sorted (map fst (s :: ('a::linorder \<times> 'b::linorder) list))"
  by (induction s) (auto simp: less_eq_prod_def less_prod_def)

lemma partition_point_take: "partition_point P (take n s) = min (partition_point P s) n"
  unfolding partition_point_def by (induction s arbitrary: n) (auto simp: take_Cons' gr0_conv_Suc)

lemma slice_range_filter:
  assumes "sorted s"
  shows "slice_range s lo hi = filter (\<lambda>e. lo \<le> fst e \<and> fst e \<le> hi) s"
proof -
  define a where "a = partition_point (\<lambda>e. fst e < lo) s"
  define b where "b = partition_point (\<lambda>e. fst e \<le> hi) s"
  have srt: "sorted (map fst s)" by (rule sorted_map_fst [OF assms])
  then have pre: "sorted (map fst (take b s))" by (metis sorted_wrt_take take_map)
  have "filter (\<lambda>e. lo \<le> fst e \<and> fst e \<le> hi) s = filter (\<lambda>e. lo \<le> fst e) (filter (\<lambda>e. fst e \<le> hi) s)"
    unfolding filter_filter by (rule filter_cong) auto
  also have "\<dots> = filter (\<lambda>e. lo \<le> fst e) (take b s)"
    unfolding partition_bounds(2) [OF srt] b_def ..
  also have "\<dots> = drop (min a b) (take b s)"
    unfolding partition_bounds(1) [OF pre] partition_point_take a_def ..
  also have "\<dots> = (if a \<le> b then take (b - a) (drop a s) else [])"
    by (simp add: drop_take)
  finally show ?thesis unfolding slice_range_def Let_def a_def b_def by (rule sym)
qed

definition sa_wf :: "sorted_array \<Rightarrow> bool" where
  "sa_wf s \<longleftrightarrow>
     sorted (sa_base s) \<and> sa_sorted s \<le> length (sa_delta s) \<and> sorted (take (sa_sorted s) (sa_delta s))"

definition sa_entries :: "sorted_array \<Rightarrow> threshold_entry multiset" where
  "sa_entries s = mset (sa_base s) + mset (sa_delta s)"

lemma sa_range_exact:
  assumes "sa_wf s"
  shows "mset (sa_range s lo hi) = filter_mset (\<lambda>e. lo \<le> fst e \<and> fst e \<le> hi) (sa_entries s)"
proof -
  have "mset (sa_delta s) = mset (take (sa_sorted s) (sa_delta s)) + mset (drop (sa_sorted s) (sa_delta s))"
    by (metis append_take_drop_id mset_append)
  then show ?thesis
    using assms by (simp add: sa_range_def sa_wf_def sa_entries_def slice_range_filter min_def Let_def)
qed

lemma merge_loop_mset:
  "mset (merge_loop gens ls rs) = filter_mset (is_live gens) (mset ls) + mset rs"
  by (induction gens ls rs rule: merge_loop.induct) auto

lemma merge_loop_set: "set (merge_loop gens ls rs) = {l \<in> set ls. is_live gens l} \<union> set rs"
  by (induction gens ls rs rule: merge_loop.induct) auto

lemma merge_loop_sorted:
  "sorted ls \<Longrightarrow> sorted rs \<Longrightarrow> sorted (merge_loop gens ls rs)"
  by (induction gens ls rs rule: merge_loop.induct)
    (auto simp: merge_loop_set not_le dest: order.strict_implies_order intro: order_trans less_imp_le)

lemma sa_commit_eq:
  "sa_commit s gens n =
     (let d = sort (filter (is_live gens) (sa_delta s)) in
      if length (sa_delta s) = sa_sorted s then s
      else if length d > max n (length (sa_base s) div MERGE_DIV)
      then s\<lparr>sa_spare := sa_base s, sa_base := merge_loop gens (sa_base s) d, sa_delta := [], sa_sorted := 0\<rparr>
      else s\<lparr>sa_delta := d, sa_sorted := length d\<rparr>)"
  by (simp add: sa_commit_def sa_merge_def Let_def)

lemma sa_commit_wf: "sa_wf s \<Longrightarrow> sa_wf (sa_commit s gens n)"
  by (cases "length (sa_delta s) = sa_sorted s") (auto simp: sa_commit_eq Let_def sa_wf_def merge_loop_sorted)

lemma sa_commit_entries:
  "filter_mset (is_live gens) (sa_entries (sa_commit s gens n)) = filter_mset (is_live gens) (sa_entries s)"
  "set_mset (sa_entries (sa_commit s gens n)) \<subseteq> set_mset (sa_entries s)"
  by (auto simp: sa_commit_eq Let_def sa_entries_def merge_loop_mset merge_loop_set filter_filter_mset split: if_splits)

section \<open>The index as a table of registrations\<close>

definition arrays_of :: "threshold_index \<Rightarrow> side \<Rightarrow> sorted_array list" where
  "arrays_of ti sd = (case sd of Falling \<Rightarrow> ti_falling ti | Rising \<Rightarrow> ti_rising ti)"

definition entries_of :: "threshold_index \<Rightarrow> side \<Rightarrow> asset_id \<Rightarrow> threshold_entry multiset" where
  "entries_of ti sd a = (case get (arrays_of ti sd) (unat a) of None \<Rightarrow> {#} | Some s \<Rightarrow> sa_entries s)"

definition unstamp :: "threshold_entry \<Rightarrow> u256 \<times> position_id" where
  "unstamp e = (fst e, fst (snd e))"

definition table :: "threshold_index \<Rightarrow> side \<Rightarrow> asset_id \<Rightarrow> (u256 \<times> position_id) multiset" where
  "table ti sd a = image_mset unstamp (filter_mset (is_live (ti_gen ti)) (entries_of ti sd a))"

definition stamped_ok :: "u32 list \<Rightarrow> threshold_entry \<Rightarrow> bool" where
  "stamped_ok gens e \<longleftrightarrow>
     unat (fst (snd e)) < length gens \<and> unat (snd (snd e)) \<le> unat (gens ! unat (fst (snd e)))"

definition ti_inv :: "threshold_index \<Rightarrow> bool" where
  "ti_inv ti \<longleftrightarrow>
     (\<forall>sd. \<forall>s \<in> set (arrays_of ti sd). sa_wf s \<and> (\<forall>e \<in># sa_entries s. stamped_ok (ti_gen ti) e))"

lemma ti_invD:
  assumes "ti_inv ti" and "s \<in> set (arrays_of ti sd)"
  shows "sa_wf s" and "e \<in># sa_entries s \<Longrightarrow> stamped_ok (ti_gen ti) e"
  using assms unfolding ti_inv_def by blast+

lemma entries_ok: "ti_inv ti \<Longrightarrow> e \<in># entries_of ti sd a \<Longrightarrow> stamped_ok (ti_gen ti) e"
  by (cases "get (arrays_of ti sd) (unat a)")
    (auto simp del: split_paired_All simp: entries_of_def intro: ti_invD(2) [OF _ get_in_set])

lemma ti_inv_new: "ti_inv (ti_new n)"
  by (auto simp: ti_inv_def ti_new_def arrays_of_def sorted_default_def sa_wf_def sa_entries_def split: side.splits)

definition crossing :: "u256 \<Rightarrow> u256 \<Rightarrow> (u256 \<times> position_id) multiset \<Rightarrow> position_id multiset" where
  "crossing lo hi T = image_mset snd (filter_mset (\<lambda>e. lo \<le> fst e \<and> fst e \<le> hi) T)"

lemma sa_crossing:
  assumes "sa_wf s"
  shows "mset (map (fst \<circ> snd) (filter (is_live gens) (sa_range s lo hi))) =
    crossing lo hi (image_mset unstamp (filter_mset (is_live gens) (sa_entries s)))"
proof -
  have "filter_mset (is_live gens) (filter_mset (\<lambda>e. lo \<le> fst e \<and> fst e \<le> hi) (sa_entries s)) =
      filter_mset (\<lambda>e. lo \<le> fst (unstamp e) \<and> fst (unstamp e) \<le> hi)
        (filter_mset (is_live gens) (sa_entries s))"
    unfolding filter_filter_mset unstamp_def fst_conv by (rule filter_mset_cong [OF refl]) blast
  moreover have "snd \<circ> unstamp = fst \<circ> snd" by (simp add: unstamp_def fun_eq_iff)
  ultimately show ?thesis
    unfolding crossing_def mset_map mset_filter sa_range_exact [OF assms] filter_mset_image_mset
    by (simp only: multiset.map_comp comp_apply)
qed

lemma ti_crossed_exact:
  assumes "ti_inv ti"
  shows "mset (ti_crossed ti a old new) =
    (if ray_raw new < ray_raw old then crossing (ray_raw new) (ray_raw old) (table ti Falling a)
     else crossing (ray_raw old) (ray_raw new) (table ti Rising a))"
proof -
  have "mset (case get (arrays_of ti sd) (unat a) of None \<Rightarrow> []
       | Some s \<Rightarrow> map (fst \<circ> snd) (filter (is_live (ti_gen ti)) (sa_range s lo hi))) =
     crossing lo hi (table ti sd a)" for sd lo hi
  proof (cases "get (arrays_of ti sd) (unat a)")
    case None
    then show ?thesis by (simp add: table_def entries_of_def crossing_def)
  next
    case (Some s)
    have "sa_wf s" by (rule ti_invD(1) [OF assms get_in_set [OF Some]])
    from sa_crossing [OF this] show ?thesis
      unfolding Some table_def entries_of_def option.case .
  qed
  from this [where sd = Falling and lo = "ray_raw new" and hi = "ray_raw old"]
    this [where sd = Rising and lo = "ray_raw old" and hi = "ray_raw new"]
  show ?thesis
    unfolding ti_crossed_def arrays_of_def Let_def by (simp split del: option.split)
qed

lemma ti_commit_sim:
  assumes "ti_inv ti"
  shows "ti_inv (ti_commit ti)" and "table (ti_commit ti) = table ti"
proof -
  let ?c = "\<lambda>s. sa_commit s (ti_gen ti) (ti_merge_min ti)"
  have arr: "arrays_of (ti_commit ti) sd = map ?c (arrays_of ti sd)" for sd
    by (cases sd) (simp_all add: ti_commit_def arrays_of_def)
  have gen: "ti_gen (ti_commit ti) = ti_gen ti" by (simp add: ti_commit_def)
  show "ti_inv (ti_commit ti)"
    unfolding ti_inv_def arr gen using ti_invD [OF assms] sa_commit_wf sa_commit_entries(2) by fastforce
  have "filter_mset (is_live (ti_gen ti)) (entries_of (ti_commit ti) sd a) =
      filter_mset (is_live (ti_gen ti)) (entries_of ti sd a)" for sd a
    by (simp add: entries_of_def arr get_def sa_commit_entries)
  then show "table (ti_commit ti) = table ti" by (simp add: table_def gen fun_eq_iff)
qed

lemma ti_begin_gen:
  "ti_begin ti p = ti\<lparr>ti_gen := ti_gen (ti_begin ti p)\<rparr>"
  "i \<noteq> unat p \<Longrightarrow> i < length (ti_gen ti) \<Longrightarrow> get (ti_gen (ti_begin ti p)) i = Some (ti_gen ti ! i)"
  "get (ti_gen (ti_begin ti p)) (unat p) =
     Some (if unat p < length (ti_gen ti) then ti_gen ti ! unat p + 1 else 1)"
proof -
  have "unat p < 2 ^ 32" using unat_bound [of p] by simp
  then have eq: "ti_begin ti p =
      (if unat p < length (ti_gen ti)
       then ti\<lparr>ti_gen := (ti_gen ti)[unat p := ti_gen ti ! unat p + 1]\<rparr>
       else ti\<lparr>ti_gen := (resize (ti_gen ti) (Suc (unat p)) 0)[unat p := 1]\<rparr>)"
    by (auto simp: ti_begin_def Let_def get_def nth_resize usize_saturating_add_def USIZE_LIMIT_def)
  show "ti_begin ti p = ti\<lparr>ti_gen := ti_gen (ti_begin ti p)\<rparr>" by (simp add: eq)
  show "i \<noteq> unat p \<Longrightarrow> i < length (ti_gen ti) \<Longrightarrow> get (ti_gen (ti_begin ti p)) i = Some (ti_gen ti ! i)"
    by (auto simp: eq get_def nth_resize)
  show "get (ti_gen (ti_begin ti p)) (unat p) =
      Some (if unat p < length (ti_gen ti) then ti_gen ti ! unat p + 1 else 1)"
    by (simp add: eq get_def)
qed

text \<open>The next generation of a position is fresh unless its counter is about to wrap.\<close>

definition ti_room :: "threshold_index \<Rightarrow> position_id \<Rightarrow> bool" where
  "ti_room ti p \<longleftrightarrow> get (ti_gen ti) (unat p) \<noteq> Some (- 1)"

lemma begin_entry:
  assumes ok: "stamped_ok (ti_gen ti) e" and room: "ti_room ti p"
  shows "stamped_ok (ti_gen (ti_begin ti p)) e"
    and "is_live (ti_gen (ti_begin ti p)) e \<longleftrightarrow> is_live (ti_gen ti) e \<and> snd (unstamp e) \<noteq> p"
proof -
  obtain pr q g where e: "e = (pr, q, g)" by (cases e) auto
  have q: "unat q < length (ti_gen ti)" "unat g \<le> unat (ti_gen ti ! unat q)"
    using ok by (simp_all add: stamped_ok_def e)
  have up: "unat (ti_gen ti ! unat p + 1) = Suc (unat (ti_gen ti ! unat p))" if "unat p < length (ti_gen ti)"
    using that room by (intro unat_plus_one) (simp add: ti_room_def get_def)
  have "stamped_ok (ti_gen (ti_begin ti p)) e \<and>
      (is_live (ti_gen (ti_begin ti p)) e \<longleftrightarrow> is_live (ti_gen ti) e \<and> snd (unstamp e) \<noteq> p)"
  proof (cases "q = p")
    case True
    then show ?thesis
      using q up ti_begin_gen(3) [of ti p]
      by (auto simp: e stamped_ok_def is_live_def unstamp_def get_def split: if_splits)
  next
    case False
    then have "unat q \<noteq> unat p" by (simp add: word_unat_eq_iff)
    from ti_begin_gen(2) [OF this q(1)] show ?thesis
      using q False by (auto simp: e stamped_ok_def is_live_def unstamp_def get_def split: if_splits)
  qed
  then show "stamped_ok (ti_gen (ti_begin ti p)) e"
    and "is_live (ti_gen (ti_begin ti p)) e \<longleftrightarrow> is_live (ti_gen ti) e \<and> snd (unstamp e) \<noteq> p" by auto
qed

lemma ti_begin_sim:
  assumes inv: "ti_inv ti" and room: "ti_room ti p"
  shows "ti_inv (ti_begin ti p)" and "table (ti_begin ti p) sd a = filter_mset (\<lambda>(_, q). q \<noteq> p) (table ti sd a)"
proof -
  have arr: "arrays_of (ti_begin ti p) = arrays_of ti"
    by (subst ti_begin_gen(1)) (simp add: arrays_of_def fun_eq_iff split: side.split)
  show "ti_inv (ti_begin ti p)"
    unfolding ti_inv_def arr using ti_invD [OF inv] begin_entry(1) [OF _ room] by blast
  have "filter_mset (is_live (ti_gen (ti_begin ti p))) (entries_of ti sd a) =
      filter_mset (\<lambda>e. is_live (ti_gen ti) e \<and> snd (unstamp e) \<noteq> p) (entries_of ti sd a)"
    by (rule filter_mset_cong [OF refl]) (rule begin_entry(2) [OF entries_ok [OF inv] room])
  then show "table (ti_begin ti p) sd a = filter_mset (\<lambda>(_, q). q \<noteq> p) (table ti sd a)"
    by (simp add: table_def entries_of_def arr filter_mset_image_mset filter_filter_mset case_prod_unfold comp_def)
qed

lemma ti_register_sim:
  assumes inv: "ti_inv ti" and known: "unat p < length (ti_gen ti)"
    and reg: "ti_register ti p a sd price = (r, ti')"
  shows "ti_inv ti'"
    and "r = (if unat a < length (arrays_of ti sd) then Ok () else Err (EE_UnknownAsset a))"
    and "table ti' sd' b =
      table ti sd' b + (if r = Ok () \<and> sd' = sd \<and> b = a then {#(ray_raw price, p)#} else {#})"
    and "ti_gen ti' = ti_gen ti" and "length (arrays_of ti' sd') = length (arrays_of ti sd')"
proof -
  let ?e = "(ray_raw price, p, ti_gen ti ! unat p)" and ?arr = "arrays_of ti sd"
  let ?s = "?arr ! unat a"
  let ?s' = "?s\<lparr>sa_delta := sa_delta ?s @ [?e]\<rparr>"
  have cases: "r = Err (EE_UnknownAsset a) \<and> ti' = ti" if "\<not> unat a < length ?arr"
    using reg that known by (cases sd) (simp_all add: ti_register_def Let_def get_def arrays_of_def)
  have ok: "r = Ok () \<and> arrays_of ti' = (arrays_of ti)(sd := ?arr[unat a := ?s']) \<and> ti_gen ti' = ti_gen ti"
    if "unat a < length ?arr"
    using reg that known
    by (cases sd) (auto simp: ti_register_def Let_def get_def arrays_of_def fun_eq_iff split: side.split)
  have live: "is_live (ti_gen ti) ?e" "stamped_ok (ti_gen ti) ?e"
    using known by (simp_all add: is_live_def stamped_ok_def get_def)
  have s': "sa_wf ?s' \<and> sa_entries ?s' = add_mset ?e (sa_entries ?s)" if "unat a < length ?arr"
    using ti_invD(1) [OF inv nth_mem [OF that]] by (simp add: sa_wf_def sa_entries_def)
  show "r = (if unat a < length ?arr then Ok () else Err (EE_UnknownAsset a))"
    and "ti_gen ti' = ti_gen ti" and "length (arrays_of ti' sd') = length (arrays_of ti sd')"
    using cases ok by (cases "unat a < length ?arr"; simp)+
  show "ti_inv ti'"
  proof (cases "unat a < length ?arr")
    case True
    have "sa_wf s \<and> (\<forall>e \<in># sa_entries s. stamped_ok (ti_gen ti) e)" if "s \<in> set (arrays_of ti' sd1)" for s sd1
    proof -
      have "s = ?s' \<or> s \<in> set (arrays_of ti sd1)"
        using that ok [OF True] set_update_subset_insert [of ?arr "unat a" ?s'] by (auto split: if_splits)
      then show ?thesis
        using s' [OF True] ti_invD [OF inv] live(2) nth_mem [OF True] by auto
    qed
    then show ?thesis using ok [OF True] by (simp add: ti_inv_def)
  qed (use cases inv in auto)
  have "entries_of ti' sd' b = entries_of ti sd' b + (if sd' = sd \<and> b = a then {#?e#} else {#})"
    if "unat a < length ?arr"
    using ok [OF that] s' [OF that] that
    by (auto simp: entries_of_def get_def nth_list_update word_unat_eq_iff)
  then show "table ti' sd' b =
      table ti sd' b + (if r = Ok () \<and> sd' = sd \<and> b = a then {#(ray_raw price, p)#} else {#})"
    using cases ok live(1) by (cases "unat a < length ?arr") (auto simp: table_def unstamp_def)
qed

lemma crossing_mem: "q \<in># crossing lo hi T \<longleftrightarrow> (\<exists>pr. (pr, q) \<in># T \<and> lo \<le> pr \<and> pr \<le> hi)"
  by (force simp: crossing_def)

section \<open>The contract the engine relies on\<close>

locale crossing_index =
  fixes inv :: "'t \<Rightarrow> bool" and tbl :: "'t \<Rightarrow> side \<Rightarrow> asset_id \<Rightarrow> (u256 \<times> position_id) multiset"
    and room :: "'t \<Rightarrow> position_id \<Rightarrow> bool" and begun :: "'t \<Rightarrow> position_id \<Rightarrow> bool"
    and start :: "'t \<Rightarrow> position_id \<Rightarrow> 't" and commit :: "'t \<Rightarrow> 't"
    and register :: "'t \<Rightarrow> position_id \<Rightarrow> asset_id \<Rightarrow> side \<Rightarrow> ray \<Rightarrow> (unit, engine_error) result \<times> 't"
    and crossed :: "'t \<Rightarrow> asset_id \<Rightarrow> ray \<Rightarrow> ray \<Rightarrow> position_id list"
  assumes start_law: "inv t \<Longrightarrow> room t p \<Longrightarrow> inv (start t p) \<and> begun (start t p) p \<and>
      tbl (start t p) sd a = filter_mset (\<lambda>(_, q). q \<noteq> p) (tbl t sd a)"
    and register_law: "inv t \<Longrightarrow> begun t p \<Longrightarrow> register t p a sd price = (Ok (), t') \<Longrightarrow> inv t' \<and>
      tbl t' sd' b = tbl t sd' b + (if sd' = sd \<and> b = a then {#(ray_raw price, p)#} else {#})"
    and commit_law: "inv t \<Longrightarrow> inv (commit t) \<and> tbl (commit t) = tbl t"
    and crossed_law: "inv t \<Longrightarrow> mset (crossed t a old new) =
      (if ray_raw new < ray_raw old then crossing (ray_raw new) (ray_raw old) (tbl t Falling a)
       else crossing (ray_raw old) (ray_raw new) (tbl t Rising a))"
begin

lemma crossed_mem:
  "inv t \<Longrightarrow> q \<in> set (crossed t a old new) \<longleftrightarrow>
    (\<exists>pr. (pr, q) \<in># tbl t (if ray_raw new < ray_raw old then Falling else Rising) a \<and>
      min (ray_raw old) (ray_raw new) \<le> pr \<and> pr \<le> max (ray_raw old) (ray_raw new))"
  using crossed_law [of t a old new] unfolding set_mset_mset [symmetric]
  by (auto simp: crossing_mem min_def max_def)

lemma commit_invisible: "inv t \<Longrightarrow> mset (crossed (commit t) a old new) = mset (crossed t a old new)"
  using commit_law [of t] crossed_law by simp

lemma started_not_crossed: "inv t \<Longrightarrow> room t p \<Longrightarrow> p \<notin> set (crossed (start t p) a old new)"
  using start_law [of t p] by (simp add: crossed_mem)

lemma reregistered:
  assumes "inv t" and "room t p" and "register (start t p) p a sd price = (Ok (), t')"
  shows "p \<in> set (crossed t' b old new) \<longleftrightarrow>
    b = a \<and> sd = (if ray_raw new < ray_raw old then Falling else Rising) \<and>
    min (ray_raw old) (ray_raw new) \<le> ray_raw price \<and> ray_raw price \<le> max (ray_raw old) (ray_raw new)"
proof -
  note s = start_law [OF assms(1,2)]
  have "inv t'" and "tbl t' sd' c = tbl (start t p) sd' c +
      (if sd' = sd \<and> c = a then {#(ray_raw price, p)#} else {#})" for sd' c
    using register_law [of "start t p" p a sd price t'] s assms(3) by blast+
  then show ?thesis using s by (auto simp: crossed_mem)
qed

end

definition ti_begun :: "threshold_index \<Rightarrow> position_id \<Rightarrow> bool" where
  "ti_begun ti p \<longleftrightarrow> unat p < length (ti_gen ti)"

lemma ti_begin_begun:
  "ti_begun (ti_begin ti p) p" "ti_begun ti q \<Longrightarrow> ti_begun (ti_begin ti p) q"
proof -
  show p: "ti_begun (ti_begin ti p) p"
    using ti_begin_gen(3) [of ti p] by (simp add: ti_begun_def get_def split: if_splits)
  show "ti_begun (ti_begin ti p) q" if "ti_begun ti q"
    using ti_begin_gen(2) [of "unat q" p ti] that p
    by (cases "q = p") (auto simp: ti_begun_def get_def word_unat_eq_iff split: if_splits)
qed

interpretation tix: crossing_index ti_inv table ti_room ti_begun ti_begin ti_commit ti_register ti_crossed
proof unfold_locales
  fix ti p a sd price ti' sd' b
  assume "ti_inv ti" "ti_begun ti p" "ti_register ti p a sd price = (Ok (), ti')"
  then show "ti_inv ti' \<and>
      table ti' sd' b = table ti sd' b + (if sd' = sd \<and> b = a then {#(ray_raw price, p)#} else {#})"
    using ti_register_sim [of ti p a sd price "Ok ()" ti'] by (simp add: ti_begun_def)
qed (use ti_begin_sim ti_begin_begun(1) ti_commit_sim ti_crossed_exact in blast)+

section \<open>Histories\<close>

datatype ti_op = Begin position_id | Register position_id asset_id side ray | Commit

fun ti_step :: "ti_op \<Rightarrow> threshold_index \<Rightarrow> threshold_index" where
  "ti_step (Begin p) ti = ti_begin ti p"
| "ti_step (Register p a sd price) ti = snd (ti_register ti p a sd price)"
| "ti_step Commit ti = ti_commit ti"

text \<open>The same history on plain multisets, for a universe of \<open>n\<close> assets.\<close>

type_synonym registrations = "side \<Rightarrow> asset_id \<Rightarrow> (u256 \<times> position_id) multiset"

fun table_step :: "nat \<Rightarrow> ti_op \<Rightarrow> registrations \<Rightarrow> registrations" where
  "table_step n (Begin p) T = (\<lambda>sd a. filter_mset (\<lambda>(_, q). q \<noteq> p) (T sd a))"
| "table_step n (Register p a sd price) T =
     (if unat a < n then T(sd := (T sd)(a := add_mset (ray_raw price, p) (T sd a))) else T)"
| "table_step n Commit T = T"

text \<open>Every registration follows a \<open>begin\<close> of its position.\<close>

fun begins_first :: "position_id list \<Rightarrow> ti_op list \<Rightarrow> bool" where
  "begins_first ps [] \<longleftrightarrow> True"
| "begins_first ps (Begin p # ops) \<longleftrightarrow> begins_first (p # ps) ops"
| "begins_first ps (Register p a sd price # ops) \<longleftrightarrow> p \<in> set ps \<and> begins_first ps ops"
| "begins_first ps (Commit # ops) \<longleftrightarrow> begins_first ps ops"

definition ti_run :: "nat \<Rightarrow> ti_op list \<Rightarrow> threshold_index" where
  "ti_run n ops = fold ti_step ops (ti_new n)"

definition table_run :: "nat \<Rightarrow> ti_op list \<Rightarrow> registrations" where
  "table_run n ops = fold (table_step n) ops (\<lambda>_ _. {#})"

lemma gens_bump_le:
  assumes "\<forall>g \<in> set gs. unat (g :: u32) \<le> n"
  shows "\<forall>x \<in> set (gs[i := gs ! i + 1]). unat x \<le> Suc n"
proof (cases "i < length gs")
  case True
  have "unat (gs ! i + 1) \<le> Suc (unat (gs ! i))"
    by (cases "gs ! i = - 1") (simp_all add: unat_plus_one)
  moreover have "unat (gs ! i) \<le> n" using assms nth_mem [OF True] by blast
  ultimately have "unat (gs ! i + 1) \<le> Suc n" by linarith
  moreover have "set (gs[i := gs ! i + 1]) \<subseteq> insert (gs ! i + 1) (set gs)" by (rule set_update_subset_insert)
  ultimately show ?thesis using assms le_SucI by blast
next
  case False
  then show ?thesis using assms by (auto simp: not_less list_update_beyond intro: le_SucI)
qed

lemma ti_begin_gens_le:
  assumes "\<forall>g \<in> set (ti_gen ti). unat g \<le> n"
  shows "\<forall>g \<in> set (ti_gen (ti_begin ti p)). unat g \<le> Suc n"
proof -
  let ?gs = "if unat p \<ge> length (ti_gen ti)
    then resize (ti_gen ti) (usize_saturating_add (unat p) 1) 0 else ti_gen ti"
  have le: "\<forall>g \<in> set ?gs. unat g \<le> n" using assms by (auto simp: resize_def dest: in_set_takeD)
  have "ti_gen (ti_begin ti p) = ?gs[unat p := ?gs ! unat p + 1]"
    by (auto simp: ti_begin_def Let_def get_def list_update_beyond not_less)
  then show ?thesis using gens_bump_le [OF le, of "unat p"] by (simp only:)
qed

definition hist_inv :: "nat \<Rightarrow> position_id list \<Rightarrow> nat \<Rightarrow> threshold_index \<Rightarrow> bool" where
  "hist_inv n ps k ti \<longleftrightarrow>
     ti_inv ti \<and> (\<forall>sd. length (arrays_of ti sd) = n) \<and> (\<forall>p \<in> set ps. ti_begun ti p) \<and>
     (\<forall>g \<in> set (ti_gen ti). unat g \<le> k)"

lemma ti_begin_arrays: "arrays_of (ti_begin ti p) = arrays_of ti"
  by (subst ti_begin_gen(1)) (simp add: arrays_of_def fun_eq_iff split: side.split)

lemma hist_room:
  assumes "hist_inv n ps k ti" and "k < 2 ^ 32 - 1"
  shows "ti_room ti p"
proof -
  have "unat (- 1 :: u32) = 2 ^ 32 - 1" by (simp add: unsigned_minus_1_eq_mask mask_eq_exp_minus_1)
  then show ?thesis
    using assms nth_mem [of "unat p" "ti_gen ti"] by (fastforce simp: ti_room_def hist_inv_def get_Some)
qed

lemma hist_begin:
  assumes "hist_inv n ps k ti" and "k < 2 ^ 32 - 1"
  shows "hist_inv n (p # ps) (Suc k) (ti_begin ti p)"
    and "table (ti_begin ti p) = table_step n (Begin p) (table ti)"
proof -
  have room: "ti_room ti p" by (rule hist_room [OF assms])
  note sim = ti_begin_sim [OF _ room]
  show "hist_inv n (p # ps) (Suc k) (ti_begin ti p)"
    using assms(1) sim(1) ti_begin_begun ti_begin_gens_le [of ti k p] by (simp add: hist_inv_def ti_begin_arrays)
  show "table (ti_begin ti p) = table_step n (Begin p) (table ti)"
    using assms(1) sim(2) by (simp add: hist_inv_def fun_eq_iff)
qed

lemma hist_register:
  assumes "hist_inv n ps k ti" and "p \<in> set ps"
  shows "hist_inv n ps k (snd (ti_register ti p a sd price))"
    and "table (snd (ti_register ti p a sd price)) = table_step n (Register p a sd price) (table ti)"
proof -
  obtain r ti' where reg: "ti_register ti p a sd price = (r, ti')" by fastforce
  have inv: "ti_inv ti" "unat p < length (ti_gen ti)" "length (arrays_of ti sd) = n"
    using assms by (simp_all add: hist_inv_def ti_begun_def)
  note sim = ti_register_sim [OF inv(1,2) reg]
  show "hist_inv n ps k (snd (ti_register ti p a sd price))"
    using assms(1) sim by (simp add: hist_inv_def reg ti_begun_def)
  show "table (snd (ti_register ti p a sd price)) = table_step n (Register p a sd price) (table ti)"
    using sim(2,3) inv(3) by (auto simp: reg fun_eq_iff)
qed

lemma hist_commit:
  assumes "hist_inv n ps k ti"
  shows "hist_inv n ps k (ti_commit ti)" and "table (ti_commit ti) = table ti"
  using assms ti_commit_sim
  by (auto simp: hist_inv_def ti_begun_def ti_commit_def arrays_of_def split: side.splits)

lemma hist_inv_mono: "hist_inv n ps k ti \<Longrightarrow> k \<le> k' \<Longrightarrow> hist_inv n ps k' ti"
  unfolding hist_inv_def by (meson order_trans)

lemma hist_fold:
  "hist_inv n ps k ti \<Longrightarrow> begins_first ps ops \<Longrightarrow> k + length ops < 2 ^ 32 \<Longrightarrow>
   (\<exists>ps'. hist_inv n ps' (k + length ops) (fold ti_step ops ti)) \<and>
   table (fold ti_step ops ti) = fold (table_step n) ops (table ti)"
proof (induction ps ops arbitrary: k ti rule: begins_first.induct)
  case (1 ps)
  then show ?case by auto
next
  case (2 ps p ops)
  then show ?case
    using hist_begin [OF "2.prems"(1), of p] "2.IH" [of "Suc k" "ti_begin ti p"] by (simp del: table_step.simps)
next
  case (3 ps p a sd price ops)
  let ?t = "snd (ti_register ti p a sd price)"
  have "p \<in> set ps" using "3.prems"(2) by simp
  note r = hist_register [OF "3.prems"(1) this, of a sd price]
  show ?case
    using "3.IH" [of "Suc k" ?t, OF hist_inv_mono [OF r(1)]] "3.prems"(2,3) r(2) by (simp del: table_step.simps)
next
  case (4 ps ops)
  note c = hist_commit [OF "4.prems"(1)]
  show ?case
    using "4.IH" [of "Suc k" "ti_commit ti", OF hist_inv_mono [OF c(1)]] "4.prems"(2,3) c(2) by simp
qed

lemma ti_run_hist:
  assumes "begins_first [] ops" and "length ops < 2 ^ 32"
  shows "(\<exists>ps. hist_inv n ps (length ops) (ti_run n ops)) \<and> table (ti_run n ops) = table_run n ops"
proof -
  have "hist_inv n [] 0 (ti_new n)"
    using ti_inv_new by (simp add: hist_inv_def ti_new_def arrays_of_def split: side.split)
  moreover have "table (ti_new n) = (\<lambda>_ _. {#})"
    by (auto simp: table_def entries_of_def ti_new_def arrays_of_def sorted_default_def sa_entries_def get_def
        fun_eq_iff split: side.split option.split)
  ultimately show ?thesis
    using hist_fold [of n "[]" 0 "ti_new n" ops] assms by (simp add: ti_run_def table_run_def)
qed

lemma ti_run_sim:
  "begins_first [] ops \<Longrightarrow> length ops < 2 ^ 32 \<Longrightarrow>
    ti_inv (ti_run n ops) \<and> table (ti_run n ops) = table_run n ops"
  using ti_run_hist [of ops n] unfolding hist_inv_def by blast

lemma ti_run_room: "begins_first [] ops \<Longrightarrow> length ops < 2 ^ 32 - 1 \<Longrightarrow> ti_room (ti_run n ops) p"
  using ti_run_hist [of ops n] hist_room [of n _ "length ops" "ti_run n ops"] by auto

lemma ti_register_ok: "unat a < length (arrays_of ti sd) \<Longrightarrow> fst (ti_register ti p a sd price) = Ok ()"
  by (cases sd) (simp_all add: ti_register_def arrays_of_def Let_def get_def)

section \<open>Properties\<close>

text \<open>
  C4. The index is exact. After any history of \<open>begin\<close>, \<open>register\<close> and \<open>commit\<close> in which a
  position is begun before it registers, a price move from \<open>old\<close> to \<open>new\<close> reports exactly the
  positions with a current threshold in the closed interval between the two prices, on the side the
  move crosses: stale entries never show, no live entry is missed, and neither commits nor merges
  change the answer.
\<close>

theorem threshold_crossed_exact:
  assumes "begins_first [] ops" and "length ops < 2 ^ 32"
  shows "mset (ti_crossed (ti_run n ops) a old new) =
    (if ray_raw new < ray_raw old then crossing (ray_raw new) (ray_raw old) (table_run n ops Falling a)
     else crossing (ray_raw old) (ray_raw new) (table_run n ops Rising a))"
  using ti_run_sim [OF assms, of n] ti_crossed_exact by simp

definition sample_history :: "ti_op list" where
  "sample_history =
     [Begin 1, Register 1 0 Falling (Ray 50), Begin 2, Register 2 0 Falling (Ray 70), Commit,
      Begin 1, Register 1 0 Falling (Ray 65), Commit]"

theorem threshold_crossed_exact_witness:
  "mset (ti_crossed (ti_run 1 sample_history) 0 (Ray 80) (Ray 60)) = {#1, 2#}"
  using threshold_crossed_exact [of sample_history, where n = 1 and a = 0 and old = "Ray 80" and new = "Ray 60"]
  by (simp add: sample_history_def table_run_def crossing_def)

text \<open>
  Re-registration replaces. Whatever was registered before, after \<open>begin\<close> and one successful
  \<open>register\<close> a position is reported by a price move iff the move is on that asset, crosses that side
  and its interval contains the new threshold.
\<close>

theorem threshold_reregister:
  assumes "begins_first [] ops" and "length ops < 2 ^ 32 - 1"
    and "ti_register (ti_begin (ti_run n ops) p) p a sd price = (Ok (), ti')"
  shows "p \<in> set (ti_crossed ti' b old new) \<longleftrightarrow>
    b = a \<and> sd = (if ray_raw new < ray_raw old then Falling else Rising) \<and>
    min (ray_raw old) (ray_raw new) \<le> ray_raw price \<and> ray_raw price \<le> max (ray_raw old) (ray_raw new)"
  using tix.reregistered [OF _ _ assms(3)] ti_run_sim [OF assms(1)] ti_run_room [OF assms(1,2)] assms(2) by simp

theorem threshold_reregister_witness:
  "2 \<in> set (ti_crossed (snd (ti_register (ti_begin (ti_run 1 sample_history) 2) 2 0 Falling (Ray 30)))
       0 (Ray 40) (Ray 30))"
proof -
  let ?t = "ti_begin (ti_run 1 sample_history) 2"
  have ops: "begins_first [] sample_history" "length sample_history < 2 ^ 32 - 1"
    by (simp_all add: sample_history_def)
  have "length (arrays_of ?t Falling) = 1"
    using ti_run_hist [OF ops(1), of 1] ops(2) by (auto simp: ti_begin_arrays hist_inv_def)
  then have "fst (ti_register ?t 2 0 Falling (Ray 30)) = Ok ()" by (simp add: ti_register_ok)
  then have reg: "ti_register ?t 2 0 Falling (Ray 30) = (Ok (), snd (ti_register ?t 2 0 Falling (Ray 30)))"
    by (simp add: prod_eq_iff)
  show ?thesis
    using threshold_reregister [OF ops reg, where b = 0 and old = "Ray 40" and new = "Ray 30"] by simp
qed

text \<open>
  \<open>register\<close> fails only for an asset outside the sized universe, with \<^verbatim>\<open>UnknownAsset\<close> of that
  asset, and then leaves the index as it was.
\<close>

theorem threshold_register_error:
  "fst (ti_register ti p a sd price) = Err e \<longleftrightarrow>
     e = EE_UnknownAsset a \<and> length (arrays_of ti sd) \<le> unat a \<and> snd (ti_register ti p a sd price) = ti"
  by (cases sd) (auto simp: ti_register_def arrays_of_def Let_def get_def)

end
