(* ===== verification/Risk_Gate.thy ===== *)
theory Risk_Gate
  imports Model_Types
begin

unbundle bit_operations_syntax

text \<open>
  The halt matrix and the risk gate, \<^verbatim>\<open>crates/liq-risk/src/matrix.rs\<close> and \<^verbatim>\<open>gate.rs\<close>. A hash map is a
  partial function; every method runs to completion under the locks it takes, so a method is one
  function of the gate, and log output is left out. A string is its UTF-8 bytes.
\<close>

section \<open>Halt matrix\<close>

datatype halt_class = Class_A | Class_B | Class_C

record matrix_row =
  mr_name :: string
  mr_metric :: string
  mr_threshold :: string
  mr_action :: string
  mr_class :: halt_class
  mr_reason :: "halt_reason option"

definition MATRIX :: "matrix_row list" where
  "MATRIX =
     [\<lparr>mr_name = ''node_lag'',
        mr_metric = ''head_ts vs wall clock'',
        mr_threshold = ''> 2 blocks (~24s)'',
        mr_action = ''Halt all submissions (Global); auto-clear on catch-up'',
        mr_class = Class_A, mr_reason = Some HR_NodeLag\<rparr>,
      \<lparr>mr_name = ''oracle_stale'',
        mr_metric = ''now '' @ [CHR 0xE2, CHR 0x88, CHR 0x92] @ '' last_update'',
        mr_threshold = ''> heartbeat '' @ [CHR 0xC3, CHR 0x97] @ '' 1.5'',
        mr_action = ''Mark asset untradeable; clear on next fresh update'',
        mr_class = Class_A, mr_reason = Some HR_OracleStale\<rparr>,
      \<lparr>mr_name = ''mevshare_disconnected'',
        mr_metric = ''SSE heartbeat age'',
        mr_threshold = ''> 60s'',
        mr_action = ''Halt Trigger(SvrAuction) only'',
        mr_class = Class_A, mr_reason = Some HR_MevShareDisconnected\<rparr>,
      \<lparr>mr_name = ''flash_liquidity_collapse'',
        mr_metric = ''FlashIndex available vs baseline'',
        mr_threshold = ''drop > collapse_bps'',
        mr_action = ''Mark asset ineligible; never Global'',
        mr_class = Class_A, mr_reason = Some HR_FlashLiquidityCollapse\<rparr>,
      \<lparr>mr_name = ''flash_callback_revert_streak'',
        mr_metric = ''consecutive callback reverts per provider'',
        mr_threshold = ''>= revert_streak'',
        mr_action = ''Disable that FlashProvider; fall back'',
        mr_class = Class_A, mr_reason = Some HR_FlashCallbackRevertStreak\<rparr>,
      \<lparr>mr_name = ''reorg_too_deep'',
        mr_metric = ''unwind ancestor vs undo ring'',
        mr_threshold = ''ancestor not in ring'',
        mr_action = ''Halt Global; clear when snapshot rebuild completes'',
        mr_class = Class_A, mr_reason = Some HR_ReorgTooDeep\<rparr>,
      \<lparr>mr_name = ''gas_wallet_below_floor'',
        mr_metric = ''operator-key ETH balance'',
        mr_threshold = ''balance < gas_floor[key]'',
        mr_action = ''Halt that key only; clear on top-up'',
        mr_class = Class_A, mr_reason = Some HR_GasWalletBelowFloor\<rparr>,
      \<lparr>mr_name = ''adapter_panic'',
        mr_metric = ''catch_unwind on protocol apply'',
        mr_threshold = ''panic this block'',
        mr_action = ''Halt that protocol; auto-clear after contained unwind'',
        mr_class = Class_A, mr_reason = Some HR_AdapterPanic\<rparr>,
      \<lparr>mr_name = ''proxy_upgrade'',
        mr_metric = ''EIP-1967 implementation slot'',
        mr_threshold = ''slot value '' @ [CHR 0xE2, CHR 0x89, CHR 0xA0] @ '' last seen'',
        mr_action = ''Class B halt that protocol or flash provider'',
        mr_class = Class_B, mr_reason = Some HR_ProxyUpgrade\<rparr>,
      \<lparr>mr_name = ''drift_mismatch'',
        mr_metric = ''health() vs health_probe EWMA'',
        mr_threshold = ''> max_mismatch_bps (02B/05C)'',
        mr_action = ''Class B halt that protocol (math bug; needs code)'',
        mr_class = Class_B, mr_reason = Some HR_DriftMismatch\<rparr>,
      \<lparr>mr_name = ''sim_chain_divergence'',
        mr_metric = ''consecutive sim-pass / chain-revert'',
        mr_threshold = ''>= sim_chain_streak'',
        mr_action = ''Class B halt that protocol; dump state'',
        mr_class = Class_B, mr_reason = Some HR_SimChainDivergence\<rparr>,
      \<lparr>mr_name = ''gas_spend_rate'',
        mr_metric = ''rolling gas spend vs revenue'',
        mr_threshold = ''config anomaly window'',
        mr_action = ''Alert only'',
        mr_class = Class_C, mr_reason = None\<rparr>,
      \<lparr>mr_name = ''pnl_drawdown'',
        mr_metric = ''rolling realized PnL vs limit'',
        mr_threshold = ''config drawdown window'',
        mr_action = ''Alert only (D13b; not a halt)'',
        mr_class = Class_C, mr_reason = None\<rparr>,
      \<lparr>mr_name = ''proxy_admin_ownership'',
        mr_metric = ''ProxyAdmin.OwnershipTransferred (V4)'',
        mr_threshold = ''any transfer'',
        mr_action = ''Alert only (03C early warning)'',
        mr_class = Class_C, mr_reason = None\<rparr>,
      \<lparr>mr_name = ''acl_role_granted'',
        mr_metric = ''ACL RoleGranted (V3)'',
        mr_threshold = ''any grant'',
        mr_action = ''Alert only (03C early warning)'',
        mr_class = Class_C, mr_reason = None\<rparr>,
      \<lparr>mr_name = ''single_flash_source'',
        mr_metric = ''viable FlashIndex sources per major debt asset'',
        mr_threshold = ''< 2'',
        mr_action = ''Alert only'',
        mr_class = Class_C, mr_reason = None\<rparr>,
      \<lparr>mr_name = ''provider_concentration'',
        mr_metric = ''liquidations through one FlashProvider / total'',
        mr_threshold = ''>= concentration_bps'',
        mr_action = ''Alert only'',
        mr_class = Class_C, mr_reason = None\<rparr>,
      \<lparr>mr_name = ''flash_depth_short'',
        mr_metric = ''available vs median liquidation notional'',
        mr_threshold = ''available < median'',
        mr_action = ''Alert only'',
        mr_class = Class_C, mr_reason = None\<rparr>,
      \<lparr>mr_name = ''health_wrong'',
        mr_metric = ''watcher vs engine HealthWrong (09A)'',
        mr_threshold = ''any'',
        mr_action = ''Alert only until 09A alarm wiring'',
        mr_class = Class_C, mr_reason = None\<rparr>]"

fun class_of :: "halt_reason \<Rightarrow> halt_class" where
  "class_of HR_NodeLag = Class_A"
| "class_of HR_OracleStale = Class_A"
| "class_of HR_MevShareDisconnected = Class_A"
| "class_of HR_FlashLiquidityCollapse = Class_A"
| "class_of HR_FlashCallbackRevertStreak = Class_A"
| "class_of HR_ReorgTooDeep = Class_A"
| "class_of HR_GasWalletBelowFloor = Class_A"
| "class_of HR_AdapterPanic = Class_A"
| "class_of HR_ProxyUpgrade = Class_B"
| "class_of HR_DriftMismatch = Class_B"
| "class_of HR_SimChainDivergence = Class_B"

definition class_c_rows :: "matrix_row list" where
  "class_c_rows = filter (\<lambda>r. mr_class r = Class_C) MATRIX"

section \<open>The gate\<close>

datatype allow = Allow_Yes | Allow_Denied halt_scope halt_reason

record allow_query =
  q_protocol :: protocol_id
  q_market :: market_id
  q_collateral :: asset_id
  q_debt :: asset_id
  q_flash :: flash_provider
  q_trigger :: trigger_kind
  q_operator_key :: address

record halt_entry =
  he_reason :: halt_reason
  he_metric :: u64

record action_required =
  ar_protocol :: "protocol_id option"
  ar_flash :: "flash_provider option"
  ar_reason :: halt_reason
  ar_metric :: u64
  ar_scope :: halt_scope

record risk_gate =
  rg_global :: u64
  rg_protocols :: "protocol_id \<Rightarrow> halt_entry option"
  rg_markets :: "market_id \<Rightarrow> halt_entry option"
  rg_assets :: "asset_id \<Rightarrow> halt_entry option"
  rg_flash :: "flash_provider \<Rightarrow> halt_entry option"
  rg_triggers :: "trigger_kind \<Rightarrow> halt_entry option"
  rg_keys :: "address \<Rightarrow> halt_entry option"
  rg_action_required :: "action_required list"
  rg_sim_chain_streak :: "protocol_id \<Rightarrow> u32 option"
  rg_callback_streak :: "flash_provider \<Rightarrow> u32 option"
  rg_sim_chain_threshold :: u32
  rg_callback_revert_threshold :: u32

definition G_NODE :: u64 where
  "G_NODE = 1"

definition G_REORG :: u64 where
  "G_REORG = 2"

definition rg_new :: risk_gate where
  "rg_new = \<lparr>rg_global = 0, rg_protocols = Map.empty, rg_markets = Map.empty, rg_assets = Map.empty,
     rg_flash = Map.empty, rg_triggers = Map.empty, rg_keys = Map.empty, rg_action_required = [],
     rg_sim_chain_streak = Map.empty, rg_callback_streak = Map.empty, rg_sim_chain_threshold = 3,
     rg_callback_revert_threshold = 3\<rparr>"

definition rg_allow :: "risk_gate \<Rightarrow> allow_query \<Rightarrow> allow" where
  "rg_allow g q =
     (if rg_global g AND G_NODE \<noteq> 0 then Allow_Denied HS_Global HR_NodeLag
      else if rg_global g AND G_REORG \<noteq> 0 then Allow_Denied HS_Global HR_ReorgTooDeep
      else case rg_protocols g (q_protocol q) of
        Some e \<Rightarrow> Allow_Denied (HS_Protocol (q_protocol q)) (he_reason e)
      | None \<Rightarrow> (case rg_markets g (q_market q) of
        Some e \<Rightarrow> Allow_Denied (HS_Market (q_market q)) (he_reason e)
      | None \<Rightarrow> (case rg_assets g (q_debt q) of
        Some e \<Rightarrow> Allow_Denied (HS_Asset (q_debt q)) (he_reason e)
      | None \<Rightarrow> (case rg_assets g (q_collateral q) of
        Some e \<Rightarrow> Allow_Denied (HS_Asset (q_collateral q)) (he_reason e)
      | None \<Rightarrow> (case rg_flash g (q_flash q) of
        Some e \<Rightarrow> Allow_Denied (HS_FlashProvider (q_flash q)) (he_reason e)
      | None \<Rightarrow> (case rg_triggers g (q_trigger q) of
        Some e \<Rightarrow> Allow_Denied (HS_Trigger (q_trigger q)) (he_reason e)
      | None \<Rightarrow> (case rg_keys g (q_operator_key q) of
        Some e \<Rightarrow> Allow_Denied HS_Global (he_reason e)
      | None \<Rightarrow> Allow_Yes)))))))"

definition normalize_scope :: "halt_scope \<Rightarrow> halt_reason \<Rightarrow> halt_class \<Rightarrow> halt_scope option" where
  "normalize_scope scope reason cls =
     (case reason of
        HR_NodeLag \<Rightarrow> Some HS_Global
      | HR_ReorgTooDeep \<Rightarrow> Some HS_Global
      | HR_MevShareDisconnected \<Rightarrow> Some (HS_Trigger SvrAuction)
      | HR_GasWalletBelowFloor \<Rightarrow> None
      | _ \<Rightarrow> if cls = Class_B \<and> scope = HS_Global then None else Some scope)"

fun apply_halt :: "risk_gate \<Rightarrow> halt_scope \<Rightarrow> halt_reason \<Rightarrow> u64 \<Rightarrow> risk_gate" where
  "apply_halt g HS_Global reason metric =
     (case reason of
        HR_NodeLag \<Rightarrow> g\<lparr>rg_global := rg_global g OR G_NODE\<rparr>
      | HR_ReorgTooDeep \<Rightarrow> g\<lparr>rg_global := rg_global g OR G_REORG\<rparr>
      | _ \<Rightarrow> g)"
| "apply_halt g (HS_Protocol p) reason metric =
     g\<lparr>rg_protocols := (rg_protocols g)(p \<mapsto> \<lparr>he_reason = reason, he_metric = metric\<rparr>)\<rparr>"
| "apply_halt g (HS_Market m) reason metric =
     g\<lparr>rg_markets := (rg_markets g)(m \<mapsto> \<lparr>he_reason = reason, he_metric = metric\<rparr>)\<rparr>"
| "apply_halt g (HS_Asset a) reason metric =
     g\<lparr>rg_assets := (rg_assets g)(a \<mapsto> \<lparr>he_reason = reason, he_metric = metric\<rparr>)\<rparr>"
| "apply_halt g (HS_FlashProvider p) reason metric =
     g\<lparr>rg_flash := (rg_flash g)(p \<mapsto> \<lparr>he_reason = reason, he_metric = metric\<rparr>)\<rparr>"
| "apply_halt g (HS_Trigger t) reason metric =
     g\<lparr>rg_triggers := (rg_triggers g)(t \<mapsto> \<lparr>he_reason = reason, he_metric = metric\<rparr>)\<rparr>"

definition rg_halt :: "risk_gate \<Rightarrow> halt_scope \<Rightarrow> halt_reason \<Rightarrow> risk_gate" where
  "rg_halt g scope reason =
     (let cls = class_of reason in
      case normalize_scope scope reason cls of
        None \<Rightarrow> g
      | Some scope \<Rightarrow>
          (case cls of
             Class_C \<Rightarrow> g
           | Class_A \<Rightarrow> apply_halt g scope reason 0
           | Class_B \<Rightarrow>
               let g = apply_halt g scope reason 0;
                   rec = \<lparr>ar_protocol = (case scope of HS_Protocol p \<Rightarrow> Some p | _ \<Rightarrow> None),
                          ar_flash = (case scope of HS_FlashProvider p \<Rightarrow> Some p | _ \<Rightarrow> None),
                          ar_reason = reason, ar_metric = 0, ar_scope = scope\<rparr>
               in g\<lparr>rg_action_required := rg_action_required g @ [rec]\<rparr>))"

text \<open>\<open>remove_if\<close>: take a key out of one of the maps when its entry has the reason.\<close>

definition remove_if :: "halt_reason \<Rightarrow> 'k \<Rightarrow> ('k \<Rightarrow> halt_entry option) \<Rightarrow> 'k \<Rightarrow> halt_entry option" where
  "remove_if reason k m =
     (case m k of Some e \<Rightarrow> if he_reason e = reason then m(k := None) else m | None \<Rightarrow> m)"

fun rg_remove :: "risk_gate \<Rightarrow> halt_scope \<Rightarrow> halt_reason \<Rightarrow> risk_gate" where
  "rg_remove g HS_Global reason =
     (case reason of
        HR_NodeLag \<Rightarrow> g\<lparr>rg_global := rg_global g AND NOT G_NODE\<rparr>
      | HR_ReorgTooDeep \<Rightarrow> g\<lparr>rg_global := rg_global g AND NOT G_REORG\<rparr>
      | _ \<Rightarrow> g)"
| "rg_remove g (HS_Protocol p) reason = g\<lparr>rg_protocols := remove_if reason p (rg_protocols g)\<rparr>"
| "rg_remove g (HS_Market m) reason = g\<lparr>rg_markets := remove_if reason m (rg_markets g)\<rparr>"
| "rg_remove g (HS_Asset a) reason = g\<lparr>rg_assets := remove_if reason a (rg_assets g)\<rparr>"
| "rg_remove g (HS_FlashProvider p) reason = g\<lparr>rg_flash := remove_if reason p (rg_flash g)\<rparr>"
| "rg_remove g (HS_Trigger t) reason = g\<lparr>rg_triggers := remove_if reason t (rg_triggers g)\<rparr>"

definition clear_auto :: "risk_gate \<Rightarrow> halt_scope \<Rightarrow> halt_reason \<Rightarrow> risk_gate" where
  "clear_auto g scope reason = (if class_of reason \<noteq> Class_A then g else rg_remove g scope reason)"

definition clear_after_ship :: "risk_gate \<Rightarrow> halt_scope \<Rightarrow> halt_reason \<Rightarrow> risk_gate" where
  "clear_after_ship g scope reason =
     (if class_of reason \<noteq> Class_B then g
      else
        let g = rg_remove g scope reason in
        g\<lparr>rg_action_required :=
            filter (\<lambda>a. \<not> (ar_scope a = scope \<and> ar_reason a = reason)) (rg_action_required g)\<rparr>)"

definition operator_halt :: "risk_gate \<Rightarrow> protocol_id \<Rightarrow> risk_gate" where
  "operator_halt g protocol = rg_halt g (HS_Protocol protocol) HR_DriftMismatch"

definition observe_node_lag :: "risk_gate \<Rightarrow> u64 \<Rightarrow> risk_gate" where
  "observe_node_lag g lag_blocks =
     (if lag_blocks > 2 then rg_halt g HS_Global HR_NodeLag else clear_auto g HS_Global HR_NodeLag)"

definition observe_reorg_rebuild_done :: "risk_gate \<Rightarrow> risk_gate" where
  "observe_reorg_rebuild_done g = clear_auto g HS_Global HR_ReorgTooDeep"

definition observe_oracle_fresh :: "risk_gate \<Rightarrow> asset_id \<Rightarrow> risk_gate" where
  "observe_oracle_fresh g asset = clear_auto g (HS_Asset asset) HR_OracleStale"

definition observe_mevshare :: "risk_gate \<Rightarrow> u64 \<Rightarrow> risk_gate" where
  "observe_mevshare g heartbeat_age_secs =
     (let scope = HS_Trigger SvrAuction in
      if heartbeat_age_secs > 60 then rg_halt g scope HR_MevShareDisconnected
      else clear_auto g scope HR_MevShareDisconnected)"

definition observe_gas_key :: "risk_gate \<Rightarrow> address \<Rightarrow> u128 \<Rightarrow> u128 \<Rightarrow> risk_gate" where
  "observe_gas_key g key balance_wei floor_wei =
     (if balance_wei < floor_wei
      then g\<lparr>rg_keys := (rg_keys g)(key \<mapsto> \<lparr>he_reason = HR_GasWalletBelowFloor, he_metric = 1\<rparr>)\<rparr>
      else g\<lparr>rg_keys := (rg_keys g)(key := None)\<rparr>)"

definition observe_sim_chain :: "risk_gate \<Rightarrow> protocol_id \<Rightarrow> bool \<Rightarrow> bool \<Rightarrow> risk_gate" where
  "observe_sim_chain g protocol sim_passed chain_reverted =
     (if \<not> (sim_passed \<and> chain_reverted)
      then g\<lparr>rg_sim_chain_streak := (rg_sim_chain_streak g)(protocol \<mapsto> 0)\<rparr>
      else
        let e = (case rg_sim_chain_streak g protocol of None \<Rightarrow> 0 | Some e \<Rightarrow> e);
            n = saturating_add e 1;
            g = g\<lparr>rg_sim_chain_streak := (rg_sim_chain_streak g)(protocol \<mapsto> n)\<rparr>
        in if n \<ge> rg_sim_chain_threshold g
           then rg_halt g (HS_Protocol protocol) HR_SimChainDivergence else g)"

definition observe_callback_revert :: "risk_gate \<Rightarrow> flash_provider \<Rightarrow> bool \<Rightarrow> risk_gate" where
  "observe_callback_revert g provider reverted =
     (if \<not> reverted then
        let g = g\<lparr>rg_callback_streak := (rg_callback_streak g)(provider \<mapsto> 0)\<rparr>
        in clear_auto g (HS_FlashProvider provider) HR_FlashCallbackRevertStreak
      else
        let e = (case rg_callback_streak g provider of None \<Rightarrow> 0 | Some e \<Rightarrow> e);
            n = saturating_add e 1;
            g = g\<lparr>rg_callback_streak := (rg_callback_streak g)(provider \<mapsto> n)\<rparr>
        in if n \<ge> rg_callback_revert_threshold g
           then rg_halt g (HS_FlashProvider provider) HR_FlashCallbackRevertStreak else g)"

definition observe_liquidity_collapse :: "risk_gate \<Rightarrow> asset_id \<Rightarrow> u32 \<Rightarrow> u32 \<Rightarrow> risk_gate" where
  "observe_liquidity_collapse g asset drop_bps threshold_bps =
     (if drop_bps > threshold_bps then rg_halt g (HS_Asset asset) HR_FlashLiquidityCollapse
      else clear_auto g (HS_Asset asset) HR_FlashLiquidityCollapse)"

definition rg_clear :: "risk_gate \<Rightarrow> halt_scope \<Rightarrow> halt_reason \<Rightarrow> risk_gate" where
  "rg_clear g scope reason =
     (case (reason, scope) of
        (HR_OracleStale, HS_Asset asset) \<Rightarrow> observe_oracle_fresh g asset
      | _ \<Rightarrow> clear_auto g scope reason)"

section \<open>What is halted\<close>

definition node_bit :: "risk_gate \<Rightarrow> bool" where
  "node_bit g \<longleftrightarrow> rg_global g AND G_NODE \<noteq> 0"

definition reorg_bit :: "risk_gate \<Rightarrow> bool" where
  "reorg_bit g \<longleftrightarrow> rg_global g AND G_REORG \<noteq> 0"

fun entry_at :: "risk_gate \<Rightarrow> halt_scope \<Rightarrow> halt_reason option" where
  "entry_at g HS_Global = None"
| "entry_at g (HS_Protocol p) = map_option he_reason (rg_protocols g p)"
| "entry_at g (HS_Market m) = map_option he_reason (rg_markets g m)"
| "entry_at g (HS_Asset a) = map_option he_reason (rg_assets g a)"
| "entry_at g (HS_FlashProvider p) = map_option he_reason (rg_flash g p)"
| "entry_at g (HS_Trigger t) = map_option he_reason (rg_triggers g t)"

text \<open>The halts in force and the scopes a candidate falls under.\<close>

definition in_force :: "risk_gate \<Rightarrow> halt_scope \<Rightarrow> halt_reason \<Rightarrow> bool" where
  "in_force g scope reason \<longleftrightarrow>
     entry_at g scope = Some reason \<or>
     scope = HS_Global \<and> (reason = HR_NodeLag \<and> node_bit g \<or> reason = HR_ReorgTooDeep \<and> reorg_bit g)"

fun covers :: "halt_scope \<Rightarrow> allow_query \<Rightarrow> bool" where
  "covers HS_Global q \<longleftrightarrow> True"
| "covers (HS_Protocol p) q \<longleftrightarrow> q_protocol q = p"
| "covers (HS_Market m) q \<longleftrightarrow> q_market q = m"
| "covers (HS_Asset a) q \<longleftrightarrow> q_debt q = a \<or> q_collateral q = a"
| "covers (HS_FlashProvider p) q \<longleftrightarrow> q_flash q = p"
| "covers (HS_Trigger t) q \<longleftrightarrow> q_trigger q = t"

lemma allow_yes_iff:
  "rg_allow g q = Allow_Yes \<longleftrightarrow>
     (\<forall>scope reason. in_force g scope reason \<longrightarrow> \<not> covers scope q) \<and> rg_keys g (q_operator_key q) = None"
  (is "?l \<longleftrightarrow> ?r")
proof
  assume l: ?l
  have "\<not> covers scope q" if "in_force g scope reason" for scope reason
    using l that
    by (cases scope)
      (auto simp: rg_allow_def in_force_def node_bit_def reorg_bit_def split: if_splits option.splits)
  moreover have "rg_keys g (q_operator_key q) = None"
    using l by (auto simp: rg_allow_def split: if_splits option.splits)
  ultimately show ?r by blast
next
  assume r: ?r
  then have no: "entry_at g scope = None" if "covers scope q" for scope
    using that by (cases "entry_at g scope") (auto simp: in_force_def)
  have "\<not> node_bit g" "\<not> reorg_bit g" using r by (auto simp: in_force_def)
  then show ?l
    using no [of "HS_Protocol (q_protocol q)"] no [of "HS_Market (q_market q)"] no [of "HS_Asset (q_debt q)"]
      no [of "HS_Asset (q_collateral q)"] no [of "HS_FlashProvider (q_flash q)"] no [of "HS_Trigger (q_trigger q)"] r
    by (simp add: rg_allow_def node_bit_def reorg_bit_def)
qed

lemma in_force_denies: "in_force g s r \<Longrightarrow> covers s q \<Longrightarrow> rg_allow g q \<noteq> Allow_Yes"
  unfolding allow_yes_iff by blast

lemma allow_denied:
  assumes "rg_allow g q = Allow_Denied scope reason"
  shows "in_force g scope reason \<and> covers scope q \<or>
    (\<exists>e. rg_keys g (q_operator_key q) = Some e \<and> scope = HS_Global \<and> reason = he_reason e)"
  using assms
  by (auto simp: rg_allow_def in_force_def node_bit_def reorg_bit_def split: if_splits option.splits)

lemma entry_at_apply:
  "entry_at (apply_halt g scope reason n) s = (if s = scope \<and> s \<noteq> HS_Global then Some reason else entry_at g s)"
  by (cases scope; cases s) (auto split: halt_reason.splits)

lemma entry_at_remove:
  "entry_at (rg_remove g scope reason) s =
     (if s = scope \<and> entry_at g s = Some reason then None else entry_at g s)"
  by (cases scope; cases s) (auto simp: remove_if_def split: halt_reason.splits option.splits)

lemma entry_at_frame [simp]:
  "entry_at (g\<lparr>rg_action_required := x\<rparr>) s = entry_at g s"
  "entry_at (g\<lparr>rg_sim_chain_streak := y\<rparr>) s = entry_at g s"
  "entry_at (g\<lparr>rg_callback_streak := z\<rparr>) s = entry_at g s"
  "entry_at (g\<lparr>rg_keys := w\<rparr>) s = entry_at g s"
  by (cases s; simp)+

lemma entry_at_halt:
  "entry_at (rg_halt g scope reason) s =
     (if normalize_scope scope reason (class_of reason) = Some s \<and> s \<noteq> HS_Global then Some reason
      else entry_at g s)"
proof -
  have "class_of reason \<noteq> Class_C" by (cases reason) auto
  then show ?thesis
    by (auto simp: rg_halt_def Let_def entry_at_apply split: option.splits halt_class.splits)
qed

lemma entry_at_clear_auto:
  "entry_at (clear_auto g scope reason) s =
     (if s = scope \<and> entry_at g s = Some reason \<and> class_of reason = Class_A then None else entry_at g s)"
  by (auto simp: clear_auto_def entry_at_remove)

lemma entry_at_clear_after_ship:
  "entry_at (clear_after_ship g scope reason) s =
     (if s = scope \<and> entry_at g s = Some reason \<and> class_of reason = Class_B then None else entry_at g s)"
  by (auto simp: clear_after_ship_def entry_at_remove Let_def)

lemma node_bit_iff: "node_bit g \<longleftrightarrow> bit (rg_global g) 0"
  using and_exp_eq_0_iff_not_bit [of "rg_global g" 0] by (simp add: node_bit_def G_NODE_def)

lemma reorg_bit_iff: "reorg_bit g \<longleftrightarrow> bit (rg_global g) (Suc 0)"
  using and_exp_eq_0_iff_not_bit [of "rg_global g" "Suc 0"] by (simp add: reorg_bit_def G_REORG_def)

lemma flag_bits:
  "bit G_NODE 0" "\<not> bit G_NODE (Suc 0)" "bit G_REORG (Suc 0)" "\<not> bit G_REORG 0"
  by (simp_all add: G_NODE_def G_REORG_def bit_0 bit_1_iff bit_Suc)

lemma global_apply:
  "rg_global (apply_halt g s reason n) =
     (if s = HS_Global \<and> reason = HR_NodeLag then rg_global g OR G_NODE
      else if s = HS_Global \<and> reason = HR_ReorgTooDeep then rg_global g OR G_REORG else rg_global g)"
  by (cases s) (auto split: halt_reason.splits)

lemma global_halt:
  "rg_global (rg_halt g scope reason) =
     (if reason = HR_NodeLag then rg_global g OR G_NODE
      else if reason = HR_ReorgTooDeep then rg_global g OR G_REORG else rg_global g)"
  by (cases reason) (auto simp: rg_halt_def Let_def normalize_scope_def global_apply)

lemma bits_halt:
  "node_bit (rg_halt g scope reason) \<longleftrightarrow> reason = HR_NodeLag \<or> node_bit g"
  "reorg_bit (rg_halt g scope reason) \<longleftrightarrow> reason = HR_ReorgTooDeep \<or> reorg_bit g"
  by (simp_all add: node_bit_iff reorg_bit_iff global_halt bit_or_iff flag_bits)

section \<open>Histories\<close>

datatype gate_op =
    Halt halt_scope halt_reason
  | Clear halt_scope halt_reason
  | Clear_Auto halt_scope halt_reason
  | Clear_After_Ship halt_scope halt_reason
  | Operator_Halt protocol_id
  | Node_Lag u64
  | Reorg_Rebuild_Done
  | Oracle_Fresh asset_id
  | Mevshare u64
  | Gas_Key address u128 u128
  | Sim_Chain protocol_id bool bool
  | Callback_Revert flash_provider bool
  | Liquidity_Collapse asset_id u32 u32

fun gate_step :: "gate_op \<Rightarrow> risk_gate \<Rightarrow> risk_gate" where
  "gate_step (Halt s r) g = rg_halt g s r"
| "gate_step (Clear s r) g = rg_clear g s r"
| "gate_step (Clear_Auto s r) g = clear_auto g s r"
| "gate_step (Clear_After_Ship s r) g = clear_after_ship g s r"
| "gate_step (Operator_Halt p) g = operator_halt g p"
| "gate_step (Node_Lag n) g = observe_node_lag g n"
| "gate_step Reorg_Rebuild_Done g = observe_reorg_rebuild_done g"
| "gate_step (Oracle_Fresh a) g = observe_oracle_fresh g a"
| "gate_step (Mevshare n) g = observe_mevshare g n"
| "gate_step (Gas_Key k b f) g = observe_gas_key g k b f"
| "gate_step (Sim_Chain p s c) g = observe_sim_chain g p s c"
| "gate_step (Callback_Revert p r) g = observe_callback_revert g p r"
| "gate_step (Liquidity_Collapse a d t) g = observe_liquidity_collapse g a d t"

lemmas gate_op_defs = rg_clear_def operator_halt_def observe_node_lag_def observe_reorg_rebuild_done_def
  observe_oracle_fresh_def observe_mevshare_def observe_gas_key_def observe_sim_chain_def
  observe_callback_revert_def observe_liquidity_collapse_def

text \<open>
  The operations that can displace a Class B halt \<open>r\<close> at scope \<open>s\<close>: its own clearing after a
  shipped change, or a halt of the same scope for another reason, which overwrites the entry.
\<close>

fun displaces :: "halt_scope \<Rightarrow> halt_reason \<Rightarrow> gate_op \<Rightarrow> bool" where
  "displaces s r (Halt s' r') \<longleftrightarrow> normalize_scope s' r' (class_of r') = Some s \<and> r' \<noteq> r"
| "displaces s r (Clear_After_Ship s' r') \<longleftrightarrow> s' = s \<and> r' = r"
| "displaces s r (Operator_Halt p) \<longleftrightarrow> s = HS_Protocol p \<and> r \<noteq> HR_DriftMismatch"
| "displaces s r (Mevshare n) \<longleftrightarrow> n > 60 \<and> s = HS_Trigger SvrAuction"
| "displaces s r (Sim_Chain p a c) \<longleftrightarrow> a \<and> c \<and> s = HS_Protocol p \<and> r \<noteq> HR_SimChainDivergence"
| "displaces s r (Callback_Revert p b) \<longleftrightarrow> b \<and> s = HS_FlashProvider p"
| "displaces s r (Liquidity_Collapse a d t) \<longleftrightarrow> d > t \<and> s = HS_Asset a"
| "displaces s r _ \<longleftrightarrow> False"

lemma entry_at_clear:
  "entry_at (rg_clear g scope reason) s =
     (if s = scope \<and> entry_at g s = Some reason \<and> class_of reason = Class_A then None else entry_at g s)"
proof -
  have "rg_clear g scope reason = clear_auto g scope reason"
    by (auto simp: rg_clear_def observe_oracle_fresh_def split: halt_reason.split halt_scope.split)
  then show ?thesis by (simp add: entry_at_clear_auto)
qed

lemma class_b_step:
  assumes "entry_at g s = Some r" and "class_of r = Class_B" and "\<not> displaces s r op"
  shows "entry_at (gate_step op g) s = Some r"
proof (cases op)
  case (Clear s' r')
  then show ?thesis using assms by (auto simp: entry_at_clear)
qed (use assms in \<open>auto simp: gate_op_defs Let_def entry_at_halt entry_at_clear_auto entry_at_clear_after_ship
      normalize_scope_def\<close>)

lemma class_b_run:
  "entry_at g s = Some r \<Longrightarrow> class_of r = Class_B \<Longrightarrow> list_all (\<lambda>op. \<not> displaces s r op) ops \<Longrightarrow>
     entry_at (fold gate_step ops g) s = Some r"
  by (induction ops arbitrary: g) (simp_all add: class_b_step)

text \<open>The work queue.\<close>

lemma queue_apply [simp]: "rg_action_required (apply_halt g s r n) = rg_action_required g"
  by (cases s) (auto split: halt_reason.split)

lemma queue_remove [simp]: "rg_action_required (rg_remove g s r) = rg_action_required g"
  by (cases s) (auto split: halt_reason.split)

definition queued :: "risk_gate \<Rightarrow> halt_scope \<Rightarrow> halt_reason \<Rightarrow> bool" where
  "queued g s r \<longleftrightarrow> (\<exists>a \<in> set (rg_action_required g). ar_scope a = s \<and> ar_reason a = r)"

lemma queued_halt:
  "queued (rg_halt g scope reason) s r \<longleftrightarrow> queued g s r \<or>
     (r = reason \<and> class_of reason = Class_B \<and> s = scope \<and> s \<noteq> HS_Global)"
  by (cases reason)
    (auto simp: queued_def rg_halt_def Let_def normalize_scope_def split: halt_reason.splits)

lemma queued_frame [simp]:
  "queued (clear_auto g s' r') s r = queued g s r"
  "queued (g\<lparr>rg_sim_chain_streak := y\<rparr>) s r = queued g s r"
  "queued (g\<lparr>rg_callback_streak := z\<rparr>) s r = queued g s r"
  "queued (g\<lparr>rg_keys := w\<rparr>) s r = queued g s r"
  by (simp_all add: queued_def clear_auto_def)

lemma queued_clear_after_ship:
  "queued (clear_after_ship g s' r') s r \<longleftrightarrow>
     queued g s r \<and> \<not> (s = s' \<and> r = r' \<and> class_of r' = Class_B)"
  by (auto simp: queued_def clear_after_ship_def Let_def)

lemma queued_step:
  assumes "queued g s r" and "op \<noteq> Clear_After_Ship s r"
  shows "queued (gate_step op g) s r"
proof (cases op)
  case (Clear s' r')
  then show ?thesis
    using assms by (auto simp: rg_clear_def observe_oracle_fresh_def split: halt_reason.split halt_scope.split)
qed (use assms in \<open>auto simp: gate_op_defs Let_def queued_halt queued_clear_after_ship\<close>)

lemma queued_run:
  "queued g s r \<Longrightarrow> Clear_After_Ship s r \<notin> set ops \<Longrightarrow> queued (fold gate_step ops g) s r"
  by (induction ops arbitrary: g) (auto simp: queued_step)

text \<open>A streak of simulated passes that revert on chain.\<close>

lemma threshold_halt [simp]: "rg_sim_chain_threshold (rg_halt g s r) = rg_sim_chain_threshold g"
  and streak_halt [simp]: "rg_sim_chain_streak (rg_halt g s r) = rg_sim_chain_streak g"
proof -
  have *: "rg_sim_chain_threshold (apply_halt g s r n) = rg_sim_chain_threshold g \<and>
      rg_sim_chain_streak (apply_halt g s r n) = rg_sim_chain_streak g" for g s n
    by (cases s) (auto split: halt_reason.split)
  show "rg_sim_chain_threshold (rg_halt g s r) = rg_sim_chain_threshold g"
    and "rg_sim_chain_streak (rg_halt g s r) = rg_sim_chain_streak g"
    using * by (auto simp: rg_halt_def Let_def split: option.split halt_class.split)
qed

lemma streak_step:
  assumes "rg_sim_chain_streak g p = Some k" and "unat k = n" and "Suc n < 2 ^ 32"
  shows "rg_sim_chain_streak (observe_sim_chain g p True True) p = Some (of_nat (Suc n))"
    and "rg_sim_chain_threshold (observe_sim_chain g p True True) = rg_sim_chain_threshold g"
    and "entry_at (observe_sim_chain g p True True) (HS_Protocol p) =
      (if unat (rg_sim_chain_threshold g) \<le> Suc n then Some HR_SimChainDivergence
       else entry_at g (HS_Protocol p))"
proof -
  have k: "k = of_nat n" using assms(2) by (simp add: word_unat_eq_iff flip: assms(2))
  have sat: "saturating_add k 1 = of_nat (Suc n)"
    using assms(2,3) by (simp add: saturating_add_def k unat_of_nat)
  have un: "unat (of_nat (Suc n) :: u32) = Suc n" using assms(3) by (simp add: unat_of_nat del: of_nat_Suc)
  have "(rg_sim_chain_threshold g \<le> of_nat (Suc n)) = (unat (rg_sim_chain_threshold g) \<le> Suc n)"
    unfolding word_le_nat_alt un ..
  then show "rg_sim_chain_streak (observe_sim_chain g p True True) p = Some (of_nat (Suc n))"
    and "rg_sim_chain_threshold (observe_sim_chain g p True True) = rg_sim_chain_threshold g"
    and "entry_at (observe_sim_chain g p True True) (HS_Protocol p) =
      (if unat (rg_sim_chain_threshold g) \<le> Suc n then Some HR_SimChainDivergence
       else entry_at g (HS_Protocol p))"
    using assms(1) sat
    by (simp_all add: observe_sim_chain_def Let_def entry_at_halt normalize_scope_def del: entry_at.simps)
qed

lemma streak_run:
  assumes "rg_sim_chain_streak g p = Some 0" and "n < 2 ^ 32"
  defines "h \<equiv> ((\<lambda>g. observe_sim_chain g p True True) ^^ n) g"
  shows "rg_sim_chain_streak h p = Some (of_nat n) \<and> rg_sim_chain_threshold h = rg_sim_chain_threshold g \<and>
    entry_at h (HS_Protocol p) =
      (if 0 < n \<and> unat (rg_sim_chain_threshold g) \<le> n then Some HR_SimChainDivergence
       else entry_at g (HS_Protocol p))"
  using assms(2) unfolding h_def
proof (induction n)
  case 0
  then show ?case using assms(1) by simp
next
  case (Suc n)
  let ?h = "((\<lambda>g. observe_sim_chain g p True True) ^^ n) g"
  have "unat (of_nat n :: u32) = n" using Suc.prems by (simp add: unat_of_nat)
  then show ?case
    using Suc.IH Suc.prems streak_step [of ?h p "of_nat n" n] by (auto simp del: of_nat_Suc entry_at.simps)
qed

section \<open>Properties\<close>

text \<open>
  C11. The gate is exact: a candidate is let through iff no halt in force covers it (globally, or by
  its protocol, market, debt or collateral asset, flash provider or trigger) and its operator key is
  funded; a denial names the scope and reason of such a halt.
\<close>

theorem gate_allow_exact:
  "(rg_allow g q = Allow_Yes \<longleftrightarrow>
      \<not> (\<exists>s r. in_force g s r \<and> covers s q) \<and> rg_keys g (q_operator_key q) = None) \<and>
   (case rg_allow g q of
      Allow_Yes \<Rightarrow> True
    | Allow_Denied s r \<Rightarrow>
        in_force g s r \<and> covers s q \<or>
        s = HS_Global \<and> map_option he_reason (rg_keys g (q_operator_key q)) = Some r)"
proof (rule conjI)
  show "rg_allow g q = Allow_Yes \<longleftrightarrow>
      \<not> (\<exists>s r. in_force g s r \<and> covers s q) \<and> rg_keys g (q_operator_key q) = None"
    unfolding allow_yes_iff by blast
  show "case rg_allow g q of Allow_Yes \<Rightarrow> True
    | Allow_Denied s r \<Rightarrow> in_force g s r \<and> covers s q \<or>
        s = HS_Global \<and> map_option he_reason (rg_keys g (q_operator_key q)) = Some r"
    using allow_denied [of g q] by (cases "rg_allow g q") auto
qed

text \<open>
  A halt takes effect at once: whatever the gate held, after \<open>halt\<close> every candidate under the
  scope the reason is normalised to is denied. (A global halt for a reason other than node lag or a
  deep reorg is refused by the code and is excluded here.)
\<close>

theorem gate_halt_denies:
  assumes "normalize_scope scope reason (class_of reason) = Some s"
    and "s \<noteq> HS_Global \<or> reason \<in> {HR_NodeLag, HR_ReorgTooDeep}" and "covers s q"
  shows "rg_allow (rg_halt g scope reason) q \<noteq> Allow_Yes"
proof -
  have "in_force (rg_halt g scope reason) s reason"
    using assms(1,2) by (cases "s = HS_Global") (auto simp: in_force_def entry_at_halt bits_halt)
  then show ?thesis using assms(3) by (rule in_force_denies)
qed

definition sample_query :: allow_query where
  "sample_query = \<lparr>q_protocol = 1, q_market = 7, q_collateral = 2, q_debt = 3, q_flash = FP_Morpho,
     q_trigger = SvrAuction, q_operator_key = 9\<rparr>"

theorem gate_halt_denies_witness:
  "rg_allow (rg_halt rg_new (HS_Asset 3) HR_OracleStale) sample_query \<noteq> Allow_Yes"
  using gate_halt_denies [of "HS_Asset 3" HR_OracleStale "HS_Asset 3" sample_query rg_new]
  by (simp add: normalize_scope_def sample_query_def)

text \<open>
  C8. A Class B halt of a scope stays in force through every later history of the gate in which no
  operation halts the same scope for another reason and no operator clears it after a shipped change:
  no automatic clearing, of any reason, lifts it, and its work-queue line stays.
\<close>

theorem class_b_halt_stays:
  assumes "class_of r = Class_B" and "s \<noteq> HS_Global" and "list_all (\<lambda>op. \<not> displaces s r op) ops"
    and "covers s q"
  shows "rg_allow (fold gate_step ops (rg_halt g s r)) q \<noteq> Allow_Yes \<and>
    queued (fold gate_step ops (rg_halt g s r)) s r"
proof -
  have "normalize_scope s r (class_of r) = Some s" using assms(1,2) by (cases r) (auto simp: normalize_scope_def)
  then have "entry_at (rg_halt g s r) s = Some r" using assms(2) by (simp add: entry_at_halt)
  then have "in_force (fold gate_step ops (rg_halt g s r)) s r"
    using class_b_run [OF _ assms(1,3)] by (simp add: in_force_def)
  moreover have "Clear_After_Ship s r \<notin> set ops" using assms(3) by (auto simp: list_all_iff)
  then have "queued (fold gate_step ops (rg_halt g s r)) s r"
    using assms(1,2) by (intro queued_run) (simp_all add: queued_halt)
  ultimately show ?thesis using in_force_denies [OF _ assms(4)] by simp
qed

theorem class_b_halt_stays_witness:
  "rg_allow (fold gate_step [Clear (HS_Protocol 1) HR_AdapterPanic, Node_Lag 0]
     (rg_halt rg_new (HS_Protocol 1) HR_ProxyUpgrade)) sample_query \<noteq> Allow_Yes"
  using class_b_halt_stays [of HR_ProxyUpgrade "HS_Protocol 1"
      "[Clear (HS_Protocol 1) HR_AdapterPanic, Node_Lag 0]" sample_query rg_new]
  by (simp add: sample_query_def)






text \<open>
  The divergence trip-wire counts consecutive cases: from a reset (any observation that is not a
  simulated pass reverting on chain), \<open>n\<close> such cases in a row halt the protocol exactly when \<open>n\<close>
  reaches the threshold.
\<close>

theorem sim_chain_streak_trips:
  assumes "\<not> (sim \<and> reverted)" and "0 < n" and "n < 2 ^ 32"
  shows "entry_at (((\<lambda>g. observe_sim_chain g p True True) ^^ n) (observe_sim_chain g p sim reverted)) (HS_Protocol p) =
    (if unat (rg_sim_chain_threshold g) \<le> n then Some HR_SimChainDivergence else entry_at g (HS_Protocol p))"
proof -
  let ?g = "observe_sim_chain g p sim reverted"
  have g: "?g = g\<lparr>rg_sim_chain_streak := (rg_sim_chain_streak g)(p \<mapsto> 0)\<rparr>"
    using assms(1) by (simp add: observe_sim_chain_def)
  then show ?thesis using streak_run [of ?g p n] assms(2,3) by (simp del: entry_at.simps)
qed

theorem sim_chain_streak_trips_witness:
  "entry_at (((\<lambda>g. observe_sim_chain g 1 True True) ^^ 3) (observe_sim_chain rg_new 1 True False)) (HS_Protocol 1) =
     Some HR_SimChainDivergence"
  using sim_chain_streak_trips [of True False 3 1 rg_new] by (simp add: rg_new_def)

text \<open>
  The matrix is complete and consistent: every halt reason has exactly one row, whose class is
  \<open>class_of\<close> of the reason, and the Class C rows are exactly those without a reason.
\<close>

theorem matrix_complete:
  "map mr_class (filter (\<lambda>row. mr_reason row = Some r) MATRIX) = [class_of r] \<and>
   set class_c_rows = {row \<in> set MATRIX. mr_reason row = None}"
proof -
  have "\<forall>row \<in> set MATRIX. mr_class row = Class_C \<longleftrightarrow> mr_reason row = None" by (simp add: MATRIX_def)
  then have "set class_c_rows = {row \<in> set MATRIX. mr_reason row = None}" by (auto simp: class_c_rows_def)
  moreover have "map mr_class (filter (\<lambda>row. mr_reason row = Some r) MATRIX) = [class_of r]"
    by (cases r) (simp_all add: MATRIX_def)
  ultimately show ?thesis by blast
qed

end
