(* ===== verification/Proxy_Watch.thy ===== *)
theory Proxy_Watch
  imports Risk_Gate
begin

text \<open>
  The implementation-slot watcher, \<^verbatim>\<open>crates/liq-risk/src/proxy.rs\<close>. The storage reader is the
  parameter \<open>reader\<close>, a function from an address to the slot word or an error; the sink is the
  function \<open>halt\<close> on its state, which \<open>halt_sink\<close> constrains and the risk gate provides.
\<close>

datatype slot_error = ReadFailed address

datatype watch_kind = WK_Protocol protocol_id | WK_Flash flash_provider

record watch_target =
  wt_address :: address
  wt_kind :: watch_kind

record proxy_watcher =
  pw_targets :: "watch_target list"
  pw_last :: "b256 list"

definition IMPLEMENTATION_SLOT :: b256 where
  "IMPLEMENTATION_SLOT = 0x360894a13ba1a3210667c828492db98dca3e2076cc3735a920a3ca505d382bbc"

definition pw_new :: "watch_target list \<Rightarrow> proxy_watcher" where
  "pw_new targets = \<lparr>pw_targets = targets, pw_last = replicate (length targets) 0\<rparr>"

fun seed_loop ::
  "(address \<Rightarrow> b256 \<Rightarrow> (b256, slot_error) result) \<Rightarrow> nat \<Rightarrow> watch_target list \<Rightarrow> b256 list \<Rightarrow>
   (unit, slot_error) result \<times> b256 list" where
  "seed_loop reader i [] seen = (Ok (), seen)"
| "seed_loop reader i (t # ts) seen =
     (case reader (wt_address t) IMPLEMENTATION_SLOT of
        Err e \<Rightarrow> (Err e, seen)
      | Ok v \<Rightarrow> seed_loop reader (Suc i) ts (seen[i := v]))"

definition pw_seed ::
  "(address \<Rightarrow> b256 \<Rightarrow> (b256, slot_error) result) \<Rightarrow> proxy_watcher \<Rightarrow>
   (unit, slot_error) result \<times> proxy_watcher" where
  "pw_seed reader w =
     (case seed_loop reader 0 (pw_targets w) (pw_last w) of (r, seen) \<Rightarrow> (r, w\<lparr>pw_last := seen\<rparr>))"

fun kind_scope :: "watch_kind \<Rightarrow> halt_scope" where
  "kind_scope (WK_Protocol p) = HS_Protocol p"
| "kind_scope (WK_Flash provider) = HS_FlashProvider provider"

fun poll_loop ::
  "(address \<Rightarrow> b256 \<Rightarrow> (b256, slot_error) result) \<Rightarrow> ('s \<Rightarrow> halt_scope \<Rightarrow> halt_reason \<Rightarrow> 's) \<Rightarrow>
   nat \<Rightarrow> watch_target list \<Rightarrow> u32 \<Rightarrow> b256 list \<Rightarrow> 's \<Rightarrow> (u32, slot_error) result \<times> b256 list \<times> 's" where
  "poll_loop reader halt i [] changed seen sink = (Ok changed, seen, sink)"
| "poll_loop reader halt i (t # ts) changed seen sink =
     (case reader (wt_address t) IMPLEMENTATION_SLOT of
        Err e \<Rightarrow> (Err e, seen, sink)
      | Ok now \<Rightarrow>
          let prev = (case get seen i of Some v \<Rightarrow> v | None \<Rightarrow> 0);
              (changed, sink) =
                (if prev \<noteq> 0 \<and> now \<noteq> prev
                 then (saturating_add changed 1, halt sink (kind_scope (wt_kind t)) HR_ProxyUpgrade)
                 else (changed, sink))
          in poll_loop reader halt (Suc i) ts changed (seen[i := now]) sink)"

definition pw_poll ::
  "(address \<Rightarrow> b256 \<Rightarrow> (b256, slot_error) result) \<Rightarrow> ('s \<Rightarrow> halt_scope \<Rightarrow> halt_reason \<Rightarrow> 's) \<Rightarrow>
   proxy_watcher \<Rightarrow> 's \<Rightarrow> (u32, slot_error) result \<times> proxy_watcher \<times> 's" where
  "pw_poll reader halt w sink =
     (case poll_loop reader halt 0 (pw_targets w) 0 (pw_last w) sink of
        (r, seen, sink) \<Rightarrow> (r, w\<lparr>pw_last := seen\<rparr>, sink))"

definition implementation_address :: "b256 \<Rightarrow> address" where
  "implementation_address word = ucast word"

definition assert_watch_covers_config :: "watch_target list \<Rightarrow> proxy_watcher \<Rightarrow> bool" where
  "assert_watch_covers_config configured watcher =
     (if configured = [] then False
      else list_all (\<lambda>c. list_ex (\<lambda>t. wt_address t = wt_address c \<and> wt_kind t = wt_kind c) (pw_targets watcher))
             configured)"

section \<open>One poll\<close>

definition upgraded :: "(address \<Rightarrow> b256 \<Rightarrow> (b256, slot_error) result) \<Rightarrow> watch_target \<Rightarrow> b256 \<Rightarrow> bool" where
  "upgraded reader t prev \<longleftrightarrow>
     prev \<noteq> 0 \<and> reader (wt_address t) IMPLEMENTATION_SLOT \<noteq> Ok prev"

definition readable :: "(address \<Rightarrow> b256 \<Rightarrow> (b256, slot_error) result) \<Rightarrow> watch_target list \<Rightarrow> bool" where
  "readable reader ts \<longleftrightarrow> list_all (\<lambda>t. is_ok (reader (wt_address t) IMPLEMENTATION_SLOT)) ts"

primrec slot_word :: "(b256, slot_error) result \<Rightarrow> b256" where
  "slot_word (Ok v) = v"
| "slot_word (Err e) = 0"

text \<open>What the poll halts: the scopes of the upgraded targets, in order.\<close>

definition halted_scopes ::
  "(address \<Rightarrow> b256 \<Rightarrow> (b256, slot_error) result) \<Rightarrow> watch_target list \<Rightarrow> b256 list \<Rightarrow> halt_scope list" where
  "halted_scopes reader ts seen =
     map (\<lambda>(t, _). kind_scope (wt_kind t)) (filter (\<lambda>(t, prev). upgraded reader t prev) (zip ts seen))"

lemma poll_loop_eq:
  assumes "readable reader ts" and "length seen = i + length ts"
  shows "poll_loop reader halt i ts changed seen sink =
    (Ok (fold (\<lambda>_ n. saturating_add n 1) (halted_scopes reader ts (drop i seen)) changed),
     take i seen @ map (\<lambda>t. slot_word (reader (wt_address t) IMPLEMENTATION_SLOT)) ts,
     fold (\<lambda>s sink. halt sink s HR_ProxyUpgrade) (halted_scopes reader ts (drop i seen)) sink)"
  using assms
proof (induction ts arbitrary: i changed seen sink)
  case Nil
  then show ?case by (simp add: halted_scopes_def)
next
  case (Cons t ts)
  obtain v where v: "reader (wt_address t) IMPLEMENTATION_SLOT = Ok v"
    using Cons.prems(1) by (cases "reader (wt_address t) IMPLEMENTATION_SLOT") (auto simp: readable_def)
  have i: "i < length seen" using Cons.prems(2) by simp
  then have dr: "drop i seen = seen ! i # drop (Suc i) seen" by (simp add: Cons_nth_drop_Suc)
  have up: "upgraded reader t (seen ! i) \<longleftrightarrow> seen ! i \<noteq> 0 \<and> v \<noteq> seen ! i" by (auto simp: upgraded_def v)
  have tk: "take (Suc i) (seen[i := v]) = take i seen @ [v]" using i by (simp add: take_Suc_conv_app_nth)
  have "readable reader ts" using Cons.prems(1) by (simp add: readable_def)
  note IH = Cons.IH [OF this, of "seen[i := v]" "Suc i"]
  show ?case
    using Cons.prems(2) i IH
    by (simp add: v get_def up dr halted_scopes_def tk Let_def)
qed

lemma pw_poll_eq:
  assumes "readable reader (pw_targets w)" and "length (pw_last w) = length (pw_targets w)"
  shows "pw_poll reader halt w sink =
    (Ok (fold (\<lambda>_ n. saturating_add n 1) (halted_scopes reader (pw_targets w) (pw_last w)) 0),
     w\<lparr>pw_last := map (\<lambda>t. slot_word (reader (wt_address t) IMPLEMENTATION_SLOT)) (pw_targets w)\<rparr>,
     fold (\<lambda>s sink. halt sink s HR_ProxyUpgrade) (halted_scopes reader (pw_targets w) (pw_last w)) sink)"
  using poll_loop_eq [OF assms(1), of "pw_last w" 0 halt 0 sink] assms(2) by (simp add: pw_poll_def)

lemma halted_scopes_set:
  assumes "length seen = length ts"
  shows "s \<in> set (halted_scopes reader ts seen) \<longleftrightarrow>
    (\<exists>i < length ts. upgraded reader (ts ! i) (seen ! i) \<and> s = kind_scope (wt_kind (ts ! i)))"
  using assms by (auto simp: halted_scopes_def set_zip)

lemma length_halted_scopes:
  assumes "length seen = length ts"
  shows "length (halted_scopes reader ts seen) = card {i. i < length ts \<and> upgraded reader (ts ! i) (seen ! i)}"
  using assms by (simp add: halted_scopes_def length_filter_conv_card cong: conj_cong)

lemma unat_count:
  "unat (fold (\<lambda>_ n. saturating_add n 1) xs (n :: u32)) = min (unat n + length xs) (2 ^ 32 - 1)"
proof (induction xs arbitrary: n)
  case Nil
  then show ?case using unat_bound [of n] by simp
next
  case (Cons x xs)
  then show ?case by (simp add: unat_saturating_add)
qed

text \<open>A second poll against the same storage finds nothing.\<close>

lemma repoll:
  assumes "readable reader (pw_targets w)" and "length (pw_last w) = length (pw_targets w)"
    and "pw_poll reader halt w sink = (r, w', sink')"
  shows "pw_poll reader halt w' sink' = (Ok 0, w', sink')"
proof -
  let ?word = "\<lambda>t. slot_word (reader (wt_address t) IMPLEMENTATION_SLOT)"
  have w': "w' = w\<lparr>pw_last := map ?word (pw_targets w)\<rparr>" using assms(3) pw_poll_eq [OF assms(1,2), of halt sink] by simp
  have "\<not> upgraded reader t (?word t)" if "t \<in> set (pw_targets w)" for t
    using assms(1) that by (cases "reader (wt_address t) IMPLEMENTATION_SLOT") (auto simp: upgraded_def readable_def list_all_iff)
  then have "halted_scopes reader (pw_targets w') (pw_last w') = []"
    by (auto simp: halted_scopes_def filter_empty_conv w' set_zip)
  then show ?thesis using pw_poll_eq [of reader w' halt sink'] assms(1) by (simp add: w')
qed

section \<open>The sink's contract\<close>

text \<open>A sink records the reason under the scope halted and touches no other scope.\<close>

locale halt_sink =
  fixes halt :: "'s \<Rightarrow> halt_scope \<Rightarrow> halt_reason \<Rightarrow> 's" and reason_at :: "'s \<Rightarrow> halt_scope \<Rightarrow> halt_reason option"
  assumes reason_at_halt: "s \<noteq> HS_Global \<Longrightarrow>
    reason_at (halt sink s HR_ProxyUpgrade) s' = (if s' = s then Some HR_ProxyUpgrade else reason_at sink s')"
begin

lemma fold_halt_reason:
  "HS_Global \<notin> set ss \<Longrightarrow> reason_at (fold (\<lambda>s sink. halt sink s HR_ProxyUpgrade) ss sink) s =
     (if s \<in> set ss then Some HR_ProxyUpgrade else reason_at sink s)"
  by (induction ss arbitrary: sink) (auto simp: reason_at_halt)

lemma poll_reasons:
  assumes "readable reader (pw_targets w)" and "length (pw_last w) = length (pw_targets w)"
    and "pw_poll reader halt w sink = (r, w', sink')"
  shows "reason_at sink' s =
    (if \<exists>i < length (pw_targets w). upgraded reader (pw_targets w ! i) (pw_last w ! i) \<and>
          s = kind_scope (wt_kind (pw_targets w ! i))
     then Some HR_ProxyUpgrade else reason_at sink s)"
proof -
  have "kind_scope k \<noteq> HS_Global" for k by (cases k) auto
  then have "HS_Global \<notin> set (halted_scopes reader (pw_targets w) (pw_last w))"
    unfolding halted_scopes_set [OF assms(2)] by metis
  then show ?thesis
    using assms(3) pw_poll_eq [OF assms(1,2), of halt sink] by (auto simp: fold_halt_reason halted_scopes_set [OF assms(2)])
qed

end

text \<open>The risk gate is such a sink: the reason of a scope is that of its entry.\<close>

interpretation gate_sink: halt_sink rg_halt entry_at
  by unfold_locales (auto simp: entry_at_halt normalize_scope_def simp del: entry_at.simps)

section \<open>Properties\<close>

text \<open>
  C29. A poll in which every slot can be read halts exactly the upgraded proxies. The scopes of the targets
  whose implementation differs from the last nonzero word seen hold a proxy-upgrade halt and every other
  scope keeps its entry; every candidate under an upgraded target is denied; the count reported is the number
  of upgraded targets; and a second poll of the same storage reports nothing and changes nothing.
\<close>

theorem proxy_upgrade_denied:
  assumes "readable reader (pw_targets w)" and "length (pw_last w) = length (pw_targets w)"
    and "pw_poll reader rg_halt w g = (r, w', g')"
  shows "(\<forall>s. entry_at g' s =
      (if \<exists>i < length (pw_targets w). upgraded reader (pw_targets w ! i) (pw_last w ! i) \<and>
            s = kind_scope (wt_kind (pw_targets w ! i))
       then Some HR_ProxyUpgrade else entry_at g s)) \<and>
    (\<forall>i < length (pw_targets w). \<forall>q. upgraded reader (pw_targets w ! i) (pw_last w ! i) \<and>
      covers (kind_scope (wt_kind (pw_targets w ! i))) q \<longrightarrow> rg_allow g' q \<noteq> Allow_Yes) \<and>
    (\<exists>n. r = Ok n \<and> unat n =
      min (card {i. i < length (pw_targets w) \<and> upgraded reader (pw_targets w ! i) (pw_last w ! i)}) (2 ^ 32 - 1)) \<and>
    pw_poll reader rg_halt w' g' = (Ok 0, w', g')"
proof -
  note reasons = gate_sink.poll_reasons [OF assms]
  have "rg_allow g' q \<noteq> Allow_Yes"
    if "i < length (pw_targets w)" "upgraded reader (pw_targets w ! i) (pw_last w ! i)"
      "covers (kind_scope (wt_kind (pw_targets w ! i))) q" for i q
  proof (rule in_force_denies [OF _ that(3)])
    show "in_force g' (kind_scope (wt_kind (pw_targets w ! i))) HR_ProxyUpgrade"
      unfolding in_force_def reasons using that(1,2) by auto
  qed
  moreover have "\<exists>n. r = Ok n \<and> unat n =
      min (card {i. i < length (pw_targets w) \<and> upgraded reader (pw_targets w ! i) (pw_last w ! i)}) (2 ^ 32 - 1)"
    using assms(3) pw_poll_eq [OF assms(1,2), of rg_halt g]
    by (auto simp: unat_count length_halted_scopes [OF assms(2)])
  ultimately show ?thesis using reasons repoll [OF assms] by blast
qed

definition sample_watcher :: proxy_watcher where
  "sample_watcher = \<lparr>pw_targets = [\<lparr>wt_address = 5, wt_kind = WK_Protocol 1\<rparr>], pw_last = [77]\<rparr>"

theorem proxy_upgrade_denied_witness:
  "case pw_poll (\<lambda>_ _. Ok 78) rg_halt sample_watcher rg_new of (r, w', g') \<Rightarrow>
     rg_allow g' sample_query \<noteq> Allow_Yes \<and> pw_poll (\<lambda>_ _. Ok 78) rg_halt w' g' = (Ok 0, w', g')"
proof -
  obtain r w' g' where poll: "pw_poll (\<lambda>_ _. Ok 78) rg_halt sample_watcher rg_new = (r, w', g')" by (metis prod_cases3)
  show ?thesis
    using proxy_upgrade_denied [OF _ _ poll]
    by (simp add: poll) (simp add: sample_watcher_def readable_def upgraded_def sample_query_def)
qed

end
