(* ===== verification/Bonus.thy ===== *)
theory Bonus
  imports Model_Types
begin

text \<open>
  Liquidation bonus curves, \<^verbatim>\<open>crates/liq-protocol/src/bonus.rs\<close>: the bonus a protocol pays as a function
  of health, for the fixed, health-linear (floored in the protocol's own quantum) and reciprocal
  shapes; auction curves are not functions of health.
\<close>

datatype auction_curve =
    LinearDecrease u64
  | StairstepExponentialDecrease u64 ray_u128
  | ExponentialDecrease ray_u128

datatype bonus_curve =
    Static ray
  | HealthLinear ray ray ray ray
  | Reciprocal ray
  | TimeDescending timestamp auction_curve

definition ray_ONE :: ray where
  "ray_ONE = Ray RAY"

fun bonus_at_hf :: "bonus_curve \<Rightarrow> ray \<Rightarrow> (ray option, fixed_error) result" where
  "bonus_at_hf (Static bonus) hf = Ok (Some bonus)"
| "bonus_at_hf (HealthLinear bonus_at_threshold hf_for_max max_bonus quantum) hf =
     (if ray_raw hf \<ge> ray_raw ray_ONE then Ok (Some bonus_at_threshold)
      else if ray_raw hf \<le> ray_raw hf_for_max then Ok (Some max_bonus)
      else
        and_then (ray_checked_sub max_bonus bonus_at_threshold) (\<lambda>span.
        and_then (ray_checked_sub ray_ONE hf) (\<lambda>deficit.
        and_then (ray_checked_sub ray_ONE hf_for_max) (\<lambda>width.
        and_then (mul_div (ray_raw span) 1 (ray_raw quantum) Down) (\<lambda>span_q.
        if checked_mul span_q (ray_raw quantum) \<noteq> Some (ray_raw span) then Err Inexact
        else
          and_then (mul_div span_q (ray_raw deficit) (ray_raw width) Down) (\<lambda>rise_q.
          and_then (ok_or (checked_mul rise_q (ray_raw quantum)) Overflow) (\<lambda>rise.
          map_ok Some (ray_checked_add bonus_at_threshold (Ray rise)))))))))"
| "bonus_at_hf (Reciprocal min_df) hf =
     (if ray_raw min_df = 0 then Err DivisionByZero
      else if ray_raw hf \<ge> ray_raw ray_ONE then Ok (Some (Ray 0))
      else
        let df = if ray_raw hf \<le> ray_raw min_df then min_df else hf in
        and_then (mul_div (ray_raw ray_ONE) (ray_raw ray_ONE) (ray_raw df) Down) (\<lambda>inv.
        ok_or (map_option (\<lambda>b. Some (Ray b)) (checked_sub inv (ray_raw ray_ONE))) Underflow))"
| "bonus_at_hf (TimeDescending _ _) hf = Ok None"

section \<open>The linear curve in naturals\<close>

abbreviation rn :: "ray \<Rightarrow> nat" where
  "rn x \<equiv> unat (ray_raw x)"

definition linear_wf :: "ray \<Rightarrow> ray \<Rightarrow> ray \<Rightarrow> ray \<Rightarrow> bool" where
  "linear_wf thr hfm mx q \<longleftrightarrow>
     rn hfm < unat RAY \<and> rn thr \<le> rn mx \<and> 0 < rn q \<and> rn q dvd rn mx - rn thr"

definition linear_bonus :: "ray \<Rightarrow> ray \<Rightarrow> ray \<Rightarrow> ray \<Rightarrow> nat \<Rightarrow> nat" where
  "linear_bonus thr hfm mx q h =
     (if unat RAY \<le> h then rn thr
      else if h \<le> rn hfm then rn mx
      else rn thr + ((rn mx - rn thr) div rn q * (unat RAY - h) div (unat RAY - rn hfm)) * rn q)"

lemma linear_bounds:
  assumes "linear_wf thr hfm mx q"
  shows "rn thr \<le> linear_bonus thr hfm mx q h" and "linear_bonus thr hfm mx q h \<le> rn mx"
proof -
  let ?k = "(rn mx - rn thr) div rn q" and ?w = "unat RAY - rn hfm"
  have kq: "?k * rn q = rn mx - rn thr" using assms by (simp add: linear_wf_def)
  have "?k * (unat RAY - h) div ?w \<le> ?k" if "\<not> h \<le> rn hfm"
  proof -
    have "?k * (unat RAY - h) \<le> ?k * ?w" using that by (intro mult_le_mono2) simp
    then have "?k * (unat RAY - h) div ?w \<le> ?k * ?w div ?w" by (rule div_le_mono)
    then show ?thesis using assms by (simp add: linear_wf_def)
  qed
  then have "?k * (unat RAY - h) div ?w * rn q \<le> rn mx - rn thr" if "\<not> h \<le> rn hfm"
    using that mult_le_mono1 kq by metis
  then show "rn thr \<le> linear_bonus thr hfm mx q h" and "linear_bonus thr hfm mx q h \<le> rn mx"
    using assms by (auto simp: linear_bonus_def linear_wf_def)
qed

lemma linear_antimono:
  assumes "linear_wf thr hfm mx q" and "h \<le> h'"
  shows "linear_bonus thr hfm mx q h' \<le> linear_bonus thr hfm mx q h"
proof -
  consider "unat RAY \<le> h'" | "h \<le> rn hfm" "h < unat RAY" | "h' < unat RAY" "rn hfm < h"
    using assms by (force simp: linear_wf_def)
  then show ?thesis
  proof cases
    case 1
    then show ?thesis using linear_bounds(1) [OF assms(1), of h] by (simp add: linear_bonus_def [of _ _ _ _ h'])
  next
    case 2
    then show ?thesis using linear_bounds(2) [OF assms(1), of h'] by (simp add: linear_bonus_def [of _ _ _ _ h])
  next
    case 3
    then show ?thesis
      using assms(2) by (auto simp: linear_bonus_def intro!: mult_le_mono1 div_le_mono mult_le_mono2)
  qed
qed

lemma bonus_linear_eq:
  assumes wf: "linear_wf thr hfm mx q"
  shows "\<exists>b. bonus_at_hf (HealthLinear thr hfm mx q) hf = Ok (Some b) \<and>
    rn b = linear_bonus thr hfm mx q (rn hf)"
proof (cases "unat RAY \<le> rn hf \<or> rn hf \<le> rn hfm")
  case True
  then show ?thesis
    by (auto simp: ray_ONE_def linear_bonus_def word_le_unat)
next
  case False
  let ?k = "(rn mx - rn thr) div rn q" and ?w = "unat RAY - rn hfm" and ?d = "unat RAY - rn hf"
  let ?r = "?k * ?d div ?w"
  have kq: "?k * rn q = rn mx - rn thr" using wf by (simp add: linear_wf_def)
  have le: "?r * rn q + rn thr \<le> rn mx"
    using linear_bounds(2) [OF wf, of "rn hf"] False by (simp add: linear_bonus_def)
  have mx: "rn mx < 2 ^ 256" using unat_bound [of "ray_raw mx"] by simp
  obtain span where span: "ray_checked_sub mx thr = Ok span" "rn span = rn mx - rn thr"
    using wf by (auto simp: ray_checked_sub_def linear_wf_def checked_sub_def word_le_unat unat_sub_exact)
  obtain deficit where deficit: "ray_checked_sub ray_ONE hf = Ok deficit" "rn deficit = ?d"
    using False by (auto simp: ray_checked_sub_def ray_ONE_def checked_sub_def word_le_unat unat_sub_exact)
  obtain width where width: "ray_checked_sub ray_ONE hfm = Ok width" "rn width = ?w"
    using False wf
    by (auto simp: ray_checked_sub_def ray_ONE_def checked_sub_def word_le_unat unat_sub_exact linear_wf_def)
  have "?k \<le> rn mx" using kq by (metis div_le_dividend diff_le_self order_trans)
  then obtain kq' where kq': "mul_div (ray_raw span) 1 (ray_raw q) Down = Ok kq'" "unat kq' = ?k"
    using mul_div_fits [of "ray_raw q" Down "ray_raw span" 1] wf span(2) mx by (auto simp: linear_wf_def)
  have "?r \<le> ?r * rn q" using wf by (simp add: linear_wf_def)
  then have "?r < 2 ^ 256" using le mx by linarith
  then obtain rq where rq: "mul_div kq' (ray_raw deficit) (ray_raw width) Down = Ok rq" "unat rq = ?r"
    using mul_div_fits [of "ray_raw width" Down kq' "ray_raw deficit"] False width(2) deficit(2) kq'(2) by auto
  have exact: "checked_mul kq' (ray_raw q) = Some (ray_raw span)"
    using kq span(2) kq'(2) mx by (auto simp: checked_mul_Some intro!: word_eq_unatI)
  obtain rise where rise: "checked_mul rq (ray_raw q) = Some rise" "unat rise = ?r * rn q"
    using rq(2) le mx by (auto simp: checked_mul_def unat_mul_exact)
  obtain b where b: "ray_checked_add thr (Ray rise) = Ok b" "rn b = rn thr + ?r * rn q"
    using rise(2) le mx by (auto simp: ray_checked_add_def checked_add_def unat_add_exact)
  show ?thesis
    using False span deficit width kq' rq exact rise b
    by (auto simp: ray_ONE_def word_le_unat linear_bonus_def)
qed

section \<open>The reciprocal curve\<close>

definition reciprocal_bonus :: "ray \<Rightarrow> nat \<Rightarrow> nat" where
  "reciprocal_bonus min_df h =
     (if unat RAY \<le> h then 0 else unat RAY * unat RAY div max h (rn min_df) - unat RAY)"

lemma bonus_reciprocal_eq:
  assumes "0 < rn min_df" and "rn min_df \<le> unat RAY"
  shows "\<exists>b. bonus_at_hf (Reciprocal min_df) hf = Ok (Some b) \<and> rn b = reciprocal_bonus min_df (rn hf)"
proof (cases "unat RAY \<le> rn hf")
  case True
  then show ?thesis using assms by (auto simp: ray_ONE_def reciprocal_bonus_def word_le_unat)
next
  case False
  let ?df = "if ray_raw hf \<le> ray_raw min_df then min_df else hf"
  have df: "rn ?df = max (rn hf) (rn min_df)" by (auto simp: word_le_unat max_def)
  have pos: "0 < max (rn hf) (rn min_df)" "max (rn hf) (rn min_df) \<le> unat RAY" using assms False by auto
  have "unat RAY * unat RAY div max (rn hf) (rn min_df) \<le> unat RAY * unat RAY" by (rule div_le_dividend)
  also have "\<dots> < 2 ^ 256" by (simp add: unat_RAY)
  finally obtain inv where inv: "mul_div RAY RAY (ray_raw ?df) Down = Ok inv"
      "unat inv = unat RAY * unat RAY div max (rn hf) (rn min_df)"
    using mul_div_fits [of "ray_raw ?df" Down RAY RAY] df pos by auto
  have "unat RAY * max (rn hf) (rn min_df) \<le> unat RAY * unat RAY" using pos(2) by (intro mult_le_mono2)
  then have "unat RAY \<le> unat inv" using pos(1) inv(2) by (simp add: less_eq_div_iff_mult_less_eq)
  then obtain b where "checked_sub inv RAY = Some b" "unat b = unat inv - unat RAY"
    by (auto simp: checked_sub_def word_le_unat unat_sub_exact)
  then show ?thesis
    using False assms inv by (auto simp: ray_ONE_def reciprocal_bonus_def word_le_unat Let_def)
qed

lemma reciprocal_antimono:
  assumes "0 < rn min_df" and "h \<le> h'"
  shows "reciprocal_bonus min_df h' \<le> reciprocal_bonus min_df h"
proof -
  have "unat RAY * unat RAY div max h' (rn min_df) \<le> unat RAY * unat RAY div max h (rn min_df)"
    using assms by (intro div_le_mono2) auto
  then show ?thesis using assms(2) by (auto simp: reciprocal_bonus_def intro: diff_le_mono)
qed

section \<open>Properties\<close>

text \<open>
  C36. A well-formed health-linear curve (maximum reached below health one, maximum not below the
  threshold bonus, a quantum that divides the span) never fails; its bonus is the interpolation
  floored in quanta, lies between the threshold bonus and the maximum, meets both endpoints exactly
  and never rises with health.
\<close>

theorem bonus_linear_shape:
  assumes "linear_wf thr hfm mx q"
  shows "\<exists>b. bonus_at_hf (HealthLinear thr hfm mx q) hf = Ok (Some b) \<and>
    rn b = linear_bonus thr hfm mx q (rn hf) \<and> rn thr \<le> rn b \<and> rn b \<le> rn mx \<and>
    (RAY \<le> ray_raw hf \<longrightarrow> b = thr) \<and> (ray_raw hf \<le> ray_raw hfm \<longrightarrow> b = mx) \<and>
    (\<forall>hf' b'. ray_raw hf \<le> ray_raw hf' \<longrightarrow>
       bonus_at_hf (HealthLinear thr hfm mx q) hf' = Ok (Some b') \<longrightarrow> rn b' \<le> rn b)"
proof -
  obtain b where b: "bonus_at_hf (HealthLinear thr hfm mx q) hf = Ok (Some b)"
      "rn b = linear_bonus thr hfm mx q (rn hf)"
    using bonus_linear_eq [OF assms] by blast
  have "rn b' \<le> rn b" if "ray_raw hf \<le> ray_raw hf'"
      "bonus_at_hf (HealthLinear thr hfm mx q) hf' = Ok (Some b')" for hf' b'
    using bonus_linear_eq [OF assms, of hf'] that linear_antimono [OF assms, of "rn hf" "rn hf'"] b(2)
    by (auto simp: word_le_unat)
  moreover have "RAY \<le> ray_raw hf \<longrightarrow> b = thr" and "ray_raw hf \<le> ray_raw hfm \<longrightarrow> b = mx"
    using b(1) assms by (auto simp: ray_ONE_def linear_wf_def word_le_unat)
  ultimately show ?thesis using b linear_bounds [OF assms] by auto
qed

theorem bonus_linear_shape_witness:
  "\<exists>b. bonus_at_hf (HealthLinear (Ray 20) (Ray 5) (Ray 60) (Ray 10)) (Ray 7) = Ok (Some b) \<and> rn b \<le> 60"
proof -
  have "linear_wf (Ray 20) (Ray 5) (Ray 60) (Ray 10)" by (simp add: linear_wf_def unat_RAY)
  from bonus_linear_shape [OF this, of "Ray 7"] show ?thesis by auto
qed

text \<open>
  A reciprocal curve with a minimum discount factor in \<open>(0, 1]\<close> never fails; its bonus is the
  exact \<open>1 / max(hf, min_df) - 1\<close> rounded down, zero from health one on, and never rises with health.
\<close>

theorem bonus_reciprocal_shape:
  assumes "0 < rn min_df" and "rn min_df \<le> unat RAY"
  shows "\<exists>b. bonus_at_hf (Reciprocal min_df) hf = Ok (Some b) \<and>
    (RAY \<le> ray_raw hf \<longrightarrow> rn b = 0) \<and>
    (ray_raw hf < RAY \<longrightarrow>
       (rn b + unat RAY) * max (rn hf) (rn min_df) \<le> unat RAY * unat RAY \<and>
       unat RAY * unat RAY < (rn b + unat RAY + 1) * max (rn hf) (rn min_df)) \<and>
    (\<forall>hf' b'. ray_raw hf \<le> ray_raw hf' \<longrightarrow>
       bonus_at_hf (Reciprocal min_df) hf' = Ok (Some b') \<longrightarrow> rn b' \<le> rn b)"
proof -
  obtain b where b: "bonus_at_hf (Reciprocal min_df) hf = Ok (Some b)"
      "rn b = reciprocal_bonus min_df (rn hf)"
    using bonus_reciprocal_eq [OF assms] by blast
  let ?m = "max (rn hf) (rn min_df)"
  have sandwich: "(rn b + unat RAY) * ?m \<le> unat RAY * unat RAY \<and> unat RAY * unat RAY < (rn b + unat RAY + 1) * ?m"
    if "ray_raw hf < RAY"
  proof -
    have m: "0 < ?m" "?m \<le> unat RAY" using assms that by (auto simp: word_less_unat)
    have "unat RAY * ?m \<le> unat RAY * unat RAY" using m(2) by (intro mult_le_mono2)
    then have "unat RAY \<le> unat RAY * unat RAY div ?m" using m(1) by (simp add: less_eq_div_iff_mult_less_eq)
    then have "unat RAY * unat RAY div ?m = rn b + unat RAY"
      using b(2) that by (simp add: reciprocal_bonus_def word_less_unat)
    then show ?thesis using div_sandwich [OF m(1), of "unat RAY * unat RAY" "rn b + unat RAY"] by simp
  qed
  have "rn b' \<le> rn b" if "ray_raw hf \<le> ray_raw hf'" "bonus_at_hf (Reciprocal min_df) hf' = Ok (Some b')" for hf' b'
    using bonus_reciprocal_eq [OF assms, of hf'] that reciprocal_antimono [OF assms(1), of "rn hf" "rn hf'"] b(2)
    by (auto simp: word_le_unat)
  moreover have "RAY \<le> ray_raw hf \<longrightarrow> rn b = 0" using b(2) by (simp add: reciprocal_bonus_def word_le_unat)
  ultimately show ?thesis using b(1) sandwich by blast
qed

theorem bonus_reciprocal_shape_witness:
  "\<exists>b. bonus_at_hf (Reciprocal (Ray RAY)) (Ray 7) = Ok (Some b) \<and>
     (rn b + unat RAY) * max 7 (unat RAY) \<le> unat RAY * unat RAY"
  using bonus_reciprocal_shape [of "Ray RAY" "Ray 7"] by (auto simp: unat_RAY word_less_unat)

text \<open>
  A curve whose \<open>hf_for_max\<close> is at or above one is not refused: for every health below one it
  answers the maximum bonus (not the threshold bonus), whatever its other parameters.
\<close>

theorem bonus_linear_unchecked:
  "bonus_at_hf (HealthLinear thr (Ray (max RAY x)) mx q) hf =
     Ok (Some (if ray_raw hf < RAY then mx else thr))"
proof (cases "ray_raw hf < RAY")
  case True
  then have "ray_raw hf \<le> max RAY x" "\<not> RAY \<le> ray_raw hf" by (auto simp: le_max_iff_disj not_le)
  then show ?thesis using True by (simp add: ray_ONE_def)
next
  case False
  then have "RAY \<le> ray_raw hf" by simp
  then show ?thesis using False by (simp add: ray_ONE_def)
qed

end
