(* ===== verification/Flash.thy ===== *)
theory Flash
  imports Model_Types "HOL-Library.Product_Lexorder" "HOL-Library.Multiset"
begin

text \<open>
  Flash liquidity, \<^verbatim>\<open>crates/liq-flash/src/index.rs\<close> and \<^verbatim>\<open>select.rs\<close>: the per-asset index over the
  flash sources, the eligibility haircut, and the ranking by effective cost. A \<^verbatim>\<open>FlashSource\<close> is the
  record of its answers. \<^verbatim>\<open>sort_unstable_by_key\<close> leaves the order of equal keys open; the model keeps
  it, and no statement below depends on it. \<^verbatim>\<open>ArcSwap\<close> is the published index itself.
\<close>

definition BPS :: u256 where
  "BPS = 10000"

datatype callback_shape =
    AaveExecuteOperation | UniV3FlashCallback | UniV4UnlockCallback | MorphoFlashCallback
  | SkyDssOnFlashLoan | Direct | UniV3SwapCallback

record flash_route =
  fr_provider :: flash_provider
  fr_source :: address
  fr_asset :: asset_id
  fr_amount :: u256
  fr_fee_bps :: u16
  fr_callback :: callback_shape

record source_entry =
  se_available :: u256
  se_source :: address
  se_gas_overhead :: u64
  se_fee_bps :: u16
  se_provider :: flash_provider
  se_callback :: callback_shape

definition se_route :: "source_entry \<Rightarrow> asset_id \<Rightarrow> u256 \<Rightarrow> flash_route" where
  "se_route e asset amount =
     \<lparr>fr_provider = se_provider e, fr_source = se_source e, fr_asset = asset, fr_amount = amount,
      fr_fee_bps = se_fee_bps e, fr_callback = se_callback e\<rparr>"

section \<open>Haircut\<close>

datatype haircut = Haircut (haircut_bps: u16)

definition haircut_NONE :: haircut where
  "haircut_NONE = Haircut 10000"

definition haircut_from_bps :: "u16 \<Rightarrow> haircut option" where
  "haircut_from_bps bps = (if bps > 10000 then None else Some (Haircut bps))"

definition haircut_apply :: "haircut \<Rightarrow> u256 \<Rightarrow> u256" where
  "haircut_apply h available =
     (case mul_div available (ucast (haircut_bps h)) BPS Down of Ok v \<Rightarrow> v | Err _ \<Rightarrow> 0)"

definition gross_up :: "haircut \<Rightarrow> u256 \<Rightarrow> u256 option" where
  "gross_up h amount =
     (case mul_div amount BPS (ucast (haircut_bps h)) Up of Ok v \<Rightarrow> Some v | Err _ \<Rightarrow> None)"

section \<open>Index\<close>

record flash_source =
  fs_provider :: flash_provider
  fs_source :: address
  fs_available :: "asset_id \<Rightarrow> u256"
  fs_fee_bps :: "asset_id \<Rightarrow> u256 \<Rightarrow> u16"
  fs_callback :: callback_shape
  fs_gas_overhead :: u64

record flash_index =
  fi_by_asset :: "source_entry list list"
  fi_max_available :: "u256 list"

definition fi_new :: "nat \<Rightarrow> flash_index" where
  "fi_new assets = \<lparr>fi_by_asset = replicate assets [], fi_max_available = replicate assets 0\<rparr>"

definition fi_available :: "flash_index \<Rightarrow> asset_id \<Rightarrow> u256" where
  "fi_available idx asset = (case get (fi_max_available idx) (unat asset) of Some v \<Rightarrow> v | None \<Rightarrow> 0)"

definition fi_entries :: "flash_index \<Rightarrow> asset_id \<Rightarrow> source_entry list" where
  "fi_entries idx asset = (case get (fi_by_asset idx) (unat asset) of Some es \<Rightarrow> es | None \<Rightarrow> [])"

definition best_route :: "flash_index \<Rightarrow> asset_id \<Rightarrow> u256 \<Rightarrow> haircut \<Rightarrow> flash_route option" where
  "best_route idx debt amount h =
     (if amount = 0 then None
      else case gross_up h amount of
        None \<Rightarrow> None
      | Some depth \<Rightarrow>
          if fi_available idx debt < depth then None
          else map_option (\<lambda>e. se_route e debt amount)
                 (find (\<lambda>e. se_available e \<ge> depth) (fi_entries idx debt)))"

definition entry_key :: "source_entry \<Rightarrow> u16 \<times> u64 \<times> int" where
  "entry_key e = (se_fee_bps e, se_gas_overhead e, - uint (se_available e))"

definition entry_of :: "flash_source \<Rightarrow> asset_id \<Rightarrow> source_entry" where
  "entry_of s asset =
     \<lparr>se_available = fs_available s asset, se_source = fs_source s, se_gas_overhead = fs_gas_overhead s,
      se_fee_bps = fs_fee_bps s asset (fs_available s asset), se_provider = fs_provider s,
      se_callback = fs_callback s\<rparr>"

fun refresh_loop ::
  "asset_id \<Rightarrow> flash_source list \<Rightarrow> source_entry list \<Rightarrow> u256 \<Rightarrow> source_entry list \<times> u256" where
  "refresh_loop asset [] row mx = (row, mx)"
| "refresh_loop asset (s # ss) row mx =
     (let available = fs_available s asset in
      if available = 0 then refresh_loop asset ss row mx
      else refresh_loop asset ss (row @ [entry_of s asset]) (if available > mx then available else mx))"

definition refresh_row :: "flash_source list \<Rightarrow> nat \<Rightarrow> source_entry list \<times> u256" where
  "refresh_row sources i =
     (case (try_from_usize i :: u16 option) of
        None \<Rightarrow> ([], 0)
      | Some asset \<Rightarrow>
          (case refresh_loop asset sources [] 0 of (row, mx) \<Rightarrow> (sort_key entry_key row, mx)))"

definition refresh :: "flash_index \<Rightarrow> flash_source list \<Rightarrow> flash_index" where
  "refresh idx sources =
     (let n = min (length (fi_by_asset idx)) (length (fi_max_available idx));
          rows = map (refresh_row sources) [0..<n]
      in idx\<lparr>fi_by_asset := map fst rows @ drop n (fi_by_asset idx),
             fi_max_available := map snd rows @ drop n (fi_max_available idx)\<rparr>)"

definition abs_diff :: "u256 \<Rightarrow> u256 \<Rightarrow> u256" where
  "abs_diff a b = (if a < b then b - a else a - b)"

definition moved :: "u16 \<Rightarrow> u256 \<Rightarrow> u256 \<Rightarrow> bool" where
  "moved threshold_bps a b =
     (case mul_div b (ucast threshold_bps) BPS Down of Ok lim \<Rightarrow> abs_diff a b > lim | Err _ \<Rightarrow> False)"

definition differs_materially :: "flash_index \<Rightarrow> flash_index \<Rightarrow> u16 \<Rightarrow> bool" where
  "differs_materially idx published threshold_bps =
     (if length (fi_by_asset idx) \<noteq> length (fi_by_asset published) then True
      else list_ex (\<lambda>(a, b).
        length a \<noteq> length b \<or>
        list_ex (\<lambda>(x, y).
          se_provider x \<noteq> se_provider y \<or> se_source x \<noteq> se_source y \<or> se_fee_bps x \<noteq> se_fee_bps y \<or>
          se_gas_overhead x \<noteq> se_gas_overhead y \<or> se_callback x \<noteq> se_callback y \<or>
          moved threshold_bps (se_available x) (se_available y)) (zip a b))
        (zip (fi_by_asset idx) (fi_by_asset published)))"

definition publish_if_material :: "flash_index \<Rightarrow> flash_index \<Rightarrow> u16 \<Rightarrow> bool \<times> flash_index" where
  "publish_if_material idx slot threshold_bps =
     (if \<not> differs_materially idx slot threshold_bps then (False, slot) else (True, idx))"

section \<open>Selection by effective cost\<close>

record cost_model =
  cm_gas_price_in_debt :: u256
  cm_failure_premium_gas :: "u64 list"

definition FEE_ONLY :: cost_model where
  "FEE_ONLY = \<lparr>cm_gas_price_in_debt = 0, cm_failure_premium_gas = replicate 7 0\<rparr>"

fun provider_index :: "flash_provider \<Rightarrow> nat" where
  "provider_index FP_Aave = 0"
| "provider_index FP_UniV3 = 1"
| "provider_index FP_UniV4 = 2"
| "provider_index FP_Morpho = 3"
| "provider_index FP_SkyDss = 4"
| "provider_index FP_None = 5"
| "provider_index FP_UniV3Swap = 6"

definition premium :: "cost_model \<Rightarrow> flash_provider \<Rightarrow> u64 option" where
  "premium m p = get (cm_failure_premium_gas m) (provider_index p)"

primrec ok :: "('a, 'e) result \<Rightarrow> 'a option" where
  "ok (Ok v) = Some v"
| "ok (Err e) = None"

definition fee_amount :: "flash_provider \<Rightarrow> u256 \<Rightarrow> u16 \<Rightarrow> u256 option" where
  "fee_amount provider amount fee_bps =
     (if fee_bps = 0 then Some 0
      else
        let bps = ucast fee_bps in
        case provider of
          FP_Aave \<Rightarrow>
            Option.bind (checked_div (- 1) bps) (\<lambda>bound.
              if amount > bound then None else ok (mul_div amount bps BPS Up))
        | FP_UniV3 \<Rightarrow> ok (mul_div amount bps BPS Up)
        | FP_SkyDss \<Rightarrow> ok (mul_div amount bps BPS Down)
        | _ \<Rightarrow> None)"

definition effective_cost :: "source_entry \<Rightarrow> u256 \<Rightarrow> cost_model \<Rightarrow> u256 option" where
  "effective_cost e notional m =
     Option.bind (fee_amount (se_provider e) notional (se_fee_bps e)) (\<lambda>fee.
     Option.bind (premium m (se_provider e)) (\<lambda>p.
     Option.bind (checked_add (se_gas_overhead e) p) (\<lambda>gas.
     Option.bind (checked_mul (ucast gas) (cm_gas_price_in_debt m)) (\<lambda>g.
     checked_add fee g))))"

definition fallback_chain ::
  "flash_index \<Rightarrow> asset_id \<Rightarrow> u256 \<Rightarrow> haircut \<Rightarrow> cost_model \<Rightarrow> flash_route list" where
  "fallback_chain idx debt need h m =
     (if need = 0 then []
      else case gross_up h need of
        None \<Rightarrow> []
      | Some depth \<Rightarrow>
          let ranked = List.map_filter (\<lambda>e. map_option (\<lambda>c. (c, se_route e debt need)) (effective_cost e need m))
                         (filter (\<lambda>e. se_available e \<ge> depth) (fi_entries idx debt))
          in map snd (sort_key fst ranked))"

section \<open>The haircut\<close>

lemma unat_BPS: "unat BPS = 10000" and BPS_nonzero [simp]: "BPS \<noteq> 0"
  by (simp_all add: BPS_def)

lemma unat_bps: "unat (ucast (b :: u16) :: u256) = unat b"
  by (simp add: unat_ucast_wide)

lemma ceil_le_iff:
  fixes x d a :: nat
  assumes "0 < d"
  shows "(x + d - 1) div d \<le> a \<longleftrightarrow> x \<le> a * d"
proof -
  have "(x + d - 1) div d < Suc a \<longleftrightarrow> x + d - 1 < Suc a * d"
    using assms by (simp add: div_less_iff_less_mult del: mult_Suc)
  then show ?thesis using assms by auto
qed

definition valid_haircut :: "haircut \<Rightarrow> bool" where
  "valid_haircut h \<longleftrightarrow> unat (haircut_bps h) \<le> 10000"

lemma haircut_apply_value:
  assumes "valid_haircut h"
  shows "unat (haircut_apply h a) = unat a * unat (haircut_bps h) div 10000"
proof -
  have "unat a * unat (haircut_bps h) div 10000 \<le> unat a * 10000 div 10000"
    using assms by (intro div_le_mono mult_le_mono2) (simp add: valid_haircut_def)
  also have "\<dots> < 2 ^ 256" using unat_bound [of a] by simp
  finally obtain c where "mul_div a (ucast (haircut_bps h)) BPS Down = Ok c"
      "unat c = unat a * unat (haircut_bps h) div 10000"
    using mul_div_fits [of BPS Down a "ucast (haircut_bps h)"] by (auto simp: unat_BPS unat_bps)
  then show ?thesis by (simp add: haircut_apply_def)
qed

lemma gross_up_Some:
  "gross_up h amount = Some g \<longleftrightarrow>
     haircut_bps h \<noteq> 0 \<and>
     unat g = (unat amount * 10000 + unat (haircut_bps h) - 1) div unat (haircut_bps h)"
proof -
  have "gross_up h amount = Some g \<longleftrightarrow> mul_div amount BPS (ucast (haircut_bps h)) Up = Ok g"
    by (auto simp: gross_up_def split: result.splits)
  moreover have "(ucast (haircut_bps h) :: u256) = 0 \<longleftrightarrow> haircut_bps h = 0"
    by (metis unat_bps unat_eq_zero unat_0)
  ultimately show ?thesis by (simp add: mul_div_Ok unat_BPS unat_bps)
qed

lemma haircut_covers_iff:
  assumes "valid_haircut h" and "amount \<noteq> 0"
  shows "amount \<le> haircut_apply h a \<longleftrightarrow> (\<exists>g. gross_up h amount = Some g \<and> g \<le> a)"
proof (cases "haircut_bps h = 0")
  case True
  then show ?thesis
    using assms haircut_apply_value [OF assms(1), of a]
    by (auto simp: gross_up_Some word_le_unat unat_gt_0)
next
  case False
  then have b: "0 < unat (haircut_bps h)" by (simp add: unat_gt_0)
  let ?c = "(unat amount * 10000 + unat (haircut_bps h) - 1) div unat (haircut_bps h)"
  have "amount \<le> haircut_apply h a \<longleftrightarrow> unat amount * 10000 \<le> unat a * unat (haircut_bps h)"
    using haircut_apply_value [OF assms(1), of a] by (simp add: word_le_unat less_eq_div_iff_mult_less_eq)
  also have "\<dots> \<longleftrightarrow> ?c \<le> unat a" using ceil_le_iff [OF b] by simp
  also have "\<dots> \<longleftrightarrow> (\<exists>g. gross_up h amount = Some g \<and> g \<le> a)"
  proof
    assume c: "?c \<le> unat a"
    then have "unat (of_nat ?c :: u256) = ?c" using unat_bound [of a] by simp
    then show "\<exists>g. gross_up h amount = Some g \<and> g \<le> a"
      using False c by (intro exI [of _ "of_nat ?c"]) (simp add: gross_up_Some word_le_unat)
  next
    assume "\<exists>g. gross_up h amount = Some g \<and> g \<le> a"
    then show "?c \<le> unat a" by (auto simp: gross_up_Some word_le_unat)
  qed
  finally show ?thesis .
qed

section \<open>The refreshed index\<close>

lemma refresh_loop_eq:
  "refresh_loop asset ss row mx =
     (row @ map (\<lambda>s. entry_of s asset) (filter (\<lambda>s. fs_available s asset \<noteq> 0) ss),
      fold max (map (\<lambda>s. fs_available s asset) ss) mx)"
proof (induction asset ss row mx rule: refresh_loop.induct)
  case (2 asset s ss row mx)
  have "(if fs_available s asset > mx then fs_available s asset else mx) = max (fs_available s asset) mx"
    by (simp add: max_def not_less order.antisym)
  then show ?case using 2 by (cases "fs_available s asset = 0") (simp_all add: max_absorb2)
qed simp

text \<open>The row of an asset: the sources with depth, cheapest first, and the deepest of them.\<close>

definition live_entries :: "flash_source list \<Rightarrow> asset_id \<Rightarrow> source_entry list" where
  "live_entries sources asset =
     sort_key entry_key (map (\<lambda>s. entry_of s asset) (filter (\<lambda>s. fs_available s asset \<noteq> 0) sources))"

definition covers_assets :: "flash_index \<Rightarrow> asset_id \<Rightarrow> bool" where
  "covers_assets idx asset \<longleftrightarrow>
     unat asset < length (fi_by_asset idx) \<and> unat asset < length (fi_max_available idx)"

lemma refresh_entries:
  assumes "covers_assets idx asset"
  shows "fi_entries (refresh idx sources) asset = live_entries sources asset"
    and "fi_available (refresh idx sources) asset = fold max (map (\<lambda>s. fs_available s asset) sources) 0"
proof -
  have "(try_from_usize (unat asset) :: u16 option) = Some asset" by (simp add: try_from_usize_Some)
  then have "refresh_row sources (unat asset) =
      (live_entries sources asset, fold max (map (\<lambda>s. fs_available s asset) sources) 0)"
    by (simp add: refresh_row_def refresh_loop_eq live_entries_def)
  then show "fi_entries (refresh idx sources) asset = live_entries sources asset"
    and "fi_available (refresh idx sources) asset = fold max (map (\<lambda>s. fs_available s asset) sources) 0"
    using assms
    by (simp_all add: fi_entries_def fi_available_def refresh_def covers_assets_def get_def nth_append Let_def)
qed

lemma fold_max_start: "m \<le> fold max xs (m :: 'a::linorder)"
proof (induction xs arbitrary: m)
  case (Cons y ys)
  then show ?case by (metis fold_simps(2) max.bounded_iff)
qed simp

lemma fold_max_ge: "x \<in> set xs \<Longrightarrow> x \<le> fold max xs (m :: 'a::linorder)"
proof (induction xs arbitrary: m)
  case (Cons y ys)
  then show ?case using fold_max_start [of "max y m" ys] by (cases "x = y") auto
qed simp

lemma find_first_min:
  assumes "sorted (map f xs)" and "find P xs = Some x"
  shows "x \<in> set xs" "P x" "\<And>y. y \<in> set xs \<Longrightarrow> P y \<Longrightarrow> f x \<le> (f y :: 'k::linorder)"
  using assms by (induction xs) (auto split: if_splits)

lemma valid_from_bps: "haircut_from_bps bps = Some h \<Longrightarrow> valid_haircut h"
  by (auto simp: haircut_from_bps_def valid_haircut_def word_less_unat split: if_splits)

text \<open>Which sources can lend: their haircut depth covers the amount.\<close>

definition can_fund :: "haircut \<Rightarrow> u256 \<Rightarrow> u256 \<Rightarrow> bool" where
  "can_fund h amount available \<longleftrightarrow> amount \<le> haircut_apply h available"

lemma can_fund_nonzero: "valid_haircut h \<Longrightarrow> amount \<noteq> 0 \<Longrightarrow> can_fund h amount a \<Longrightarrow> a \<noteq> 0"
  using haircut_apply_value [of h 0] by (auto simp: can_fund_def word_le_unat unat_eq_zero)

lemma live_entries_set: "set (live_entries sources asset) =
    (\<lambda>s. entry_of s asset) ` {s \<in> set sources. fs_available s asset \<noteq> 0}"
  by (simp add: live_entries_def)

lemma best_route_refresh:
  assumes h: "valid_haircut h" and a: "covers_assets idx debt" and amount: "amount \<noteq> 0"
  shows "best_route (refresh idx sources) debt amount h =
    map_option (\<lambda>e. se_route e debt amount)
      (find (\<lambda>e. can_fund h amount (se_available e)) (live_entries sources debt))"
proof (cases "gross_up h amount")
  case None
  then have "\<not> can_fund h amount v" for v
    using haircut_covers_iff [OF h amount] by (simp add: can_fund_def)
  then have "find (\<lambda>e. can_fund h amount (se_available e)) (live_entries sources debt) = None"
    by (simp add: find_None_iff)
  then show ?thesis using None by (simp add: best_route_def)
next
  case (Some depth)
  then have cf: "can_fund h amount v \<longleftrightarrow> depth \<le> v" for v
    using haircut_covers_iff [OF h amount, of v] by (simp add: can_fund_def)
  have "find (\<lambda>e. depth \<le> se_available e) (live_entries sources debt) = None"
    if "fi_available (refresh idx sources) debt < depth"
  proof -
    have "fs_available s debt \<le> fi_available (refresh idx sources) debt" if "s \<in> set sources" for s
      using that refresh_entries(2) [OF a, of sources] by (auto intro: fold_max_ge)
    then show ?thesis
      using that by (auto simp: find_None_iff live_entries_set entry_of_def) (meson leD order_le_less_trans)
  qed
  then show ?thesis using amount Some by (auto simp: best_route_def cf refresh_entries(1) [OF a])
qed

lemma chain_shape:
  assumes "valid_haircut h" and "need \<noteq> 0"
  obtains es where "fallback_chain idx debt need h m = map (\<lambda>e. se_route e debt need) es"
    and "mset es = mset (filter (\<lambda>e. can_fund h need (se_available e) \<and> effective_cost e need m \<noteq> None)
           (fi_entries idx debt))"
    and "sorted (map (\<lambda>e. the (effective_cost e need m)) es)"
proof (cases "gross_up h need")
  case None
  then have no: "\<not> can_fund h need v" for v
    using haircut_covers_iff [OF assms] by (simp add: can_fund_def)
  show ?thesis by (rule that [of "[]"]) (simp_all add: fallback_chain_def None no)
next
  case (Some depth)
  let ?c = "\<lambda>e. the (effective_cost e need m)"
  let ?es = "filter (\<lambda>e. can_fund h need (se_available e) \<and> effective_cost e need m \<noteq> None) (fi_entries idx debt)"
  have cf: "can_fund h need v \<longleftrightarrow> depth \<le> v" for v
    using haircut_covers_iff [OF assms, of v] Some by (simp add: can_fund_def)
  have ranked: "List.map_filter (\<lambda>e. map_option (\<lambda>c. (c, se_route e debt need)) (effective_cost e need m))
      (filter (\<lambda>e. depth \<le> se_available e) (fi_entries idx debt)) = map (\<lambda>e. (?c e, se_route e debt need)) ?es"
    by (induction "fi_entries idx debt") (auto simp: List.map_filter_def cf)
  have "sort_key fst (map (\<lambda>e. (?c e, se_route e debt need)) xs) =
      map (\<lambda>e. (?c e, se_route e debt need)) (sort_key ?c xs)" for xs
  proof (induction xs)
    case (Cons x xs)
    have "insort_key fst (?c y, se_route y debt need) (map (\<lambda>e. (?c e, se_route e debt need)) ys) =
        map (\<lambda>e. (?c e, se_route e debt need)) (insort_key ?c y ys)" for y ys
      by (induction ys) auto
    then show ?case using Cons by simp
  qed simp
  then have "fallback_chain idx debt need h m = map (\<lambda>e. se_route e debt need) (sort_key ?c ?es)"
    using assms(2) Some by (simp add: fallback_chain_def ranked comp_def)
  then show ?thesis by (rule that) simp_all
qed

section \<open>Properties\<close>

text \<open>
  Grossing up replaces the per-entry haircut: for a haircut of at most 100 percent and a nonzero
  amount, a depth covers the amount after the haircut iff it is at least the grossed-up amount; when
  that amount does not exist (a zero haircut, or an overflow) no depth covers it.
\<close>

theorem gross_up_equivalent:
  assumes "haircut_from_bps bps = Some h" and "amount \<noteq> 0"
  shows "amount \<le> haircut_apply h available \<longleftrightarrow>
    (case gross_up h amount of None \<Rightarrow> False | Some depth \<Rightarrow> depth \<le> available)"
  using haircut_covers_iff [OF valid_from_bps [OF assms(1)] assms(2), of available] by (simp split: option.split)

theorem gross_up_equivalent_witness:
  "90 \<le> haircut_apply (Haircut 9000) 100 \<longleftrightarrow>
    (case gross_up (Haircut 9000) 90 of None \<Rightarrow> False | Some depth \<Rightarrow> depth \<le> 100)"
  using gross_up_equivalent [of 9000 "Haircut 9000" 90 100] by (simp add: haircut_from_bps_def)

text \<open>
  C12. \<open>best_route\<close> on an index just refreshed from its sources: it finds a route iff the amount is
  nonzero and some source covers it after the haircut, and the route is the one through a covering
  source that is cheapest by fee, then gas, then depth.
\<close>

theorem best_route_exact:
  assumes "haircut_from_bps bps = Some h" and "covers_assets idx debt"
  shows "case best_route (refresh idx sources) debt amount h of
     None \<Rightarrow> amount = 0 \<or> \<not> (\<exists>s \<in> set sources. can_fund h amount (fs_available s debt))
   | Some r \<Rightarrow> amount \<noteq> 0 \<and>
       (\<exists>s \<in> set sources. r = se_route (entry_of s debt) debt amount \<and> can_fund h amount (fs_available s debt) \<and>
          (\<forall>s' \<in> set sources. can_fund h amount (fs_available s' debt) \<longrightarrow>
             entry_key (entry_of s debt) \<le> entry_key (entry_of s' debt)))"
proof (cases "amount = 0")
  case True
  then show ?thesis by (simp add: best_route_def)
next
  case False
  let ?f = "find (\<lambda>e. can_fund h amount (se_available e)) (live_entries sources debt)"
  have h: "valid_haircut h" by (rule valid_from_bps [OF assms(1)])
  have av: "se_available (entry_of s debt) = fs_available s debt" for s by (simp add: entry_of_def)
  have live: "s \<in> set sources \<Longrightarrow> can_fund h amount (fs_available s debt) \<Longrightarrow>
      entry_of s debt \<in> set (live_entries sources debt)" for s
    using can_fund_nonzero [OF h False] by (auto simp: live_entries_set)
  have srt: "sorted (map entry_key (live_entries sources debt))" by (simp add: live_entries_def)
  show ?thesis
  proof (cases ?f)
    case None
    have "\<not> can_fund h amount (fs_available s debt)" if "s \<in> set sources" for s
      using None live [OF that] by (force simp: find_None_iff av)
    then show ?thesis by (simp add: best_route_refresh [OF h assms(2) False] None)
  next
    case (Some e)
    note first = find_first_min [OF srt Some]
    obtain s where s: "s \<in> set sources" "e = entry_of s debt" using first(1) by (auto simp: live_entries_set)
    have "entry_key e \<le> entry_key (entry_of s' debt)"
      if "s' \<in> set sources" "can_fund h amount (fs_available s' debt)" for s'
      using first(3) [OF live [OF that]] that(2) by (simp add: av)
    then show ?thesis
      using s first(2) False by (auto simp: best_route_refresh [OF h assms(2) False] Some av)
  qed
qed

definition sample_source :: flash_source where
  "sample_source = \<lparr>fs_provider = FP_Morpho, fs_source = 11, fs_available = (\<lambda>a. if a = 0 then 100 else 0),
     fs_fee_bps = (\<lambda>_ _. 0), fs_callback = MorphoFlashCallback, fs_gas_overhead = 5\<rparr>"

theorem best_route_exact_witness:
  "best_route (refresh (fi_new 1) [sample_source]) 0 90 (Haircut 9000) \<noteq> None"
proof -
  have "unat (haircut_apply (Haircut 9000) 100) = 90"
    by (subst haircut_apply_value) (simp_all add: valid_haircut_def)
  then have "can_fund (Haircut 9000) 90 (fs_available sample_source 0)"
    by (simp add: can_fund_def sample_source_def word_le_unat)
  then show ?thesis
    using best_route_exact [where bps = 9000 and h = "Haircut 9000" and idx = "fi_new 1" and debt = 0
          and sources = "[sample_source]" and amount = 90]
    by (auto simp: haircut_from_bps_def covers_assets_def fi_new_def split: option.splits)
qed

text \<open>
  The fallback chain is exact and ordered: for a nonzero need it lists, one route each, exactly
  the index entries that cover the need after the haircut and whose effective cost can be computed,
  by ascending effective cost.
\<close>

theorem fallback_chain_ranked:
  assumes "haircut_from_bps bps = Some h" and "need \<noteq> 0"
  shows "\<exists>es. fallback_chain idx debt need h m = map (\<lambda>e. se_route e debt need) es \<and>
    mset es = mset (filter (\<lambda>e. can_fund h need (se_available e) \<and> effective_cost e need m \<noteq> None)
      (fi_entries idx debt)) \<and>
    sorted (map (\<lambda>e. the (effective_cost e need m)) es)"
  by (rule chain_shape [OF valid_from_bps [OF assms(1)] assms(2), of idx debt m]) blast

theorem fallback_chain_ranked_witness:
  "\<exists>es. fallback_chain (refresh (fi_new 1) [sample_source]) 0 90 (Haircut 9000) FEE_ONLY =
     map (\<lambda>e. se_route e 0 90) es \<and> sorted (map (\<lambda>e. the (effective_cost e 90 FEE_ONLY)) es)"
  using fallback_chain_ranked [of 9000 "Haircut 9000" 90 "refresh (fi_new 1) [sample_source]" 0 FEE_ONLY]
  by (auto simp: haircut_from_bps_def)

text \<open>
  The flash fee is rounded as the provider rounds: up for Aave and Uniswap V3, so it is never
  short of the contract's fee; down for Sky; and the fee-free providers are priced only at zero.
\<close>

theorem fee_amount_rounding:
  assumes "fee_amount p amount fee_bps = Some fee"
  shows "case p of
      FP_Aave \<Rightarrow> rounds_to Up (unat amount * unat fee_bps) 10000 (unat fee)
    | FP_UniV3 \<Rightarrow> rounds_to Up (unat amount * unat fee_bps) 10000 (unat fee)
    | FP_SkyDss \<Rightarrow> rounds_to Down (unat amount * unat fee_bps) 10000 (unat fee)
    | _ \<Rightarrow> fee_bps = 0 \<and> fee = 0"
proof -
  have ok: "ok r = Some v \<longleftrightarrow> r = Ok v" for r :: "(u256, fixed_error) result" and v by (cases r) auto
  show ?thesis
    using assms
    by (cases p)
      (auto simp: fee_amount_def Let_def ok mul_div_Ok unat_BPS unat_bps rounds_to_round_div Option.bind_eq_Some_conv
        split: if_splits)
qed

theorem fee_amount_rounding_witness:
  "rounds_to Up (1001 * 5) 10000 1"
  using fee_amount_rounding [of FP_UniV3 1001 5 1]
  by (simp add: fee_amount_def mul_div_reference try_from_usize_def BPS_def)

text \<open>
  What readers see is never materially stale: after \<open>publish_if_material\<close> the published index
  has the same shape, identities, fees and gas as the writer's, and no depth is further from it than
  the threshold; the call reports whether it published.
\<close>

theorem publish_keeps_fresh:
  "\<not> differs_materially idx (snd (publish_if_material idx slot t)) t \<and>
   (fst (publish_if_material idx slot t) \<longleftrightarrow> differs_materially idx slot t)"
proof -
  have "\<not> moved t a a" for a by (simp add: moved_def abs_diff_def split: result.split)
  then have "\<not> differs_materially idx idx t"
    by (auto simp: differs_materially_def list_ex_iff set_zip)
  then show ?thesis by (simp add: publish_if_material_def)
qed

end
