(* ===== verification/Cascade.thy ===== *)
theory Cascade
  imports Flash
begin

text \<open>
  The multi-source cascade planner, \<^verbatim>\<open>crates/liq-flash/src/cascade.rs\<close>: every subset of at most three
  sources is filled cheapest first, and the cheapest plan that reaches the need wins, a plan with
  fewer groups being preferred within a margin. The recursive visitor \<^verbatim>\<open>for_each_subset\<close> is the list of
  the subsets in the order it visits them, and its closure a step over that list.
\<close>

definition MAX_GROUPS :: nat where
  "MAX_GROUPS = 3"

definition MAX_CANDIDATES :: nat where
  "MAX_CANDIDATES = 8"

definition planable :: "u256 \<Rightarrow> u256" where
  "planable available = (case mul_div available 99 100 Down of Ok v \<Rightarrow> v | Err _ \<Rightarrow> 0)"

record cascade =
  cs_groups :: "flash_route list"
  cs_funded :: u256
  cs_cost :: u256

record cand =
  cd_planable :: u256
  cd_entry :: source_entry

fun fill_loop ::
  "cand list \<Rightarrow> asset_id \<Rightarrow> cost_model \<Rightarrow> u256 \<Rightarrow> u256 \<Rightarrow> flash_route list \<Rightarrow> (u256 \<times> u256 \<times> flash_route list) option"
where
  "fill_loop [] debt m remaining cost groups = Some (remaining, cost, groups)"
| "fill_loop (c # cs) debt m remaining cost groups =
     (let amt = min (cd_planable c) remaining in
      if amt = 0 then None
      else
        Option.bind (effective_cost (cd_entry c) amt m) (\<lambda>ec.
        Option.bind (checked_add cost ec) (\<lambda>cost.
        Option.bind (checked_sub remaining amt) (\<lambda>remaining.
        fill_loop cs debt m remaining cost (groups @ [se_route (cd_entry c) debt amt])))))"

definition fill :: "cand list \<Rightarrow> asset_id \<Rightarrow> u256 \<Rightarrow> cost_model \<Rightarrow> cascade option" where
  "fill picked debt need m =
     Option.bind (fill_loop picked debt m need 0 []) (\<lambda>(remaining, cost, groups).
     map_option (\<lambda>funded. \<lparr>cs_groups = groups, cs_funded = funded, cs_cost = cost\<rparr>)
       (checked_sub need remaining))"

fun for_each_subset :: "'a list \<Rightarrow> 'a list \<Rightarrow> 'a list list" where
  "for_each_subset pick [] = []"
| "for_each_subset pick (c # tail) =
     (let p = pick @ [c] in
      p # (if length p < MAX_GROUPS then for_each_subset p tail else []) @ for_each_subset pick tail)"

definition better_partial :: "cascade \<Rightarrow> cascade \<Rightarrow> bool" where
  "better_partial c b \<longleftrightarrow>
     cs_funded c > cs_funded b \<or>
     (cs_funded c = cs_funded b \<and>
        (cs_cost c < cs_cost b \<or> (cs_cost c = cs_cost b \<and> length (cs_groups c) < length (cs_groups b))))"

text \<open>The closure of \<open>plan\<close>: the cheapest feasible plan per group count, and the best partial.\<close>

definition plan_step ::
  "asset_id \<Rightarrow> u256 \<Rightarrow> cost_model \<Rightarrow> cand list \<Rightarrow> cascade option list \<times> cascade option \<Rightarrow>
   cascade option list \<times> cascade option" where
  "plan_step debt need m picked st =
     (case st of (feasible, partial) \<Rightarrow>
        case fill picked debt need m of
          None \<Rightarrow> (feasible, partial)
        | Some c \<Rightarrow>
            if cs_funded c < need then
              (feasible,
               if (case partial of None \<Rightarrow> True | Some b \<Rightarrow> better_partial c b) then Some c else partial)
            else
              (case (if cs_groups c = [] then None else get feasible (length (cs_groups c) - 1)) of
                 None \<Rightarrow> (feasible, partial)
               | Some slot \<Rightarrow>
                   if (case slot of None \<Rightarrow> True | Some b \<Rightarrow> cs_cost c < cs_cost b)
                   then (feasible[length (cs_groups c) - 1 := Some c], partial)
                   else (feasible, partial)))"

definition candidates :: "flash_index \<Rightarrow> asset_id \<Rightarrow> cand list" where
  "candidates idx debt =
     take MAX_CANDIDATES
       (filter (\<lambda>c. cd_planable c \<noteq> 0)
         (map (\<lambda>e. \<lparr>cd_planable = planable (se_available e), cd_entry = e\<rparr>) (fi_entries idx debt)))"

definition flatten :: "'a option list \<Rightarrow> 'a list" where
  "flatten xs = List.map_filter (\<lambda>x. x) xs"

definition min_of :: "u256 list \<Rightarrow> u256 option" where
  "min_of xs = (case xs of [] \<Rightarrow> None | x # xs \<Rightarrow> Some (fold min xs x))"

definition plan :: "flash_index \<Rightarrow> asset_id \<Rightarrow> u256 \<Rightarrow> cost_model \<Rightarrow> u16 \<Rightarrow> cascade option" where
  "plan idx debt need m close_bps =
     (if need = 0 then None
      else
        let cands = candidates idx debt;
            (feasible, partial) =
              fold (plan_step debt need m) (for_each_subset [] cands) ([None, None, None], None)
        in case min_of (map cs_cost (flatten feasible)) of
             None \<Rightarrow> partial
           | Some min_cost \<Rightarrow>
               let margin = (case mul_div need (ucast close_bps) BPS Down of Ok v \<Rightarrow> v | Err _ \<Rightarrow> 0);
                   limit = (case checked_add min_cost margin of Some v \<Rightarrow> v | None \<Rightarrow> - 1)
               in find (\<lambda>c. cs_cost c \<le> limit) (flatten feasible))"

section \<open>The subsets visited\<close>

definition small_subsets :: "'a list \<Rightarrow> 'a list set" where
  "small_subsets cs = {s \<in> set (subseqs cs). s \<noteq> [] \<and> length s \<le> MAX_GROUPS}"

lemma nil_in_subseqs: "[] \<in> set (subseqs cs)"
  by (induction cs) (auto simp: Let_def)

lemma for_each_subset_mem:
  "length pick < MAX_GROUPS \<Longrightarrow>
   p \<in> set (for_each_subset pick cs) \<longleftrightarrow>
     (\<exists>s. p = pick @ s \<and> s \<in> set (subseqs cs) \<and> s \<noteq> [] \<and> length pick + length s \<le> MAX_GROUPS)"
proof (induction pick cs arbitrary: p rule: for_each_subset.induct)
  case (2 pick c tail)
  let ?q = "pick @ [c]"
  let ?in = "\<lambda>pick s. s \<in> set (subseqs tail) \<and> s \<noteq> [] \<and> length pick + length s \<le> MAX_GROUPS"
  have skip: "p \<in> set (for_each_subset pick tail) \<longleftrightarrow> (\<exists>s. p = pick @ s \<and> ?in pick s)"
    using "2.IH"(2) [OF refl "2.prems"] .
  have deeper: "p \<in> set (if length ?q < MAX_GROUPS then for_each_subset ?q tail else []) \<longleftrightarrow>
      (\<exists>s. p = ?q @ s \<and> ?in ?q s)"
  proof (cases "length ?q < MAX_GROUPS")
    case True
    then show ?thesis using "2.IH"(1) [OF refl True True] by simp
  next
    case False
    then have "\<not> ?in ?q s" for s by (cases s) auto
    then show ?thesis using False by auto
  qed
  have "p \<in> set (for_each_subset pick (c # tail)) \<longleftrightarrow>
      p = ?q \<or> (\<exists>s. p = ?q @ s \<and> ?in ?q s) \<or> (\<exists>s. p = pick @ s \<and> ?in pick s)"
    using skip deeper by (simp add: Let_def)
  also have "\<dots> \<longleftrightarrow> (\<exists>s. p = pick @ c # s \<and> s \<in> set (subseqs tail) \<and> length pick + Suc (length s) \<le> MAX_GROUPS) \<or>
      (\<exists>s. p = pick @ s \<and> ?in pick s)"
    using "2.prems" nil_in_subseqs [of tail] by auto
  also have "\<dots> \<longleftrightarrow> (\<exists>s. p = pick @ s \<and> s \<in> set (subseqs (c # tail)) \<and> s \<noteq> [] \<and>
      length pick + length s \<le> MAX_GROUPS)"
    by (auto simp: Let_def)
  finally show ?case .
qed simp

lemma for_each_subset_set: "set (for_each_subset [] cs) = small_subsets cs"
  using for_each_subset_mem [of "[]" _ cs] by (auto simp: small_subsets_def MAX_GROUPS_def)

section \<open>What a filled subset is\<close>

text \<open>
  \<open>funds debt need m picked c\<close>: the cascade \<open>c\<close> draws a positive amount within the planable depth
  from each picked source in order, its \<open>funded\<close> is their sum, at most the need, and its cost the
  sum of their effective costs.
\<close>

definition funds :: "asset_id \<Rightarrow> u256 \<Rightarrow> cost_model \<Rightarrow> cand list \<Rightarrow> cascade \<Rightarrow> bool" where
  "funds debt need m picked c \<longleftrightarrow>
     (\<exists>ts. list_all2 (\<lambda>cd t. t \<noteq> 0 \<and> t \<le> cd_planable cd \<and> effective_cost (cd_entry cd) t m \<noteq> None) picked ts \<and>
       cs_groups c = map2 (\<lambda>cd t. se_route (cd_entry cd) debt t) picked ts \<and>
       unat (cs_funded c) = sum_list (map unat ts) \<and> unat (cs_funded c) \<le> unat need \<and>
       unat (cs_cost c) =
         sum_list (map2 (\<lambda>cd t. unat (the (effective_cost (cd_entry cd) t m))) picked ts))"

lemma fill_loop_funds:
  "fill_loop cs debt m rem cost gs = Some (rem', cost', gs') \<Longrightarrow>
   \<exists>ts. list_all2 (\<lambda>cd t. t \<noteq> 0 \<and> t \<le> cd_planable cd \<and> effective_cost (cd_entry cd) t m \<noteq> None) cs ts \<and>
     gs' = gs @ map2 (\<lambda>cd t. se_route (cd_entry cd) debt t) cs ts \<and>
     unat rem = unat rem' + sum_list (map unat ts) \<and>
     unat cost' = unat cost + sum_list (map2 (\<lambda>cd t. unat (the (effective_cost (cd_entry cd) t m))) cs ts)"
proof (induction cs debt m rem cost gs rule: fill_loop.induct)
  case (2 c cs debt m rem cost gs)
  let ?t = "min (cd_planable c) rem"
  obtain ec cost1 rem1 where step: "?t \<noteq> 0" "effective_cost (cd_entry c) ?t m = Some ec"
      "checked_add cost ec = Some cost1" "checked_sub rem ?t = Some rem1"
      "fill_loop cs debt m rem1 cost1 (gs @ [se_route (cd_entry c) debt ?t]) = Some (rem', cost', gs')"
    using "2.prems" by (auto simp: Let_def Option.bind_eq_Some_conv split: if_splits)
  obtain ts where ts: "list_all2 (\<lambda>cd t. t \<noteq> 0 \<and> t \<le> cd_planable cd \<and> effective_cost (cd_entry cd) t m \<noteq> None) cs ts"
      "gs' = (gs @ [se_route (cd_entry c) debt ?t]) @ map2 (\<lambda>cd t. se_route (cd_entry cd) debt t) cs ts"
      "unat rem1 = unat rem' + sum_list (map unat ts)"
      "unat cost' = unat cost1 + sum_list (map2 (\<lambda>cd t. unat (the (effective_cost (cd_entry cd) t m))) cs ts)"
    using "2.IH" [OF refl step(1-5)] by blast
  have "unat ?t \<le> unat rem" "unat rem1 = unat rem - unat ?t" "unat cost1 = unat cost + unat ec"
    using step(3,4) by (auto simp: checked_add_Some checked_sub_Some)
  then show ?case using step(1,2) ts by (intro exI [of _ "?t # ts"]) simp
qed simp

lemma fill_funds: "fill picked debt need m = Some c \<Longrightarrow> funds debt need m picked c"
  using fill_loop_funds [of picked debt m need 0 "[]"]
  by (fastforce simp: fill_def funds_def Option.bind_eq_Some_conv checked_sub_Some)

lemma fill_length: "fill picked debt need m = Some c \<Longrightarrow> length (cs_groups c) = length picked"
  using fill_funds by (fastforce simp: funds_def dest: list_all2_lengthD)

section \<open>The fold keeps the best\<close>

definition best_of :: "('a \<Rightarrow> 'k::linorder) \<Rightarrow> 'a set \<Rightarrow> 'a option \<Rightarrow> bool" where
  "best_of key S acc \<longleftrightarrow>
     (case acc of None \<Rightarrow> S = {} | Some b \<Rightarrow> b \<in> S \<and> (\<forall>x \<in> S. key b \<le> key x))"

lemma best_of_insert:
  assumes "best_of key S acc"
  shows "best_of key (insert x S) (if (case acc of None \<Rightarrow> True | Some b \<Rightarrow> key x < key b) then Some x else acc)"
  using assms by (auto simp: best_of_def split: option.splits)

definition partial_key :: "cascade \<Rightarrow> int \<times> u256 \<times> nat" where
  "partial_key c = (- uint (cs_funded c), cs_cost c, length (cs_groups c))"

lemma better_partial_key: "better_partial c b \<longleftrightarrow> partial_key c < partial_key b"
  by (auto simp: better_partial_def partial_key_def less_prod_def word_less_def [of "cs_funded b"]
      word_uint_eq_iff [of "cs_funded c"])

definition full :: "asset_id \<Rightarrow> u256 \<Rightarrow> cost_model \<Rightarrow> cand list set \<Rightarrow> cascade set" where
  "full debt need m V = {c. \<exists>p \<in> V. fill p debt need m = Some c \<and> \<not> cs_funded c < need}"

definition short :: "asset_id \<Rightarrow> u256 \<Rightarrow> cost_model \<Rightarrow> cand list set \<Rightarrow> cascade set" where
  "short debt need m V = {c. \<exists>p \<in> V. fill p debt need m = Some c \<and> cs_funded c < need}"

definition sized :: "nat \<Rightarrow> cascade set \<Rightarrow> cascade set" where
  "sized k S = {c \<in> S. length (cs_groups c) = Suc k}"

lemma sized_insert: "length (cs_groups c) = Suc j \<Longrightarrow> sized k (insert c S) = (if k = j then insert c (sized k S) else sized k S)"
  by (auto simp: sized_def)

definition plan_inv ::
  "asset_id \<Rightarrow> u256 \<Rightarrow> cost_model \<Rightarrow> cand list set \<Rightarrow> cascade option list \<times> cascade option \<Rightarrow> bool" where
  "plan_inv debt need m V st \<longleftrightarrow>
     (case st of (feasible, partial) \<Rightarrow>
        length feasible = MAX_GROUPS \<and> best_of partial_key (short debt need m V) partial \<and>
        (\<forall>k < MAX_GROUPS. best_of cs_cost (sized k (full debt need m V)) (feasible ! k)))"

lemma plan_step_inv:
  assumes inv: "plan_inv debt need m V st" and p: "p \<noteq> []" "length p \<le> MAX_GROUPS"
  shows "plan_inv debt need m (insert p V) (plan_step debt need m p st)"
proof -
  obtain feasible partial where st: "st = (feasible, partial)" by (cases st)
  note i = inv [unfolded plan_inv_def st prod.case]
  show ?thesis
  proof (cases "fill p debt need m")
    case None
    then have "short debt need m (insert p V) = short debt need m V" "full debt need m (insert p V) = full debt need m V"
      by (auto simp: short_def full_def)
    then show ?thesis using inv None by (simp add: plan_inv_def st plan_step_def)
  next
    case (Some c)
    show ?thesis
    proof (cases "cs_funded c < need")
      case True
      have "short debt need m (insert p V) = insert c (short debt need m V)"
        "full debt need m (insert p V) = full debt need m V"
        using Some True by (auto simp: short_def full_def)
      moreover have "(case partial of None \<Rightarrow> True | Some b \<Rightarrow> better_partial c b) =
          (case partial of None \<Rightarrow> True | Some b \<Rightarrow> partial_key c < partial_key b)"
        by (simp add: better_partial_key split: option.split)
      ultimately show ?thesis
        using i best_of_insert [of partial_key "short debt need m V" partial c] True Some
        by (simp add: plan_inv_def st plan_step_def)
    next
      case False
      obtain j where len: "length (cs_groups c) = Suc j" "j < MAX_GROUPS"
        using fill_length [OF Some] p by (cases p) auto
      let ?new = "if (case feasible ! j of None \<Rightarrow> True | Some b \<Rightarrow> cs_cost c < cs_cost b)
        then Some c else feasible ! j"
      have sets: "short debt need m (insert p V) = short debt need m V"
        "full debt need m (insert p V) = insert c (full debt need m V)"
        using Some False by (auto simp: short_def full_def)
      have step: "plan_step debt need m p st = (feasible[j := ?new], partial)"
        using Some False len i by (auto simp: plan_step_def st get_def)
      have "best_of cs_cost (sized k (insert c (full debt need m V))) (feasible[j := ?new] ! k)"
        if k: "k < MAX_GROUPS" for k
      proof (cases "k = j")
        case True
        have "best_of cs_cost (sized j (full debt need m V)) (feasible ! j)" using i len(2) by blast
        from best_of_insert [OF this, of c] show ?thesis
          using True i len by (simp add: sized_insert [OF len(1)])
      next
        case False
        then show ?thesis using i k by (simp add: sized_insert [OF len(1)])
      qed
      then show ?thesis using i sets unfolding step plan_inv_def by simp
    qed
  qed
qed

lemma plan_fold_inv:
  assumes "\<forall>p \<in> set ps. p \<noteq> [] \<and> length p \<le> MAX_GROUPS" and "plan_inv debt need m V st"
  shows "plan_inv debt need m (set ps \<union> V) (fold (plan_step debt need m) ps st)"
  using assms
proof (induction ps arbitrary: V st)
  case (Cons p ps)
  then show ?case using plan_step_inv [of debt need m V st p] Cons.IH [of "insert p V"] by simp
qed simp

lemma plan_inv_start: "plan_inv debt need m {} ([None, None, None], None)"
  by (auto simp: plan_inv_def best_of_def short_def full_def sized_def MAX_GROUPS_def less_Suc_eq numeral_3_eq_3)

section \<open>The choice\<close>

lemma flatten_set: "c \<in> set (flatten xs) \<longleftrightarrow> Some c \<in> set xs"
  by (force simp: flatten_def List.map_filter_def image_iff)

lemma flatten_Nil: "flatten xs = [] \<longleftrightarrow> (\<forall>x \<in> set xs. x = None)"
  by (auto simp: flatten_def List.map_filter_def filter_empty_conv)

lemma min_of_None: "min_of xs = None \<longleftrightarrow> xs = []"
  by (simp add: min_of_def split: list.split)

lemma min_of_Some:
  assumes "min_of xs = Some v"
  shows "v \<in> set xs" and "\<And>x. x \<in> set xs \<Longrightarrow> v \<le> x"
proof -
  have fold: "fold min ys y \<in> set (y # ys) \<and> (\<forall>x \<in> set (y # ys). fold min ys y \<le> x)" for y :: u256 and ys
  proof (induction ys arbitrary: y)
    case (Cons z zs)
    show ?case using Cons [of "min z y"] by (auto simp: min_def split: if_splits)
  qed simp
  obtain y ys where "xs = y # ys" "v = fold min ys y" using assms by (auto simp: min_of_def split: list.splits)
  with fold [of ys y] show "v \<in> set xs" and "\<And>x. x \<in> set xs \<Longrightarrow> v \<le> x" by blast+
qed

text \<open>The first acceptable slot, by index.\<close>

lemma find_flatten:
  assumes "find P (flatten xs) = Some c"
  obtains k where "k < length xs" "xs ! k = Some c" "P c"
    and "\<And>j b. j < k \<Longrightarrow> xs ! j = Some b \<Longrightarrow> \<not> P b"
  using assms
proof (induction xs arbitrary: thesis)
  case Nil
  then show ?case by (simp add: flatten_def List.map_filter_def)
next
  case (Cons x xs)
  show ?case
  proof (cases "\<exists>b. x = Some b \<and> P b")
    case True
    then have "x = Some c" "P c" using Cons.prems(2) by (auto simp: flatten_def List.map_filter_def)
    then show ?thesis using Cons.prems(1) [of 0] by simp
  next
    case False
    then have "find P (flatten xs) = Some c"
      using Cons.prems(2) by (cases x) (auto simp: flatten_def List.map_filter_def)
    then obtain k where "k < length xs" "xs ! k = Some c" "P c" "\<And>j b. j < k \<Longrightarrow> xs ! j = Some b \<Longrightarrow> \<not> P b"
      using Cons.IH by blast
    moreover have "\<not> P b" if "j < Suc k" "(x # xs) ! j = Some b" for j b
      using that calculation(4) False by (cases j) auto
    ultimately show ?thesis using Cons.prems(1) [of "Suc k"] by simp
  qed
qed

definition margin :: "u256 \<Rightarrow> u16 \<Rightarrow> u256" where
  "margin need close_bps = (case mul_div need (ucast close_bps) BPS Down of Ok v \<Rightarrow> v | Err _ \<Rightarrow> 0)"

lemma limit_iff:
  "c \<le> (case checked_add v g of Some w \<Rightarrow> w | None \<Rightarrow> (- 1 :: u256)) \<longleftrightarrow> unat c \<le> unat v + unat g"
proof (cases "checked_add v g")
  case None
  then have "2 ^ 256 \<le> unat v + unat g" by (simp add: checked_add_None)
  then show ?thesis using None unat_bound [of c] by simp
next
  case (Some w)
  then have "unat w = unat v + unat g" by (simp add: checked_add_Some)
  then show ?thesis using Some by (simp add: word_le_unat)
qed

lemma full_groups:
  assumes "c \<in> full debt need m (small_subsets cs)"
  obtains k where "k < MAX_GROUPS" "length (cs_groups c) = Suc k"
proof -
  obtain p where "p \<noteq> []" "length p \<le> MAX_GROUPS" "fill p debt need m = Some c"
    using assms by (auto simp: full_def small_subsets_def)
  then show ?thesis using that [of "length p - 1"] fill_length [of p debt need m c] by (cases p) auto
qed

lemma plan_choice:
  assumes need: "need \<noteq> 0" and V: "V = small_subsets (candidates idx debt)"
  obtains feasible partial where "plan_inv debt need m V (feasible, partial)"
    and "plan idx debt need m close_bps =
      (case min_of (map cs_cost (flatten feasible)) of
         None \<Rightarrow> partial
       | Some v \<Rightarrow> find (\<lambda>c. unat (cs_cost c) \<le> unat v + unat (margin need close_bps)) (flatten feasible))"
proof -
  let ?st = "fold (plan_step debt need m) (for_each_subset [] (candidates idx debt)) ([None, None, None], None)"
  obtain feasible partial where st: "?st = (feasible, partial)" by (cases ?st)
  have "plan_inv debt need m V (feasible, partial)"
    using plan_fold_inv [OF _ plan_inv_start, of "for_each_subset [] (candidates idx debt)" debt need m]
    by (simp add: for_each_subset_set V small_subsets_def st)
  moreover have "plan idx debt need m close_bps =
      (case min_of (map cs_cost (flatten feasible)) of
         None \<Rightarrow> partial
       | Some v \<Rightarrow> find (\<lambda>c. unat (cs_cost c) \<le> unat v + unat (margin need close_bps)) (flatten feasible))"
    using need by (simp add: plan_def Let_def st limit_iff margin_def split: option.split)
  ultimately show ?thesis by (rule that)
qed

lemma slot_of_full:
  assumes inv: "plan_inv debt need m V (feasible, partial)" and c: "c \<in> full debt need m V"
    and k: "k < MAX_GROUPS" "length (cs_groups c) = Suc k"
  obtains b where "feasible ! k = Some b" "cs_cost b \<le> cs_cost c"
proof -
  have "best_of cs_cost (sized k (full debt need m V)) (feasible ! k)" using inv k(1) by (simp add: plan_inv_def)
  moreover have "c \<in> sized k (full debt need m V)" using c k(2) by (simp add: sized_def)
  ultimately show ?thesis using that by (auto simp: best_of_def split: option.splits)
qed

lemma slot_in_full:
  assumes "plan_inv debt need m V (feasible, partial)" and "k < length feasible" and "feasible ! k = Some b"
  shows "b \<in> full debt need m V" and "length (cs_groups b) = Suc k"
proof -
  have "best_of cs_cost (sized k (full debt need m V)) (Some b)" using assms by (auto simp: plan_inv_def)
  then show "b \<in> full debt need m V" and "length (cs_groups b) = Suc k" by (simp_all add: best_of_def sized_def)
qed

lemma plan_full:
  assumes need: "need \<noteq> 0" and V: "V = small_subsets (candidates idx debt)" and ex: "full debt need m V \<noteq> {}"
  obtains c where "plan idx debt need m close_bps = Some c" and "c \<in> full debt need m V"
    and "\<And>d. d \<in> full debt need m V \<Longrightarrow> unat (cs_cost c) \<le> unat (cs_cost d) + unat (margin need close_bps)"
    and "\<And>d. d \<in> full debt need m V \<Longrightarrow>
      (\<forall>e \<in> full debt need m V. unat (cs_cost d) \<le> unat (cs_cost e) + unat (margin need close_bps)) \<Longrightarrow>
      length (cs_groups c) \<le> length (cs_groups d)"
proof -
  let ?F = "full debt need m V" and ?g = "unat (margin need close_bps)"
  obtain feasible partial where inv: "plan_inv debt need m V (feasible, partial)"
    and plan: "plan idx debt need m close_bps =
      (case min_of (map cs_cost (flatten feasible)) of
         None \<Rightarrow> partial
       | Some v \<Rightarrow> find (\<lambda>c. unat (cs_cost c) \<le> unat v + ?g) (flatten feasible))"
    by (rule plan_choice [OF need V]) blast
  have len: "length feasible = MAX_GROUPS" using inv by (simp add: plan_inv_def)
  have slot: "\<exists>k b. k < MAX_GROUPS \<and> length (cs_groups d) = Suc k \<and> feasible ! k = Some b \<and> cs_cost b \<le> cs_cost d"
    if d: "d \<in> ?F" for d
  proof -
    obtain k where "k < MAX_GROUPS" "length (cs_groups d) = Suc k"
      by (rule full_groups [OF d [unfolded V]]) blast
    moreover from this obtain b where "feasible ! k = Some b" "cs_cost b \<le> cs_cost d"
      by (rule slot_of_full [OF inv d]) blast
    ultimately show ?thesis by blast
  qed
  have mem: "b \<in> set (flatten feasible)" if "k < MAX_GROUPS" "feasible ! k = Some b" for k b
    using that len nth_mem [of k feasible] by (simp add: flatten_set)
  have near: "\<exists>b \<in> set (flatten feasible). cs_cost b \<le> cs_cost d" if "d \<in> ?F" for d
    using slot [OF that] mem by blast
  then have "flatten feasible \<noteq> []" using ex by auto
  then obtain v where v: "min_of (map cs_cost (flatten feasible)) = Some v"
    using min_of_None by (cases "min_of (map cs_cost (flatten feasible))") auto
  note mv = min_of_Some [OF v]
  have low: "v \<le> cs_cost d" if d: "d \<in> ?F" for d
  proof -
    obtain b where "b \<in> set (flatten feasible)" "cs_cost b \<le> cs_cost d" using near [OF d] by blast
    then show ?thesis using mv(2) [of "cs_cost b"] by (simp add: order_trans [of v "cs_cost b"])
  qed
  obtain c0 where "c0 \<in> set (flatten feasible)" "cs_cost c0 = v" using mv(1) by auto
  then obtain c where c: "find (\<lambda>c. unat (cs_cost c) \<le> unat v + ?g) (flatten feasible) = Some c"
    by (cases "find (\<lambda>c. unat (cs_cost c) \<le> unat v + ?g) (flatten feasible)") (auto simp: find_None_iff)
  obtain k where k: "k < length feasible" "feasible ! k = Some c" "unat (cs_cost c) \<le> unat v + ?g"
      "\<And>j b. j < k \<Longrightarrow> feasible ! j = Some b \<Longrightarrow> \<not> unat (cs_cost b) \<le> unat v + ?g"
    by (rule find_flatten [OF c]) blast
  note cF = slot_in_full [OF inv k(1,2)]
  have "c0 \<in> ?F"
    using \<open>c0 \<in> set (flatten feasible)\<close> slot_in_full(1) [OF inv] 
    unfolding flatten_set unfolding in_set_conv_nth by blast
  show ?thesis
  proof (rule that [of c])
    show "plan idx debt need m close_bps = Some c" by (simp add: plan v c)
    show "c \<in> ?F" by (rule cF(1))
    show "unat (cs_cost c) \<le> unat (cs_cost d) + ?g" if "d \<in> ?F" for d
      using k(3) low [OF that] by (simp add: word_le_unat)
    show "length (cs_groups c) \<le> length (cs_groups d)"
      if d: "d \<in> ?F" and cheap: "\<forall>e \<in> ?F. unat (cs_cost d) \<le> unat (cs_cost e) + ?g" for d
    proof (rule ccontr)
      assume "\<not> length (cs_groups c) \<le> length (cs_groups d)"
      moreover obtain j b where "length (cs_groups d) = Suc j" "feasible ! j = Some b" "cs_cost b \<le> cs_cost d"
        using slot [OF d] by blast
      moreover have "unat (cs_cost d) \<le> unat v + ?g" using cheap \<open>c0 \<in> ?F\<close> \<open>cs_cost c0 = v\<close> by auto
      ultimately show False using k(4) [of j b] cF(2) by (simp add: word_le_unat)
    qed
  qed
qed

lemma plan_short:
  assumes need: "need \<noteq> 0" and V: "V = small_subsets (candidates idx debt)" and none: "full debt need m V = {}"
  shows "best_of partial_key (short debt need m V) (plan idx debt need m close_bps)"
proof -
  obtain feasible partial where inv: "plan_inv debt need m V (feasible, partial)"
    and plan: "plan idx debt need m close_bps =
      (case min_of (map cs_cost (flatten feasible)) of
         None \<Rightarrow> partial
       | Some v \<Rightarrow> find (\<lambda>c. unat (cs_cost c) \<le> unat v + unat (margin need close_bps)) (flatten feasible))"
    by (rule plan_choice [OF need V]) blast
  have "c \<notin> set (flatten feasible)" for c
    using slot_in_full(1) [OF inv] none 
    unfolding flatten_set unfolding in_set_conv_nth by blast
  then have "flatten feasible = []" by (cases "flatten feasible") auto
  then have "plan idx debt need m close_bps = partial" by (simp add: plan min_of_def)
  then show ?thesis using inv by (simp add: plan_inv_def)
qed

section \<open>The planner\<close>

text \<open>
  A plan is one flash from each of at most three distinct index entries that have planable depth: each
  group draws a positive amount within 99% of its source, the \<open>funded\<close> field is the sum of the
  amounts and never exceeds the need, and the \<open>cost\<close> field is the sum of the groups' effective costs.
\<close>
theorem cascade_sound:
  assumes "plan idx debt need m close_bps = Some c"
  shows "(\<exists>picked \<in> small_subsets (candidates idx debt). funds debt need m picked c) \<and>
    1 \<le> length (cs_groups c) \<and> length (cs_groups c) \<le> MAX_GROUPS"
proof -
  let ?V = "small_subsets (candidates idx debt)"
  have need: "need \<noteq> 0" using assms by (auto simp: plan_def)
  have "c \<in> full debt need m ?V \<union> short debt need m ?V"
  proof (cases "full debt need m ?V = {}")
    case True
    then show ?thesis using plan_short [OF need refl True, of close_bps] assms by (simp add: best_of_def)
  next
    case False
    obtain d where "plan idx debt need m close_bps = Some d" "d \<in> full debt need m ?V"
      by (rule plan_full [OF need refl False, of close_bps]) blast
    then show ?thesis using assms by simp
  qed
  then obtain p where p: "p \<in> ?V" "fill p debt need m = Some c" by (auto simp: full_def short_def)
  moreover have "1 \<le> length p" "length p \<le> MAX_GROUPS" using p(1) by (cases p; simp add: small_subsets_def)+
  ultimately show ?thesis using fill_funds [OF p(2)] fill_length [OF p(2)] by auto
qed

definition sample_entry :: source_entry where
  "sample_entry =
     \<lparr>se_available = 1000, se_source = 11, se_gas_overhead = 0, se_fee_bps = 0,
      se_provider = FP_Morpho, se_callback = MorphoFlashCallback\<rparr>"

definition sample_index :: flash_index where
  "sample_index = \<lparr>fi_by_asset = [[sample_entry]], fi_max_available = [1000]\<rparr>"

lemma sample_candidates: "candidates sample_index 0 = [\<lparr>cd_planable = 990, cd_entry = sample_entry\<rparr>]"
  by (simp add: candidates_def fi_entries_def sample_index_def sample_entry_def planable_def mul_div_reference
      try_from_usize_def MAX_CANDIDATES_def get_def)

lemma sample_fill:
  "fill [\<lparr>cd_planable = 990, cd_entry = sample_entry\<rparr>] 0 500 FEE_ONLY =
     Some \<lparr>cs_groups = [se_route sample_entry 0 500], cs_funded = 500, cs_cost = 0\<rparr>"
  by (simp add: fill_def Let_def min_def effective_cost_def fee_amount_def sample_entry_def premium_def
      FEE_ONLY_def checked_add_def checked_sub_def checked_mul_def
      get_def)

lemma sample_plan:
  "plan sample_index 0 500 FEE_ONLY 5 =
     Some \<lparr>cs_groups = [se_route sample_entry 0 500], cs_funded = 500, cs_cost = 0\<rparr>"
  by (simp add: plan_def sample_candidates plan_step_def sample_fill flatten_def List.map_filter_def min_of_def
      Let_def MAX_GROUPS_def get_def mul_div_reference BPS_def try_from_usize_def checked_add_def)

theorem cascade_sound_witness:
  "1 \<le> length (cs_groups (the (plan sample_index 0 500 FEE_ONLY 5)))"
  using cascade_sound [OF sample_plan] by (simp add: sample_plan)

text \<open>
  C5. The planner's choice among the subsets of at most three candidates. Where some subset reaches the
  need, the plan reaches it, costs at most the margin more than every other such plan, and has no more
  groups than any plan that is itself within the margin of all others. Where none does, the answer is a
  partial plan that no other beats on funding, then cost, then number of groups; there is no answer exactly
  when no subset can be filled at all.
\<close>
theorem cascade_optimal:
  fixes idx :: flash_index and debt :: asset_id
  assumes "need \<noteq> 0"
  defines "V \<equiv> small_subsets (candidates idx debt)"
  shows "case plan idx debt need m close_bps of
      None \<Rightarrow> full debt need m V = {} \<and> short debt need m V = {}
    | Some c \<Rightarrow>
        if full debt need m V = {} then c \<in> short debt need m V \<and> (\<forall>d \<in> short debt need m V. \<not> better_partial d c)
        else c \<in> full debt need m V \<and>
          (\<forall>d \<in> full debt need m V. unat (cs_cost c) \<le> unat (cs_cost d) + unat (margin need close_bps)) \<and>
          (\<forall>d \<in> full debt need m V.
             (\<forall>e \<in> full debt need m V. unat (cs_cost d) \<le> unat (cs_cost e) + unat (margin need close_bps)) \<longrightarrow>
             length (cs_groups c) \<le> length (cs_groups d))"
proof (cases "full debt need m V = {}")
  case True
  have V: "V = small_subsets (candidates idx debt)" by (simp add: V_def)
  show ?thesis
    using plan_short [OF assms(1) V True, of close_bps] True
    by (auto simp: best_of_def better_partial_key not_less split: option.splits)
next
  case False
  have V: "V = small_subsets (candidates idx debt)" by (simp add: V_def)
  obtain c where "plan idx debt need m close_bps = Some c" and "c \<in> full debt need m V"
    and "\<And>d. d \<in> full debt need m V \<Longrightarrow> unat (cs_cost c) \<le> unat (cs_cost d) + unat (margin need close_bps)"
    and "\<And>d. d \<in> full debt need m V \<Longrightarrow>
      (\<forall>e \<in> full debt need m V. unat (cs_cost d) \<le> unat (cs_cost e) + unat (margin need close_bps)) \<Longrightarrow>
      length (cs_groups c) \<le> length (cs_groups d)"
    by (rule plan_full [OF assms(1) V False, of close_bps]) blast
  then show ?thesis using False by simp
qed

theorem cascade_optimal_witness:
  "the (plan sample_index 0 500 FEE_ONLY 5) \<in> full 0 500 FEE_ONLY (small_subsets (candidates sample_index 0))"
proof -
  have "[\<lparr>cd_planable = 990, cd_entry = sample_entry\<rparr>] \<in> small_subsets (candidates sample_index 0)"
    by (simp add: small_subsets_def sample_candidates MAX_GROUPS_def)
  moreover have "\<not> cs_funded \<lparr>cs_groups = [se_route sample_entry 0 500], cs_funded = (500::u256), cs_cost = 0\<rparr> < 500"
    by simp
  ultimately have "full 0 500 FEE_ONLY (small_subsets (candidates sample_index 0)) \<noteq> {}"
    using sample_fill unfolding full_def by blast
  then show ?thesis
    using cascade_optimal [where idx = sample_index and debt = 0 and need = 500 and m = FEE_ONLY and close_bps = 5] by (simp add: sample_plan)
qed

end
