(* ===== verification/Bytes.thy ===== *)
theory Bytes
  imports Prelude
begin

text \<open>
  Big-endian integers, \<^verbatim>\<open>to_be_bytes\<close> and \<^verbatim>\<open>from_be_bytes\<close>, and what it means that a byte slice
  stands at an offset of a buffer. Shared by the wire format and the plan encoder.
\<close>

named_theorems wire \<open>what a read at an offset returns, as a fact about the bytes there\<close>

fun be_bytes :: "nat \<Rightarrow> nat \<Rightarrow> u8 list" where
  "be_bytes 0 x = []"
| "be_bytes (Suc n) x = be_bytes n (x div 256) @ [of_nat (x mod 256)]"

definition be_nat :: "u8 list \<Rightarrow> nat" where
  "be_nat bs = foldl (\<lambda>a b. 256 * a + unat b) 0 bs"

definition to_be_bytes :: "'a::len word \<Rightarrow> u8 list" where
  "to_be_bytes w = be_bytes (LENGTH('a) div 8) (unat w)"

definition from_be_bytes :: "u8 list \<Rightarrow> 'a::len word" where
  "from_be_bytes bs = of_nat (be_nat bs)"

lemma length_be_bytes [simp]: "length (be_bytes n x) = n"
  by (induction n x rule: be_bytes.induct) auto

lemma length_to_be_bytes [simp]: "length (to_be_bytes (w :: 'a::len word)) = LENGTH('a) div 8"
  by (simp add: to_be_bytes_def)

lemma be_nat_snoc: "be_nat (bs @ [b]) = 256 * be_nat bs + unat b"
  by (simp add: be_nat_def)

lemma unat_byte: "unat (of_nat (x mod 256) :: u8) = x mod 256"
  by (rule unat_of_nat_small) simp

lemma be_nat_be_bytes: "be_nat (be_bytes n x) = x mod 256 ^ n"
proof (induction n x rule: be_bytes.induct)
  case (2 n x)
  then show ?case by (simp add: be_nat_snoc unat_byte mod_mult2_eq [of x 256 "256 ^ n"])
qed (simp add: be_nat_def)

lemma be_nat_less: "be_nat bs < 256 ^ length bs"
proof (induction bs rule: rev_induct)
  case (snoc b bs)
  have "unat b < 256" using unat_bound [of b] by simp
  then show ?case using snoc by (simp add: be_nat_snoc)
qed (simp add: be_nat_def)

lemma be_bytes_be_nat: "be_bytes (length bs) (be_nat bs) = bs"
proof (induction bs rule: rev_induct)
  case (snoc b bs)
  have "unat b < 256" using unat_bound [of b] by simp
  then show ?case using snoc by (simp add: be_nat_snoc)
qed simp

lemma from_to_be_bytes [simp]:
  assumes "8 dvd LENGTH('a)"
  shows "from_be_bytes (to_be_bytes (w :: 'a::len word)) = w"
proof -
  obtain k where "LENGTH('a) = 8 * k" using assms by (rule dvdE)
  then have "(256::nat) ^ (LENGTH('a) div 8) = 2 ^ LENGTH('a)" by (simp add: power_mult)
  then show ?thesis by (simp add: from_be_bytes_def to_be_bytes_def be_nat_be_bytes)
qed

lemma to_from_be_bytes:
  assumes "LENGTH('a) = 8 * length bs"
  shows "to_be_bytes (from_be_bytes bs :: 'a::len word) = bs"
proof -
  have "be_nat bs < 2 ^ LENGTH('a)"
    using be_nat_less [of bs] assms by (simp add: power_mult)
  then show ?thesis using assms by (simp add: from_be_bytes_def to_be_bytes_def be_bytes_be_nat)
qed

lemma to_be_bytes_u8: "to_be_bytes (w :: u8) = [w]"
proof -
  have "unat w mod 256 = unat w" using unat_bound [of w] by simp
  then show ?thesis by (simp add: to_be_bytes_def)
qed

section \<open>Slices at an offset\<close>

definition reads :: "u8 list \<Rightarrow> nat \<Rightarrow> u8 list \<Rightarrow> bool" where
  "reads b off s \<longleftrightarrow> off + length s \<le> length b \<and> take (length s) (drop off b) = s"

lemma reads_append [wire]: "reads b off (s @ t) \<longleftrightarrow> reads b off s \<and> reads b (length s + off) t"
  by (auto simp: reads_def take_add add.commute [of off])

lemma reads_Nil: "reads b off [] \<longleftrightarrow> off \<le> length b"
  by (simp add: reads_def)

lemma reads_Cons [wire]: "reads b off (x # t) \<longleftrightarrow> reads b off [x] \<and> reads b (Suc off) t"
  using reads_append [of b off "[x]" t] by simp

lemma reads_bound: "reads b off s \<Longrightarrow> off + length s \<le> length b"
  by (simp add: reads_def)

lemma reads_in: "reads (pre @ s @ post) (length pre) s"
  by (simp add: reads_def)

lemma reads_same: "reads b off s \<Longrightarrow> reads b off t \<Longrightarrow> length s = length t \<Longrightarrow> s = t"
  by (auto simp: reads_def)

lemma reads_all: "reads b 0 s \<Longrightarrow> length b = length s \<Longrightarrow> b = s"
  by (simp add: reads_def)

section \<open>Sequences of items\<close>

text \<open>A \<^verbatim>\<open>for _ in 0..n\<close> loop that moves an offset, and one that also collects what it decodes.\<close>

fun walk_loop :: "(nat \<Rightarrow> (nat, 'e) result) \<Rightarrow> nat \<Rightarrow> nat \<Rightarrow> (nat, 'e) result" where
  "walk_loop step off 0 = Ok off"
| "walk_loop step off (Suc n) = and_then (step off) (\<lambda>off. walk_loop step off n)"

fun decode_loop :: "(nat \<Rightarrow> ('a \<times> nat, 'e) result) \<Rightarrow> nat \<Rightarrow> nat \<Rightarrow> ('a list \<times> nat, 'e) result" where
  "decode_loop step off 0 = Ok ([], off)"
| "decode_loop step off (Suc n) =
     and_then (step off) (\<lambda>(x, off).
     and_then (decode_loop step off n) (\<lambda>(xs, off). Ok (x # xs, off)))"

text \<open>
  An item format: \<open>decode\<close> succeeds exactly where the bytes of a well-formed item stand and returns the
  offset behind it, and \<open>skip\<close> steps over the item without decoding it.
\<close>

locale item_format =
  fixes ok :: "'a \<Rightarrow> bool" and bytes :: "'a \<Rightarrow> u8 list"
    and decode :: "u8 list \<Rightarrow> nat \<Rightarrow> ('a \<times> nat, 'e) result"
    and skip :: "u8 list \<Rightarrow> nat \<Rightarrow> (nat, 'f) result"
  assumes decode_Ok:
    "length b < USIZE_LIMIT \<Longrightarrow>
     decode b off = Ok (x, next) \<longleftrightarrow> ok x \<and> reads b off (bytes x) \<and> next = off + length (bytes x)"
  and skip_Ok:
    "length b < USIZE_LIMIT \<Longrightarrow> ok x \<Longrightarrow> reads b off (bytes x) \<Longrightarrow> skip b off = Ok (off + length (bytes x))"
begin

lemma decode_loop_Ok:
  assumes "length b < USIZE_LIMIT" and "off \<le> length b"
  shows "decode_loop (decode b) off n = Ok (xs, next) \<longleftrightarrow>
    length xs = n \<and> list_all ok xs \<and> reads b off (concat (map bytes xs)) \<and>
    next = off + length (concat (map bytes xs))"
  using assms(2)
proof (induction n arbitrary: off xs)
  case 0
  then show ?case by (auto simp: reads_Nil)
next
  case (Suc n)
  have "decode_loop (decode b) off (Suc n) = Ok (xs, next) \<longleftrightarrow>
      (\<exists>x ys. xs = x # ys \<and> ok x \<and> reads b off (bytes x) \<and>
        decode_loop (decode b) (off + length (bytes x)) n = Ok (ys, next))"
    by (auto simp: rust decode_Ok [OF assms(1)])
  also have "\<dots> \<longleftrightarrow> (\<exists>x ys. xs = x # ys \<and> ok x \<and> reads b off (bytes x) \<and>
      length ys = n \<and> list_all ok ys \<and> reads b (off + length (bytes x)) (concat (map bytes ys)) \<and>
      next = off + length (bytes x) + length (concat (map bytes ys)))"
    using Suc.IH reads_bound by blast
  also have "\<dots> \<longleftrightarrow> length xs = Suc n \<and> list_all ok xs \<and> reads b off (concat (map bytes xs)) \<and>
      next = off + length (concat (map bytes xs))"
    by (auto simp: length_Suc_conv reads_append add.commute [of off])
  finally show ?case .
qed

lemma skip_loop_Ok:
  assumes "length b < USIZE_LIMIT" and "list_all ok xs" and "reads b off (concat (map bytes xs))"
  shows "walk_loop (skip b) off (length xs) = Ok (off + length (concat (map bytes xs)))"
  using assms(2,3)
proof (induction xs arbitrary: off)
  case (Cons x xs)
  then have "skip b off = Ok (off + length (bytes x))" by (simp add: skip_Ok [OF assms(1)] reads_append)
  then show ?case using Cons by (simp add: reads_append add.commute [of off] add.assoc)
qed simp

end

text \<open>An encoder that appends the bytes of a well-formed item to a buffer, and fails on the others.\<close>

fun encode_each :: "(u8 list \<Rightarrow> 'a \<Rightarrow> (u8 list, 'e) result) \<Rightarrow> u8 list \<Rightarrow> 'a list \<Rightarrow> (u8 list, 'e) result" where
  "encode_each enc b [] = Ok b"
| "encode_each enc b (x # xs) = and_then (enc b x) (\<lambda>b. encode_each enc b xs)"

locale item_encoder =
  fixes ok :: "'a \<Rightarrow> bool" and bytes :: "'a \<Rightarrow> u8 list"
    and encode :: "u8 list \<Rightarrow> 'a \<Rightarrow> (u8 list, 'e) result"
  assumes encode_Ok: "encode b x = Ok b' \<longleftrightarrow> ok x \<and> b' = b @ bytes x"
begin

lemma encode_each_Ok: "encode_each encode b xs = Ok b' \<longleftrightarrow> list_all ok xs \<and> b' = b @ concat (map bytes xs)"
  by (induction xs arbitrary: b) (auto simp: rust encode_Ok)

end

end
