(* ===== verification/Wire.thy ===== *)
theory Wire
  imports Bytes Model_Types
begin

unbundle bit_operations_syntax

text \<open>
  The packed plan, \<^verbatim>\<open>crates/liq-wire/src/wire.rs\<close>, with \<^verbatim>\<open>ExecutorAdapter\<close> of
  \<^verbatim>\<open>crates/liq-protocol/src/plan.rs\<close>. A \<^verbatim>\<open>usize\<close> offset is a natural number whose additions are checked
  against 64 bits; \<^verbatim>\<open>try_into\<close> of a slice \<^verbatim>\<open>take\<close> just cut to length cannot fail and is left out.
\<close>

definition HEADER_LEN :: nat where
  "HEADER_LEN = 35"

definition GROUP_HEAD_LEN :: nat where
  "GROUP_HEAD_LEN = 59"

definition LIQ_LEG_LEN :: nat where
  "LIQ_LEG_LEN = 77"

definition SWAP_LEG_HEAD_LEN :: nat where
  "SWAP_LEG_HEAD_LEN = 60"

definition FLAG_SWEEP :: u8 where
  "FLAG_SWEEP = push_bit 0 1"

definition FLAG_GOV_EXEC :: u8 where
  "FLAG_GOV_EXEC = push_bit 1 1"

definition PAYLOAD_ID_LEN :: nat where
  "PAYLOAD_ID_LEN = 5"

definition PAYLOAD_ID_MAX :: u64 where
  "PAYLOAD_ID_MAX = push_bit 40 1 - 1"

definition FLAG_GOV_SPELL :: u8 where
  "FLAG_GOV_SPELL = push_bit 2 1"

definition SPELL_LEN :: nat where
  "SPELL_LEN = 20"

definition LEG_TAKE_BALANCE :: u8 where
  "LEG_TAKE_BALANCE = push_bit 0 1"

definition LEG_EXACT_OUT :: u8 where
  "LEG_EXACT_OUT = push_bit 1 1"

definition LEG_TIE_SHIFT :: nat where
  "LEG_TIE_SHIFT = 2"

definition LEG_TIE_MAX :: nat where
  "LEG_TIE_MAX = 63"

definition VENUE_UNIV3_POOL :: u8 where
  "VENUE_UNIV3_POOL = 0"

definition VENUE_ROUTER :: u8 where
  "VENUE_ROUTER = 1"

definition VENUE_UNIV2_POOL :: u8 where
  "VENUE_UNIV2_POOL = 2"

definition VENUE_CURVE_POOL :: u8 where
  "VENUE_CURVE_POOL = 3"

definition VENUE_CURVE_CRYPTO_POOL :: u8 where
  "VENUE_CURVE_CRYPTO_POOL = 4"

definition VENUE_UNWRAP_4626 :: u8 where
  "VENUE_UNWRAP_4626 = 5"

definition VENUE_PENDLE_PT_REDEEM :: u8 where
  "VENUE_PENDLE_PT_REDEEM = 6"

definition VENUE_CURVE_LP_ONE_COIN :: u8 where
  "VENUE_CURVE_LP_ONE_COIN = 7"

definition VENUE_PENDLE_MARKET_SELL :: u8 where
  "VENUE_PENDLE_MARKET_SELL = 8"

definition VENUE_UNIV4_POOL :: u8 where
  "VENUE_UNIV4_POOL = 9"

definition V4_KEY_LEN :: nat where
  "V4_KEY_LEN = 66"

definition VENUE_CHAIN :: u8 where
  "VENUE_CHAIN = 10"

definition VENUE_BALANCER :: u8 where
  "VENUE_BALANCER = 11"

definition BALANCER_POOL_ID_LEN :: nat where
  "BALANCER_POOL_ID_LEN = 32"

definition VENUE_FLUID :: u8 where
  "VENUE_FLUID = 12"

definition FLUID_LEG_LEN :: nat where
  "FLUID_LEG_LEN = 21"

definition CHAIN_HOP_V3 :: u8 where
  "CHAIN_HOP_V3 = 0"

definition CHAIN_HOP_V4 :: u8 where
  "CHAIN_HOP_V4 = 1"

definition CHAIN_HOP_V2 :: u8 where
  "CHAIN_HOP_V2 = 2"

definition CHAIN_HOP_CURVE :: u8 where
  "CHAIN_HOP_CURVE = 3"

definition CHAIN_HOP_CURVE_CRYPTO :: u8 where
  "CHAIN_HOP_CURVE_CRYPTO = 4"

definition CHAIN_HOP_V3_SUSHI :: u8 where
  "CHAIN_HOP_V3_SUSHI = 5"

definition CHAIN_HOP_V3_PANCAKE :: u8 where
  "CHAIN_HOP_V3_PANCAKE = 6"

definition CHAIN_HOP_BALANCER :: u8 where
  "CHAIN_HOP_BALANCER = 7"

definition CHAIN_HOP_FLUID :: u8 where
  "CHAIN_HOP_FLUID = 8"

definition CHAIN_CURVE_EXTRA :: nat where
  "CHAIN_CURVE_EXTRA = 23"

definition CHAIN_MAX_HOPS :: nat where
  "CHAIN_MAX_HOPS = 4"

definition V2_FACTORY_UNISWAP :: u8 where
  "V2_FACTORY_UNISWAP = 0"

definition V2_FACTORY_SUSHI :: u8 where
  "V2_FACTORY_SUSHI = 1"

definition V3_FACTORY_UNISWAP :: u8 where
  "V3_FACTORY_UNISWAP = 0"

definition V3_FACTORY_SUSHI :: u8 where
  "V3_FACTORY_SUSHI = 1"

definition V3_FACTORY_PANCAKE :: u8 where
  "V3_FACTORY_PANCAKE = 2"

definition FLUID_T1 :: u8 where
  "FLUID_T1 = 1"

definition FLUID_T2 :: u8 where
  "FLUID_T2 = 2"

definition FLUID_T3 :: u8 where
  "FLUID_T3 = 3"

definition FLUID_T4 :: u8 where
  "FLUID_T4 = 4"

definition FLUID_DEBT_TOKEN1 :: u8 where
  "FLUID_DEBT_TOKEN1 = push_bit 0 1"

definition FLUID_COL_TOKEN1 :: u8 where
  "FLUID_COL_TOKEN1 = push_bit 1 1"

definition FLUID_ABSORB :: u8 where
  "FLUID_ABSORB = push_bit 2 1"

definition FLUID_NATIVE_DEBT :: u8 where
  "FLUID_NATIVE_DEBT = push_bit 3 1"

definition FLUID_NATIVE_COL :: u8 where
  "FLUID_NATIVE_COL = push_bit 4 1"

definition FLUID_FLAGS :: u8 where
  "FLUID_FLAGS = FLUID_DEBT_TOKEN1 OR FLUID_COL_TOKEN1 OR FLUID_ABSORB OR FLUID_NATIVE_DEBT OR FLUID_NATIVE_COL"

lemmas wire_lengths [simp] =
  HEADER_LEN_def GROUP_HEAD_LEN_def LIQ_LEG_LEN_def SWAP_LEG_HEAD_LEN_def PAYLOAD_ID_LEN_def
  SPELL_LEN_def LEG_TIE_SHIFT_def LEG_TIE_MAX_def V4_KEY_LEN_def BALANCER_POOL_ID_LEN_def
  FLUID_LEG_LEN_def CHAIN_CURVE_EXTRA_def CHAIN_MAX_HOPS_def

lemmas wire_flags =
  FLAG_SWEEP_def FLAG_GOV_EXEC_def PAYLOAD_ID_MAX_def FLAG_GOV_SPELL_def LEG_TAKE_BALANCE_def
  LEG_EXACT_OUT_def FLUID_DEBT_TOKEN1_def FLUID_COL_TOKEN1_def FLUID_ABSORB_def
  FLUID_NATIVE_DEBT_def FLUID_NATIVE_COL_def FLUID_FLAGS_def

lemmas wire_venues =
  VENUE_UNIV3_POOL_def VENUE_ROUTER_def VENUE_UNIV2_POOL_def VENUE_CURVE_POOL_def
  VENUE_CURVE_CRYPTO_POOL_def VENUE_UNWRAP_4626_def VENUE_PENDLE_PT_REDEEM_def
  VENUE_CURVE_LP_ONE_COIN_def VENUE_PENDLE_MARKET_SELL_def VENUE_UNIV4_POOL_def VENUE_CHAIN_def
  VENUE_BALANCER_def VENUE_FLUID_def CHAIN_HOP_V3_def CHAIN_HOP_V4_def CHAIN_HOP_V2_def
  CHAIN_HOP_CURVE_def CHAIN_HOP_CURVE_CRYPTO_def CHAIN_HOP_V3_SUSHI_def CHAIN_HOP_V3_PANCAKE_def
  CHAIN_HOP_BALANCER_def CHAIN_HOP_FLUID_def V2_FACTORY_UNISWAP_def V2_FACTORY_SUSHI_def
  V3_FACTORY_UNISWAP_def V3_FACTORY_SUSHI_def V3_FACTORY_PANCAKE_def FLUID_T1_def FLUID_T2_def
  FLUID_T3_def FLUID_T4_def

text \<open>The liquidation leg a repay swap serves, in its flags.\<close>

definition leg_tie :: "u8 \<Rightarrow> nat option" where
  "leg_tie flags = usize_sub (unat (drop_bit LEG_TIE_SHIFT flags)) 1"

definition tie_flags :: "u8 \<Rightarrow> nat \<Rightarrow> u8 option" where
  "tie_flags flags leg =
     (if leg \<ge> LEG_TIE_MAX then None
      else
        let low = flags AND (push_bit LEG_TIE_SHIFT 1 - 1) in
        Option.bind (usize_add leg 1) (\<lambda>n.
        Option.bind (try_from_usize n) (\<lambda>tie.
        Some (low OR push_bit LEG_TIE_SHIFT tie))))"

datatype wire_error =
    Truncated nat nat
  | UnknownAdapter u8
  | UnknownProvider u8
  | W_NoGroups
  | BadPlanLength nat nat
  | W_Overflow
  | BadGearboxMode u8
  | TwoGovActions

section \<open>Adapters and providers\<close>

datatype executor_adapter =
    EA_AaveV3 | EA_AaveV4 | EA_MorphoBlue | EA_EulerV2 | EA_SiloV2 | EA_LiquityV2 | EA_Fluid
  | EA_Gearbox | EA_CompoundV2

primrec adapter_byte :: "executor_adapter \<Rightarrow> u8" where
  "adapter_byte EA_AaveV3 = 0"
| "adapter_byte EA_AaveV4 = 1"
| "adapter_byte EA_MorphoBlue = 2"
| "adapter_byte EA_EulerV2 = 3"
| "adapter_byte EA_SiloV2 = 4"
| "adapter_byte EA_LiquityV2 = 5"
| "adapter_byte EA_Fluid = 6"
| "adapter_byte EA_Gearbox = 7"
| "adapter_byte EA_CompoundV2 = 8"

definition adapter_from_wire :: "u8 \<Rightarrow> executor_adapter option" where
  "adapter_from_wire b =
     (if b = 0 then Some EA_AaveV3
      else if b = 1 then Some EA_AaveV4
      else if b = 2 then Some EA_MorphoBlue
      else if b = 3 then Some EA_EulerV2
      else if b = 4 then Some EA_SiloV2
      else if b = 5 then Some EA_LiquityV2
      else if b = 6 then Some EA_Fluid
      else if b = 7 then Some EA_Gearbox
      else if b = 8 then Some EA_CompoundV2
      else None)"

primrec adapter_tail_len :: "executor_adapter \<Rightarrow> nat" where
  "adapter_tail_len EA_AaveV3 = 0"
| "adapter_tail_len EA_AaveV4 = 4"
| "adapter_tail_len EA_MorphoBlue = 32"
| "adapter_tail_len EA_EulerV2 = 52"
| "adapter_tail_len EA_SiloV2 = 0"
| "adapter_tail_len EA_LiquityV2 = 32"
| "adapter_tail_len EA_Fluid = 98"
| "adapter_tail_len EA_Gearbox = 33"
| "adapter_tail_len EA_CompoundV2 = 21"

primrec provider_byte :: "flash_provider \<Rightarrow> u8" where
  "provider_byte FP_Aave = 0"
| "provider_byte FP_UniV3 = 1"
| "provider_byte FP_UniV4 = 2"
| "provider_byte FP_Morpho = 3"
| "provider_byte FP_SkyDss = 4"
| "provider_byte FP_None = 5"
| "provider_byte FP_UniV3Swap = 6"

definition provider_from_wire :: "u8 \<Rightarrow> flash_provider option" where
  "provider_from_wire b =
     (if b = 0 then Some FP_Aave
      else if b = 1 then Some FP_UniV3
      else if b = 2 then Some FP_UniV4
      else if b = 3 then Some FP_Morpho
      else if b = 4 then Some FP_SkyDss
      else if b = 5 then Some FP_None
      else if b = 6 then Some FP_UniV3Swap
      else None)"

section \<open>Records\<close>

record plan_header =
  ph_flags :: u8
  ph_bid_bps :: u16
  ph_gas_cost_wei :: u128
  ph_min_profit :: u128
  ph_group_count :: u8
  ph_profit_swap_offset :: nat
  ph_payload_id :: "u64 option"
  ph_spell :: "address option"

record group_head =
  gh_provider :: flash_provider
  gh_flash_source :: address
  gh_debt_asset :: address
  gh_flash_amount :: u128
  gh_liq_count :: u8
  gh_repay_swap_count :: u8
  gh_liq_offset :: nat
  gh_repay_swap_offset :: nat
  gh_next :: nat

datatype leg_tail =
    Tail_None
  | Tail_AaveV4 u16 u16
  | Tail_Morpho b256
  | Tail_Euler u256 address
  | Tail_Liquity u256
  | Tail_Fluid u8 u8 u256 u256 u256
  | Tail_Gearbox u256 bool
  | Tail_CompoundV2 address u8

record wire_liq_leg =
  wl_adapter :: executor_adapter
  wl_market :: address
  wl_borrower :: address
  wl_collateral_asset :: address
  wl_repay_amount :: u128
  wl_tail :: leg_tail

record wire_swap_leg =
  ws_venue :: u8
  ws_token_in :: address
  ws_token_out :: address
  ws_flags :: u8
  ws_amount :: u128
  ws_data :: "u8 list"

section \<open>Primitive reads\<close>

definition take_at :: "u8 list \<Rightarrow> nat \<Rightarrow> nat \<Rightarrow> (u8 list, wire_error) result" where
  "take_at b off n =
     and_then (ok_or (usize_add off n) W_Overflow) (\<lambda>fin.
     if fin \<le> length b then Ok (take n (drop off b)) else Err (Truncated fin (length b)))"

definition u8_at :: "u8 list \<Rightarrow> nat \<Rightarrow> (u8, wire_error) result" where
  "u8_at b off = ok_or (get b off) (Truncated (usize_saturating_add off 1) (length b))"

definition u16_at :: "u8 list \<Rightarrow> nat \<Rightarrow> (u16, wire_error) result" where
  "u16_at b off = map_ok from_be_bytes (take_at b off 2)"

definition u128_at :: "u8 list \<Rightarrow> nat \<Rightarrow> (u128, wire_error) result" where
  "u128_at b off = map_ok from_be_bytes (take_at b off 16)"

definition addr_at :: "u8 list \<Rightarrow> nat \<Rightarrow> (address, wire_error) result" where
  "addr_at b off = map_ok from_be_bytes (take_at b off 20)"

definition b256_at :: "u8 list \<Rightarrow> nat \<Rightarrow> (b256, wire_error) result" where
  "b256_at b off = map_ok from_be_bytes (take_at b off 32)"

definition u256_at :: "u8 list \<Rightarrow> nat \<Rightarrow> (u256, wire_error) result" where
  "u256_at b off = map_ok from_be_bytes (take_at b off 32)"

definition payload_id_at :: "u8 list \<Rightarrow> nat \<Rightarrow> (u64, wire_error) result" where
  "payload_id_at b off =
     map_ok (\<lambda>s. from_be_bytes (replicate (8 - PAYLOAD_ID_LEN) 0 @ s)) (take_at b off PAYLOAD_ID_LEN)"

definition add_off :: "nat \<Rightarrow> nat \<Rightarrow> (nat, wire_error) result" where
  "add_off a b = ok_or (usize_add a b) W_Overflow"

definition tail_len :: "u8 \<Rightarrow> (nat, wire_error) result" where
  "tail_len adapter = ok_or (map_option adapter_tail_len (adapter_from_wire adapter)) (UnknownAdapter adapter)"

section \<open>The decoder\<close>

definition skip_liq_leg :: "u8 list \<Rightarrow> nat \<Rightarrow> (nat, wire_error) result" where
  "skip_liq_leg b off =
     and_then (u8_at b off) (\<lambda>a.
     and_then (tail_len a) (\<lambda>t.
     and_then (add_off off LIQ_LEG_LEN) (\<lambda>p. add_off p t)))"

definition skip_liq_legs :: "u8 list \<Rightarrow> nat \<Rightarrow> u8 \<Rightarrow> (nat, wire_error) result" where
  "skip_liq_legs b off n =
     and_then (walk_loop (skip_liq_leg b) off (unat n)) (\<lambda>q.
     if q > length b then Err (BadPlanLength q (length b)) else Ok q)"

definition skip_swap_leg :: "u8 list \<Rightarrow> nat \<Rightarrow> (nat, wire_error) result" where
  "skip_swap_leg b off =
     and_then (add_off off 58) (\<lambda>l.
     and_then (u16_at b l) (\<lambda>data_len.
     and_then (add_off off SWAP_LEG_HEAD_LEN) (\<lambda>p. add_off p (unat data_len))))"

definition skip_swap_legs :: "u8 list \<Rightarrow> nat \<Rightarrow> u8 \<Rightarrow> (nat, wire_error) result" where
  "skip_swap_legs b off n =
     and_then (walk_loop (skip_swap_leg b) off (unat n)) (\<lambda>q.
     if q > length b then Err (BadPlanLength q (length b)) else Ok q)"

definition decode_group :: "u8 list \<Rightarrow> nat \<Rightarrow> (group_head, wire_error) result" where
  "decode_group b off =
     and_then (u8_at b off) (\<lambda>provider_byte.
     and_then (ok_or (provider_from_wire provider_byte) (UnknownProvider provider_byte)) (\<lambda>provider.
     and_then (add_off off 57) (\<lambda>o57. and_then (u8_at b o57) (\<lambda>liq_count.
     and_then (add_off off 58) (\<lambda>o58. and_then (u8_at b o58) (\<lambda>repay_swap_count.
     and_then (add_off off GROUP_HEAD_LEN) (\<lambda>liq_offset.
     and_then (skip_liq_legs b liq_offset liq_count) (\<lambda>repay_swap_offset.
     and_then (skip_swap_legs b repay_swap_offset repay_swap_count) (\<lambda>next.
     and_then (add_off off 1) (\<lambda>o1. and_then (addr_at b o1) (\<lambda>flash_source.
     and_then (add_off off 21) (\<lambda>o21. and_then (addr_at b o21) (\<lambda>debt_asset.
     and_then (add_off off 41) (\<lambda>o41. and_then (u128_at b o41) (\<lambda>flash_amount.
     Ok \<lparr>gh_provider = provider, gh_flash_source = flash_source, gh_debt_asset = debt_asset,
         gh_flash_amount = flash_amount, gh_liq_count = liq_count, gh_repay_swap_count = repay_swap_count,
         gh_liq_offset = liq_offset, gh_repay_swap_offset = repay_swap_offset, gh_next = next\<rparr>)))))))))))))))"

definition decode_tail :: "u8 list \<Rightarrow> executor_adapter \<Rightarrow> nat \<Rightarrow> (leg_tail, wire_error) result" where
  "decode_tail b adapter t =
     (case adapter of
        EA_AaveV3 \<Rightarrow> Ok Tail_None
      | EA_SiloV2 \<Rightarrow> Ok Tail_None
      | EA_AaveV4 \<Rightarrow>
          and_then (u16_at b t) (\<lambda>c.
          and_then (add_off t 2) (\<lambda>t2. and_then (u16_at b t2) (\<lambda>d. Ok (Tail_AaveV4 c d))))
      | EA_MorphoBlue \<Rightarrow> map_ok Tail_Morpho (b256_at b t)
      | EA_EulerV2 \<Rightarrow>
          and_then (u256_at b t) (\<lambda>m.
          and_then (add_off t 32) (\<lambda>t32. and_then (addr_at b t32) (\<lambda>v. Ok (Tail_Euler m v))))
      | EA_LiquityV2 \<Rightarrow> map_ok Tail_Liquity (u256_at b t)
      | EA_Fluid \<Rightarrow>
          and_then (u8_at b t) (\<lambda>kind.
          and_then (add_off t 1) (\<lambda>t1. and_then (u8_at b t1) (\<lambda>flags.
          and_then (add_off t 2) (\<lambda>t2. and_then (u256_at b t2) (\<lambda>cpd.
          and_then (add_off t 34) (\<lambda>t34. and_then (u256_at b t34) (\<lambda>dsm.
          and_then (add_off t 66) (\<lambda>t66. and_then (u256_at b t66) (\<lambda>csm.
          Ok (Tail_Fluid kind flags cpd dsm csm))))))))))
      | EA_Gearbox \<Rightarrow>
          and_then (u256_at b t) (\<lambda>m.
          and_then (add_off t 32) (\<lambda>t32. and_then (u8_at b t32) (\<lambda>mode.
          if mode = 0 then Ok (Tail_Gearbox m False)
          else if mode = 1 then Ok (Tail_Gearbox m True)
          else Err (BadGearboxMode mode))))
      | EA_CompoundV2 \<Rightarrow>
          and_then (addr_at b t) (\<lambda>c.
          and_then (add_off t 20) (\<lambda>t20. and_then (u8_at b t20) (\<lambda>e. Ok (Tail_CompoundV2 c e)))))"

definition decode_liq_leg :: "u8 list \<Rightarrow> nat \<Rightarrow> (wire_liq_leg \<times> nat, wire_error) result" where
  "decode_liq_leg b off =
     and_then (u8_at b off) (\<lambda>adapter_byte.
     and_then (ok_or (adapter_from_wire adapter_byte) (UnknownAdapter adapter_byte)) (\<lambda>adapter.
     and_then (add_off off LIQ_LEG_LEN) (\<lambda>tail_offset.
     and_then (decode_tail b adapter tail_offset) (\<lambda>tail.
     and_then (add_off tail_offset (adapter_tail_len adapter)) (\<lambda>next.
     and_then (add_off off 1) (\<lambda>o1. and_then (addr_at b o1) (\<lambda>market.
     and_then (add_off off 21) (\<lambda>o21. and_then (addr_at b o21) (\<lambda>borrower.
     and_then (add_off off 41) (\<lambda>o41. and_then (addr_at b o41) (\<lambda>collateral_asset.
     and_then (add_off off 61) (\<lambda>o61. and_then (u128_at b o61) (\<lambda>repay_amount.
     Ok (\<lparr>wl_adapter = adapter, wl_market = market, wl_borrower = borrower,
          wl_collateral_asset = collateral_asset, wl_repay_amount = repay_amount, wl_tail = tail\<rparr>, next))))))))))))))"

definition decode_swap_leg :: "u8 list \<Rightarrow> nat \<Rightarrow> (wire_swap_leg \<times> nat, wire_error) result" where
  "decode_swap_leg b off =
     and_then (add_off off 58) (\<lambda>o58. and_then (u16_at b o58) (\<lambda>len.
     and_then (add_off off SWAP_LEG_HEAD_LEN) (\<lambda>data_offset.
     and_then (take_at b data_offset (unat len)) (\<lambda>data.
     and_then (u8_at b off) (\<lambda>venue.
     and_then (add_off off 1) (\<lambda>o1. and_then (addr_at b o1) (\<lambda>token_in.
     and_then (add_off off 21) (\<lambda>o21. and_then (addr_at b o21) (\<lambda>token_out.
     and_then (add_off off 41) (\<lambda>o41. and_then (u8_at b o41) (\<lambda>flags.
     and_then (add_off off 42) (\<lambda>o42. and_then (u128_at b o42) (\<lambda>amount.
     and_then (add_off data_offset (unat len)) (\<lambda>next.
     Ok (\<lparr>ws_venue = venue, ws_token_in = token_in, ws_token_out = token_out, ws_flags = flags,
          ws_amount = amount, ws_data = data\<rparr>, next)))))))))))))))"

section \<open>Views\<close>

record wire_plan =
  wp_bytes :: "u8 list"
  wp_header :: plan_header

definition next_group :: "u8 list \<Rightarrow> nat \<Rightarrow> (nat, wire_error) result" where
  "next_group b off = map_ok gh_next (decode_group b off)"

definition parse_gov ::
  "u8 list \<Rightarrow> u8 \<Rightarrow> nat \<Rightarrow> (u64 option \<times> address option \<times> nat, wire_error) result" where
  "parse_gov b flags cur =
     (if flags AND FLAG_GOV_EXEC \<noteq> 0 then
        if flags AND FLAG_GOV_SPELL \<noteq> 0 then Err TwoGovActions
        else and_then (payload_id_at b cur) (\<lambda>i.
             and_then (add_off cur PAYLOAD_ID_LEN) (\<lambda>cur. Ok (Some i, None, cur)))
      else if flags AND FLAG_GOV_SPELL \<noteq> 0 then
        and_then (addr_at b cur) (\<lambda>a.
        and_then (add_off cur SPELL_LEN) (\<lambda>cur. Ok (None, Some a, cur)))
      else Ok (None, None, cur))"

definition plan_parse :: "u8 list \<Rightarrow> (wire_plan, wire_error) result" where
  "plan_parse b =
     and_then (u8_at b HEADER_LEN) (\<lambda>group_count.
     if group_count = 0 then Err W_NoGroups
     else
       and_then (add_off HEADER_LEN 1) (\<lambda>cur.
       and_then (walk_loop (next_group b) cur (unat group_count)) (\<lambda>profit_swap_offset.
       and_then (u8_at b profit_swap_offset) (\<lambda>profit_count.
       and_then (add_off profit_swap_offset 1) (\<lambda>p1.
       and_then (skip_swap_legs b p1 profit_count) (\<lambda>cur.
       and_then (u8_at b 0) (\<lambda>flags.
       and_then (parse_gov b flags cur) (\<lambda>(payload_id, spell, cur).
       if cur \<noteq> length b then Err (BadPlanLength cur (length b))
       else
         and_then (u16_at b 1) (\<lambda>bid_bps.
         and_then (u128_at b 3) (\<lambda>gas_cost_wei.
         and_then (u128_at b 19) (\<lambda>min_profit.
         Ok \<lparr>wp_bytes = b,
             wp_header = \<lparr>ph_flags = flags, ph_bid_bps = bid_bps, ph_gas_cost_wei = gas_cost_wei,
               ph_min_profit = min_profit, ph_group_count = group_count,
               ph_profit_swap_offset = profit_swap_offset, ph_payload_id = payload_id,
               ph_spell = spell\<rparr>\<rparr>)))))))))))"

record wire_group =
  wg_bytes :: "u8 list"
  wg_head :: group_head

definition plan_group :: "wire_plan \<Rightarrow> u8 \<Rightarrow> (wire_group, wire_error) result" where
  "plan_group p g =
     (if g \<ge> ph_group_count (wp_header p) then Err W_NoGroups
      else
        and_then (add_off HEADER_LEN 1) (\<lambda>off.
        and_then (walk_loop (next_group (wp_bytes p)) off (unat g)) (\<lambda>off.
        map_ok (\<lambda>h. \<lparr>wg_bytes = wp_bytes p, wg_head = h\<rparr>) (decode_group (wp_bytes p) off))))"

text \<open>\<^verbatim>\<open>Groups\<close>, \<^verbatim>\<open>LiqLegs\<close> and \<^verbatim>\<open>SwapLegs\<close> are one walk over different decoders.\<close>

record walk =
  wk_bytes :: "u8 list"
  wk_o :: nat
  wk_remaining :: u8

definition walk_next ::
  "(u8 list \<Rightarrow> nat \<Rightarrow> ('a \<times> nat, wire_error) result) \<Rightarrow> walk \<Rightarrow>
   ('a, wire_error) result option \<times> walk" where
  "walk_next decode it =
     (if wk_remaining it = 0 then (None, it)
      else
        let it = it\<lparr>wk_remaining := saturating_sub (wk_remaining it) 1\<rparr> in
        case decode (wk_bytes it) (wk_o it) of
          Ok (x, next) \<Rightarrow> (Some (Ok x), it\<lparr>wk_o := next\<rparr>)
        | Err e \<Rightarrow> (Some (Err e), it\<lparr>wk_remaining := 0\<rparr>))"

definition groups_next :: "walk \<Rightarrow> (wire_group, wire_error) result option \<times> walk" where
  "groups_next =
     walk_next (\<lambda>b off. map_ok (\<lambda>h. (\<lparr>wg_bytes = b, wg_head = h\<rparr>, gh_next h)) (decode_group b off))"

definition liq_legs_next :: "walk \<Rightarrow> (wire_liq_leg, wire_error) result option \<times> walk" where
  "liq_legs_next = walk_next decode_liq_leg"

definition swap_legs_next :: "walk \<Rightarrow> (wire_swap_leg, wire_error) result option \<times> walk" where
  "swap_legs_next = walk_next decode_swap_leg"

definition plan_groups :: "wire_plan \<Rightarrow> walk" where
  "plan_groups p =
     \<lparr>wk_bytes = wp_bytes p, wk_o = HEADER_LEN + 1, wk_remaining = ph_group_count (wp_header p)\<rparr>"

definition plan_profit_swaps :: "wire_plan \<Rightarrow> (walk, wire_error) result" where
  "plan_profit_swaps p =
     (let off = ph_profit_swap_offset (wp_header p) in
      and_then (add_off off 1) (\<lambda>o1.
      map_ok (\<lambda>n. \<lparr>wk_bytes = wp_bytes p, wk_o = o1, wk_remaining = n\<rparr>) (u8_at (wp_bytes p) off)))"

definition group_liq_legs :: "wire_group \<Rightarrow> walk" where
  "group_liq_legs g =
     \<lparr>wk_bytes = wg_bytes g, wk_o = gh_liq_offset (wg_head g), wk_remaining = gh_liq_count (wg_head g)\<rparr>"

definition group_repay_swaps :: "wire_group \<Rightarrow> walk" where
  "group_repay_swaps g =
     \<lparr>wk_bytes = wg_bytes g, wk_o = gh_repay_swap_offset (wg_head g),
      wk_remaining = gh_repay_swap_count (wg_head g)\<rparr>"

section \<open>Reads as facts about the bytes\<close>

lemma adapter_from_wire_Some [wire]: "adapter_from_wire v = Some a \<longleftrightarrow> v = adapter_byte a"
  by (cases a) (auto simp: adapter_from_wire_def split: if_splits)

lemma provider_from_wire_Some [wire]: "provider_from_wire v = Some p \<longleftrightarrow> v = provider_byte p"
  by (cases p) (auto simp: provider_from_wire_def split: if_splits)

lemma add_off_Ok [wire]: "add_off a b = Ok c \<longleftrightarrow> c = b + a \<and> b + a < USIZE_LIMIT"
  by (simp add: add_off_def rust checked add.commute)

lemma take_at_Ok: "take_at b off n = Ok s \<longleftrightarrow> length s = n \<and> reads b off s \<and> off + n < USIZE_LIMIT"
  by (auto simp: take_at_def reads_def rust checked split: if_splits)

lemma u8_at_Ok [wire]: "u8_at b off = Ok v \<longleftrightarrow> reads b off (to_be_bytes v)"
  by (auto simp: u8_at_def reads_def to_be_bytes_u8 rust take_Suc_conv_app_nth Suc_le_eq hd_drop_conv_nth
      take_Suc)

lemma from_be_bytes_taken:
  assumes "8 * n = LENGTH('a::len)"
  shows "map_ok from_be_bytes (take_at b off n) = Ok (v :: 'a word) \<longleftrightarrow>
    reads b off (to_be_bytes v) \<and> off + n < USIZE_LIMIT"
proof -
  have "8 dvd LENGTH('a)" using assms by (metis dvd_triv_left)
  then show ?thesis
    using assms by (auto simp: rust take_at_Ok to_from_be_bytes intro!: exI [of _ "to_be_bytes v"])
qed

lemma word_at_Ok [wire]:
  "u16_at b off = Ok v2 \<longleftrightarrow> reads b off (to_be_bytes v2) \<and> off + 2 < USIZE_LIMIT"
  "u128_at b off = Ok v16 \<longleftrightarrow> reads b off (to_be_bytes v16) \<and> off + 16 < USIZE_LIMIT"
  "addr_at b off = Ok v20 \<longleftrightarrow> reads b off (to_be_bytes v20) \<and> off + 20 < USIZE_LIMIT"
  "b256_at b off = Ok v32 \<longleftrightarrow> reads b off (to_be_bytes v32) \<and> off + 32 < USIZE_LIMIT"
  "u256_at b off = Ok v32 \<longleftrightarrow> reads b off (to_be_bytes v32) \<and> off + 32 < USIZE_LIMIT"
  by (simp_all add: u16_at_def u128_at_def addr_at_def b256_at_def u256_at_def from_be_bytes_taken)

lemma tail_len_Ok [wire]: "tail_len v = Ok t \<longleftrightarrow> (\<exists>a. v = adapter_byte a \<and> t = adapter_tail_len a)"
  by (auto simp: tail_len_def rust wire)

section \<open>The bytes of a leg\<close>

text \<open>
  The layout of each item as a list of bytes. A decoder succeeds exactly where these bytes stand, and
  returns the offset behind them.
\<close>

primrec tail_bytes :: "leg_tail \<Rightarrow> u8 list" where
  "tail_bytes Tail_None = []"
| "tail_bytes (Tail_AaveV4 c d) = to_be_bytes c @ to_be_bytes d"
| "tail_bytes (Tail_Morpho i) = to_be_bytes i"
| "tail_bytes (Tail_Euler m v) = to_be_bytes m @ to_be_bytes v"
| "tail_bytes (Tail_Liquity i) = to_be_bytes i"
| "tail_bytes (Tail_Fluid k f a d c) =
     to_be_bytes k @ to_be_bytes f @ to_be_bytes a @ to_be_bytes d @ to_be_bytes c"
| "tail_bytes (Tail_Gearbox m f) = to_be_bytes m @ to_be_bytes (if f then 1 else 0 :: u8)"
| "tail_bytes (Tail_CompoundV2 c e) = to_be_bytes c @ to_be_bytes e"

definition tail_shape :: "executor_adapter \<Rightarrow> leg_tail \<Rightarrow> bool" where
  "tail_shape a tail =
     (case tail of
        Tail_None \<Rightarrow> a = EA_AaveV3 \<or> a = EA_SiloV2
      | Tail_AaveV4 _ _ \<Rightarrow> a = EA_AaveV4
      | Tail_Morpho _ \<Rightarrow> a = EA_MorphoBlue
      | Tail_Euler _ _ \<Rightarrow> a = EA_EulerV2
      | Tail_Liquity _ \<Rightarrow> a = EA_LiquityV2
      | Tail_Fluid _ _ _ _ _ \<Rightarrow> a = EA_Fluid
      | Tail_Gearbox _ _ \<Rightarrow> a = EA_Gearbox
      | Tail_CompoundV2 _ _ \<Rightarrow> a = EA_CompoundV2)"

lemmas tail_shape_simps [simp] = tail_shape_def [where tail = Tail_None, simplified]
  tail_shape_def [where tail = "Tail_AaveV4 c d" for c d, simplified]
  tail_shape_def [where tail = "Tail_Morpho i" for i, simplified]
  tail_shape_def [where tail = "Tail_Euler m v" for m v, simplified]
  tail_shape_def [where tail = "Tail_Liquity i" for i, simplified]
  tail_shape_def [where tail = "Tail_Fluid k f x y z" for k f x y z, simplified]
  tail_shape_def [where tail = "Tail_Gearbox m f" for m f, simplified]
  tail_shape_def [where tail = "Tail_CompoundV2 c e" for c e, simplified]

lemma length_tail_bytes: "tail_shape a tail \<Longrightarrow> length (tail_bytes tail) = adapter_tail_len a"
  by (cases tail) auto

definition liq_bytes :: "wire_liq_leg \<Rightarrow> u8 list" where
  "liq_bytes l =
     to_be_bytes (adapter_byte (wl_adapter l)) @ to_be_bytes (wl_market l) @ to_be_bytes (wl_borrower l) @
     to_be_bytes (wl_collateral_asset l) @ to_be_bytes (wl_repay_amount l) @ tail_bytes (wl_tail l)"

definition swap_bytes :: "wire_swap_leg \<Rightarrow> u8 list" where
  "swap_bytes s =
     to_be_bytes (ws_venue s) @ to_be_bytes (ws_token_in s) @ to_be_bytes (ws_token_out s) @
     to_be_bytes (ws_flags s) @ to_be_bytes (ws_amount s) @ to_be_bytes (of_nat (length (ws_data s)) :: u16) @
     ws_data s"

lemma gearbox_mode_Ok:
  "(if v = 0 then Ok (Tail_Gearbox m False) else if v = 1 then Ok (Tail_Gearbox m True) else Err e) = Ok tail \<longleftrightarrow>
    (\<exists>f. tail = Tail_Gearbox m f \<and> v = (if f then 1 else 0 :: u8))"
  by auto

lemma tail_shape_None: "tail_shape a Tail_None \<Longrightarrow> adapter_tail_len a = 0"
  by auto

lemma decode_tail_Ok:
  assumes "length b < USIZE_LIMIT"
  shows "decode_tail b a t = Ok tail \<longleftrightarrow> tail_shape a tail \<and> (tail = Tail_None \<or> reads b t (tail_bytes tail))"
proof
  show "tail_shape a tail \<and> (tail = Tail_None \<or> reads b t (tail_bytes tail))" if "decode_tail b a t = Ok tail"
    using that by (cases a) (auto simp: decode_tail_def rust wire gearbox_mode_Ok)
  assume *: "tail_shape a tail \<and> (tail = Tail_None \<or> reads b t (tail_bytes tail))"
  then have "tail = Tail_None \<or> t + adapter_tail_len a < USIZE_LIMIT"
    using assms reads_bound [of b t "tail_bytes tail"] by (auto simp: length_tail_bytes)
  then show "decode_tail b a t = Ok tail"
    using * by (cases tail) (auto simp: decode_tail_def rust wire gearbox_mode_Ok)
qed

lemma decode_liq_leg_Ok:
  assumes "length b < USIZE_LIMIT"
  shows "decode_liq_leg b off = Ok (l, nx) \<longleftrightarrow>
    reads b off (liq_bytes l) \<and> tail_shape (wl_adapter l) (wl_tail l) \<and> nx = off + length (liq_bytes l)"
proof
  show "reads b off (liq_bytes l) \<and> tail_shape (wl_adapter l) (wl_tail l) \<and> nx = off + length (liq_bytes l)"
    if "decode_liq_leg b off = Ok (l, nx)"
    using that
    by (auto simp: decode_liq_leg_def rust wire decode_tail_Ok [OF assms] liq_bytes_def length_tail_bytes
        tail_shape_None reads_Nil dest: reads_bound)
  assume *: "reads b off (liq_bytes l) \<and> tail_shape (wl_adapter l) (wl_tail l) \<and> nx = off + length (liq_bytes l)"
  then have "off + 77 + adapter_tail_len (wl_adapter l) < USIZE_LIMIT"
    using assms reads_bound [of b off "liq_bytes l"] by (auto simp: liq_bytes_def length_tail_bytes)
  then show "decode_liq_leg b off = Ok (l, nx)"
    using * by (cases l) (auto simp: decode_liq_leg_def rust wire decode_tail_Ok [OF assms] liq_bytes_def length_tail_bytes)
qed

lemma decode_swap_leg_Ok:
  assumes "length b < USIZE_LIMIT"
  shows "decode_swap_leg b off = Ok (s, nx) \<longleftrightarrow>
    reads b off (swap_bytes s) \<and> length (ws_data s) < 2 ^ 16 \<and> nx = off + length (swap_bytes s)"
proof
  show "reads b off (swap_bytes s) \<and> length (ws_data s) < 2 ^ 16 \<and> nx = off + length (swap_bytes s)"
    if "decode_swap_leg b off = Ok (s, nx)"
    using that
    by (auto simp: decode_swap_leg_def rust wire take_at_Ok swap_bytes_def
        unat_bound [where 'a = 16, simplified])
  assume *: "reads b off (swap_bytes s) \<and> length (ws_data s) < 2 ^ 16 \<and> nx = off + length (swap_bytes s)"
  then have "off + 60 + length (ws_data s) < USIZE_LIMIT"
    using assms reads_bound [of b off "swap_bytes s"] by (auto simp: swap_bytes_def)
  then show "decode_swap_leg b off = Ok (s, nx)"
    using * by (cases s) (auto simp: decode_swap_leg_def rust wire take_at_Ok swap_bytes_def)
qed

interpretation liq_fmt: item_format
  "\<lambda>l. tail_shape (wl_adapter l) (wl_tail l)" liq_bytes decode_liq_leg skip_liq_leg
proof unfold_locales
  fix b :: "u8 list" and off and l :: wire_liq_leg and nx
  assume b: "length b < USIZE_LIMIT"
  show "decode_liq_leg b off = Ok (l, nx) \<longleftrightarrow>
      tail_shape (wl_adapter l) (wl_tail l) \<and> reads b off (liq_bytes l) \<and> nx = off + length (liq_bytes l)"
    by (auto simp: decode_liq_leg_Ok [OF b])
  assume shape: "tail_shape (wl_adapter l) (wl_tail l)" and r: "reads b off (liq_bytes l)"
  have "off + 77 + adapter_tail_len (wl_adapter l) < USIZE_LIMIT"
    using b reads_bound [OF r] shape by (auto simp: liq_bytes_def length_tail_bytes)
  then show "skip_liq_leg b off = Ok (off + length (liq_bytes l))"
    using r shape by (auto simp: skip_liq_leg_def rust wire liq_bytes_def length_tail_bytes)
qed

interpretation swap_fmt: item_format
  "\<lambda>s. length (ws_data s) < 2 ^ 16" swap_bytes decode_swap_leg skip_swap_leg
proof unfold_locales
  fix b :: "u8 list" and off and s :: wire_swap_leg and nx
  assume b: "length b < USIZE_LIMIT"
  show "decode_swap_leg b off = Ok (s, nx) \<longleftrightarrow>
      length (ws_data s) < 2 ^ 16 \<and> reads b off (swap_bytes s) \<and> nx = off + length (swap_bytes s)"
    by (auto simp: decode_swap_leg_Ok [OF b])
  assume len: "length (ws_data s) < 2 ^ 16" and r: "reads b off (swap_bytes s)"
  have "off + 60 + length (ws_data s) < USIZE_LIMIT"
    using b reads_bound [OF r] by (auto simp: swap_bytes_def)
  then show "skip_swap_leg b off = Ok (off + length (swap_bytes s))"
    using r len by (auto simp: skip_swap_leg_def rust wire swap_bytes_def)
qed

section \<open>Groups\<close>

definition head_bytes :: "group_head \<Rightarrow> u8 list" where
  "head_bytes h =
     to_be_bytes (provider_byte (gh_provider h)) @ to_be_bytes (gh_flash_source h) @
     to_be_bytes (gh_debt_asset h) @ to_be_bytes (gh_flash_amount h) @ to_be_bytes (gh_liq_count h) @
     to_be_bytes (gh_repay_swap_count h)"

lemma length_head_bytes [simp]: "length (head_bytes h) = 59"
  by (simp add: head_bytes_def)

lemma decode_group_Ok:
  assumes "length b < USIZE_LIMIT"
  shows "decode_group b off = Ok h \<longleftrightarrow>
    reads b off (head_bytes h) \<and> gh_liq_offset h = 59 + off \<and>
    skip_liq_legs b (59 + off) (gh_liq_count h) = Ok (gh_repay_swap_offset h) \<and>
    skip_swap_legs b (gh_repay_swap_offset h) (gh_repay_swap_count h) = Ok (gh_next h)"
    (is "_ \<longleftrightarrow> ?fields")
proof
  show ?fields if "decode_group b off = Ok h"
    using that by (auto simp: decode_group_def rust wire head_bytes_def)
  assume *: ?fields
  then have "off + 59 < USIZE_LIMIT" using assms reads_bound [of b off "head_bytes h"] by auto
  then show "decode_group b off = Ok h"
    using * by (cases h) (auto simp: decode_group_def rust wire head_bytes_def)
qed

lemma skip_liq_legs_Ok:
  assumes "length b < USIZE_LIMIT" and "list_all (\<lambda>l. tail_shape (wl_adapter l) (wl_tail l)) ls"
    and "reads b off (concat (map liq_bytes ls))" and "unat n = length ls"
  shows "skip_liq_legs b off n = Ok (off + length (concat (map liq_bytes ls)))"
  using liq_fmt.skip_loop_Ok [OF assms(1-3)] reads_bound [OF assms(3)] assms(4)
  by (simp add: skip_liq_legs_def)

lemma skip_swap_legs_Ok:
  assumes "length b < USIZE_LIMIT" and "list_all (\<lambda>s. length (ws_data s) < 2 ^ 16) ss"
    and "reads b off (concat (map swap_bytes ss))" and "unat n = length ss"
  shows "skip_swap_legs b off n = Ok (off + length (concat (map swap_bytes ss)))"
  using swap_fmt.skip_loop_Ok [OF assms(1-3)] reads_bound [OF assms(3)] assms(4)
  by (simp add: skip_swap_legs_def)

section \<open>What parsing leaves open\<close>

text \<open>
  \<open>plan_parse\<close> steps over liquidation legs by their adapter byte alone. A plan whose Gearbox leg carries the
  mode byte 2 parses, and the iterator over its legs then fails.
\<close>

definition bad_mode_plan :: "u8 list" where
  "bad_mode_plan =
     replicate 35 0 @ [1] @ [3] @ replicate 56 0 @ [1, 0] @ [7] @ replicate 76 0 @ replicate 32 0 @ [2] @ [0]"

lemma bad_mode_at:
  "length bad_mode_plan = 206" "bad_mode_plan ! 0 = 0" "bad_mode_plan ! 35 = 1" "bad_mode_plan ! 36 = 3"
  "bad_mode_plan ! 93 = 1" "bad_mode_plan ! 94 = 0" "bad_mode_plan ! 95 = 7" "bad_mode_plan ! 204 = 2"
  "bad_mode_plan ! 205 = 0"
  by (simp_all add: bad_mode_plan_def nth_append)

lemmas eval_reads = u8_at_def u16_at_def u128_at_def addr_at_def u256_at_def take_at_def get_def usize_add_def
  USIZE_LIMIT_def add_off_def

lemma bad_mode_group:
  "\<exists>h. decode_group bad_mode_plan 36 = Ok h \<and> gh_next h = 205 \<and> gh_liq_offset h = 95 \<and> gh_liq_count h = 1"
  by (simp add: decode_group_def eval_reads bad_mode_at provider_from_wire_def skip_liq_legs_def skip_liq_leg_def
      tail_len_def adapter_from_wire_def skip_swap_legs_def)

lemma bad_mode_leg: "decode_liq_leg bad_mode_plan 95 = Err (BadGearboxMode 2)"
  by (simp add: decode_liq_leg_def eval_reads bad_mode_at adapter_from_wire_def decode_tail_def)

theorem parse_leaves_gearbox_mode:
  "\<exists>pl g. plan_parse bad_mode_plan = Ok pl \<and> plan_group pl 0 = Ok g \<and>
     fst (liq_legs_next (group_liq_legs g)) = Some (Err (BadGearboxMode 2))"
proof -
  obtain h where h: "decode_group bad_mode_plan 36 = Ok h" "gh_next h = 205" "gh_liq_offset h = 95" "gh_liq_count h = 1"
    using bad_mode_group by blast
  then have "\<exists>pl. plan_parse bad_mode_plan = Ok pl \<and> wp_bytes pl = bad_mode_plan \<and> ph_group_count (wp_header pl) = 1"
    by (simp add: plan_parse_def eval_reads bad_mode_at next_group_def skip_swap_legs_def parse_gov_def)
  then obtain pl where "plan_parse bad_mode_plan = Ok pl" and "wp_bytes pl = bad_mode_plan" "ph_group_count (wp_header pl) = 1"
    by blast
  moreover from this(2,3) have "plan_group pl 0 = Ok \<lparr>wg_bytes = bad_mode_plan, wg_head = h\<rparr>"
    by (simp add: plan_group_def eval_reads h)
  moreover have "fst (liq_legs_next (group_liq_legs \<lparr>wg_bytes = bad_mode_plan, wg_head = h\<rparr>)) = Some (Err (BadGearboxMode 2))"
    by (simp add: liq_legs_next_def walk_next_def group_liq_legs_def h bad_mode_leg)
  ultimately show ?thesis by blast
qed

end
