(* ===== verification/Plan_Types.thy ===== *)
theory Plan_Types
  imports Wire
begin

unbundle bit_operations_syntax

text \<open>
  The values of the plan encoder, \<^verbatim>\<open>crates/liq-plan/src/types.rs\<close> and \<^verbatim>\<open>error.rs\<close>: batches, groups and
  legs, the registry pins that validation consults, and the errors. The constants \<^verbatim>\<open>types.rs\<close> re-exports
  are those of \<open>Wire\<close>; an \<^verbatim>\<open>EncodedPlan\<close> is its bytes.
\<close>

definition is_unwrap_venue :: "u8 \<Rightarrow> bool" where
  "is_unwrap_venue v \<longleftrightarrow>
     v = VENUE_UNWRAP_4626 \<or> v = VENUE_PENDLE_PT_REDEEM \<or> v = VENUE_CURVE_LP_ONE_COIN \<or>
     v = VENUE_PENDLE_MARKET_SELL"

record liq_leg =
  ll_adapter :: executor_adapter
  ll_market :: address
  ll_borrower :: address
  ll_collateral_asset :: address
  ll_repay_amount :: u128
  ll_tail :: leg_tail
  ll_protocol_pull :: u128

record swap_leg =
  sl_venue :: u8
  sl_token_in :: address
  sl_token_out :: address
  sl_flags :: u8
  sl_amount :: u128
  sl_data :: "u8 list"

record flash_group =
  fg_provider :: flash_provider
  fg_flash_source :: address
  fg_debt_asset :: address
  fg_flash_amount :: u128
  fg_fee_bps :: u16
  fg_liqs :: "liq_leg list"
  fg_repay_swaps :: "swap_leg list"

record batch_plan =
  bp_flags :: u8
  bp_bid_bps :: u16
  bp_gas_cost_wei :: u128
  bp_min_profit_wei :: u128
  bp_groups :: "flash_group list"
  bp_profit_swaps :: "swap_leg list"

record v4_reserve_pin =
  vp_spoke :: address
  vp_reserve_id :: u16
  vp_underlying :: address

record morpho_market_pin =
  mp_id :: b256
  mp_morpho :: address
  mp_loan_token :: address
  mp_collateral_token :: address
  mp_oracle :: address
  mp_irm :: address
  mp_lltv :: u256

record compound_market_pin =
  cp_debt_ctoken :: address
  cp_ctoken_collateral :: address
  cp_is_cether :: u8

record liquity_trove_pin =
  lp_trove_manager :: address
  lp_trove_id :: u256
  lp_borrower :: address

record validate_ctx =
  vc_weth :: address
  vc_v4_underlying :: "v4_reserve_pin list"
  vc_morpho :: "morpho_market_pin list"
  vc_compound :: "compound_market_pin list"
  vc_liquity :: "liquity_trove_pin list"

definition v4_pin :: "validate_ctx \<Rightarrow> address \<Rightarrow> u16 \<Rightarrow> address option" where
  "v4_pin ctx spoke i =
     map_option vp_underlying (find (\<lambda>p. vp_spoke p = spoke \<and> vp_reserve_id p = i) (vc_v4_underlying ctx))"

definition morpho_pin :: "validate_ctx \<Rightarrow> b256 \<Rightarrow> morpho_market_pin option" where
  "morpho_pin ctx i = find (\<lambda>p. mp_id p = i) (vc_morpho ctx)"

definition compound_pin :: "validate_ctx \<Rightarrow> address \<Rightarrow> address \<Rightarrow> compound_market_pin option" where
  "compound_pin ctx debt_ctoken ctoken_collateral =
     find (\<lambda>p. cp_debt_ctoken p = debt_ctoken \<and> cp_ctoken_collateral p = ctoken_collateral) (vc_compound ctx)"

definition liquity_pin :: "validate_ctx \<Rightarrow> u256 \<Rightarrow> liquity_trove_pin option" where
  "liquity_pin ctx trove_id = find (\<lambda>p. lp_trove_id p = trove_id) (vc_liquity ctx)"

definition add_v4 :: "validate_ctx \<Rightarrow> v4_reserve_pin \<Rightarrow> bool \<times> validate_ctx" where
  "add_v4 ctx pin =
     (if v4_pin ctx (vp_spoke pin) (vp_reserve_id pin) \<noteq> None then (False, ctx)
      else (True, ctx\<lparr>vc_v4_underlying := vc_v4_underlying ctx @ [pin]\<rparr>))"

definition add_morpho :: "validate_ctx \<Rightarrow> morpho_market_pin \<Rightarrow> bool \<times> validate_ctx" where
  "add_morpho ctx pin =
     (if morpho_pin ctx (mp_id pin) \<noteq> None then (False, ctx)
      else (True, ctx\<lparr>vc_morpho := vc_morpho ctx @ [pin]\<rparr>))"

definition add_compound :: "validate_ctx \<Rightarrow> compound_market_pin \<Rightarrow> bool \<times> validate_ctx" where
  "add_compound ctx pin =
     (if compound_pin ctx (cp_debt_ctoken pin) (cp_ctoken_collateral pin) \<noteq> None then (False, ctx)
      else (True, ctx\<lparr>vc_compound := vc_compound ctx @ [pin]\<rparr>))"

definition add_liquity :: "validate_ctx \<Rightarrow> liquity_trove_pin \<Rightarrow> bool \<times> validate_ctx" where
  "add_liquity ctx pin =
     (if liquity_pin ctx (lp_trove_id pin) \<noteq> None then (False, ctx)
      else (True, ctx\<lparr>vc_liquity := vc_liquity ctx @ [pin]\<rparr>))"

text \<open>
  \<^verbatim>\<open>EncodeError\<close>, its variants grouped by what they speak of: the tail of a liquidation leg, a swap leg, a
  flash group, or the batch. \<open>TailShape a\<close> is the \<^verbatim>\<open>TailShape\<close> variant of adapter \<open>a\<close>.
\<close>

datatype leg_error =
    TailShape executor_adapter
  | V4ReserveUnpinned address u16
  | V4ReserveMismatch address u16 address address
  | MorphoIdUnknown b256
  | MorphoTokenMismatch b256 address address address address
  | MorphoIdHashMismatch b256
  | EulerZeroVault
  | LiquityZeroTrove
  | FluidZeroColPer
  | FluidBadKind u8
  | FluidBadFlags u8
  | FluidPerShare u8
  | FluidColPerConvert
  | GearboxZeroMinSeized
  | CompoundZeroCToken
  | CompoundBadFlag
  | CompoundUnpinned address address
  | CompoundMarketMismatch address address
  | CompoundCTokenMismatch address address
  | CompoundCEtherMismatch u8 u8
  | LiquityUnpinned u256
  | LiquityMarketMismatch address address
  | LiquityTroveMismatch u256 u256
  | LiquityBorrowerMismatch address address

datatype swap_error =
    BadChain string
  | DataTooLong nat
  | UnknownVenue u8
  | BadPoolDataLen nat
  | BadRouterDataLen nat
  | BadV2DataLen nat
  | BadV2Factory u8
  | BadBalancerData nat
  | BadFluidData nat
  | BadV3Factory u8
  | BadCurveDataLen nat
  | CurveExactOut
  | BadUnwrapData nat
  | UnwrapExactOut

datatype group_error =
    NoLegs
  | SpentAfterTakeBalance address
  | RepayTargetMismatch address
  | RewardGroupBorrows
  | RewardGroupRepays
  | RewardGroupPulls u128
  | FlashSwapLegs nat
  | FlashSwapRepaysDebt address
  | FlashSwapLegOnLender address
  | UnwrapNotFirst
  | UnwrapOutputUnclosed address
  | ZeroPull u128
  | UnderSeizure nat u128 u128
  | RepayNotSizedToPull nat u128 u128
  | PremiumUncovered nat
  | ExactOutNotDebt address address
  | TieOutOfRange nat nat
  | UntiedRepay address nat
  | TiedTakeBalance address
  | TooManyTiedLegs nat nat
  | FlashShort u128 u128
  | UnpriceableFee flash_provider u16
  | PremiumOverflow
  | SurplusDebtUnrouted address u128 u128

datatype encode_error =
    LegError leg_error
  | SwapError swap_error
  | GroupError group_error
  | NoGroups
  | TooManyGroups
  | TooManyLegs
  | BadCollateralClosure address nat nat
  | ProfitTargetNotWeth address
  | TiedProfitLeg address
  | TooManySourcesForDebt address nat
  | DuplicateSourceForDebt address flash_provider
  | ZeroAddress string
  | ZeroMinProfit
  | GovFlagWithoutPayload
  | GovPayloadTwice
  | ZeroSpell
  | PayloadIdRange u64
  | EncodeWire wire_error

end
