(* ===== verification/Plan_Encode.thy ===== *)
theory Plan_Encode
  imports Plan_Types
begin

unbundle bit_operations_syntax

text \<open>
  The packed encoder and its inverse, \<^verbatim>\<open>crates/liq-plan/src/encode.rs\<close>. The \<^verbatim>\<open>&mut Vec<u8>\<close> an encoder
  extends is passed and returned; a failing encoder's buffer is dropped by its caller.
\<close>

section \<open>Packing\<close>

definition encode_tail :: "executor_adapter \<Rightarrow> leg_tail \<Rightarrow> (u8 list, encode_error) result" where
  "encode_tail adapter tail =
     (case adapter of
        EA_AaveV3 \<Rightarrow> (case tail of Tail_None \<Rightarrow> Ok [] | _ \<Rightarrow> Err (LegError (TailShape EA_AaveV3)))
      | EA_SiloV2 \<Rightarrow> (case tail of Tail_None \<Rightarrow> Ok [] | _ \<Rightarrow> Err (LegError (TailShape EA_SiloV2)))
      | EA_AaveV4 \<Rightarrow>
          (case tail of Tail_AaveV4 c d \<Rightarrow> Ok (to_be_bytes c @ to_be_bytes d) | _ \<Rightarrow> Err (LegError (TailShape EA_AaveV4)))
      | EA_MorphoBlue \<Rightarrow> (case tail of Tail_Morpho i \<Rightarrow> Ok (to_be_bytes i) | _ \<Rightarrow> Err (LegError (TailShape EA_MorphoBlue)))
      | EA_EulerV2 \<Rightarrow>
          (case tail of Tail_Euler m v \<Rightarrow> Ok (to_be_bytes m @ to_be_bytes v) | _ \<Rightarrow> Err (LegError (TailShape EA_EulerV2)))
      | EA_LiquityV2 \<Rightarrow> (case tail of Tail_Liquity i \<Rightarrow> Ok (to_be_bytes i) | _ \<Rightarrow> Err (LegError (TailShape EA_LiquityV2)))
      | EA_Fluid \<Rightarrow>
          (case tail of
             Tail_Fluid kind flags cpd dsm csm \<Rightarrow>
               Ok ([kind] @ [flags] @ to_be_bytes cpd @ to_be_bytes dsm @ to_be_bytes csm)
           | _ \<Rightarrow> Err (LegError (TailShape EA_Fluid)))
      | EA_Gearbox \<Rightarrow>
          (case tail of Tail_Gearbox m f \<Rightarrow> Ok (to_be_bytes m @ [if f then 1 else 0]) | _ \<Rightarrow> Err (LegError (TailShape EA_Gearbox)))
      | EA_CompoundV2 \<Rightarrow>
          (case tail of Tail_CompoundV2 c e \<Rightarrow> Ok (to_be_bytes c @ [e]) | _ \<Rightarrow> Err (LegError (TailShape EA_CompoundV2))))"

definition encode_liq :: "u8 list \<Rightarrow> liq_leg \<Rightarrow> (u8 list, encode_error) result" where
  "encode_liq b l =
     (let b = b @ [adapter_byte (ll_adapter l)];
          b = b @ to_be_bytes (ll_market l);
          b = b @ to_be_bytes (ll_borrower l);
          b = b @ to_be_bytes (ll_collateral_asset l);
          b = b @ to_be_bytes (ll_repay_amount l)
      in map_ok (\<lambda>t. b @ t) (encode_tail (ll_adapter l) (ll_tail l)))"

definition encode_swap :: "u8 list \<Rightarrow> swap_leg \<Rightarrow> (u8 list, encode_error) result" where
  "encode_swap b s =
     and_then (ok_or (try_from_usize (length (sl_data s)) :: u16 option) (SwapError (DataTooLong (length (sl_data s))))) (\<lambda>n.
     let b = b @ [sl_venue s];
         b = b @ to_be_bytes (sl_token_in s);
         b = b @ to_be_bytes (sl_token_out s);
         b = b @ [sl_flags s];
         b = b @ to_be_bytes (sl_amount s);
         b = b @ to_be_bytes n
     in Ok (b @ sl_data s))"

definition encode_group :: "u8 list \<Rightarrow> flash_group \<Rightarrow> (u8 list, encode_error) result" where
  "encode_group b g =
     (let b = b @ [provider_byte (fg_provider g)];
          b = b @ to_be_bytes (fg_flash_source g);
          b = b @ to_be_bytes (fg_debt_asset g);
          b = b @ to_be_bytes (fg_flash_amount g)
      in
        and_then (ok_or (try_from_usize (length (fg_liqs g))) TooManyLegs) (\<lambda>n_l.
        and_then (ok_or (try_from_usize (length (fg_repay_swaps g))) TooManyLegs) (\<lambda>n_r.
        and_then (encode_each encode_liq (b @ [n_l] @ [n_r]) (fg_liqs g)) (\<lambda>b.
        encode_each encode_swap b (fg_repay_swaps g)))))"

fun hint_liqs :: "nat \<Rightarrow> liq_leg list \<Rightarrow> (nat, encode_error) result" where
  "hint_liqs n [] = Ok n"
| "hint_liqs n (l # ls) =
     and_then (ok_or (Option.bind (usize_add n LIQ_LEG_LEN) (\<lambda>x. usize_add x (adapter_tail_len (ll_adapter l))))
       TooManyLegs) (\<lambda>n. hint_liqs n ls)"

fun hint_swaps :: "nat \<Rightarrow> swap_leg list \<Rightarrow> (nat, encode_error) result" where
  "hint_swaps n [] = Ok n"
| "hint_swaps n (s # ss) =
     and_then (ok_or (Option.bind (usize_add n SWAP_LEG_HEAD_LEN) (\<lambda>x. usize_add x (length (sl_data s))))
       TooManyLegs) (\<lambda>n. hint_swaps n ss)"

fun hint_groups :: "nat \<Rightarrow> flash_group list \<Rightarrow> (nat, encode_error) result" where
  "hint_groups n [] = Ok n"
| "hint_groups n (g # gs) =
     and_then (ok_or (usize_add n GROUP_HEAD_LEN) TooManyGroups) (\<lambda>n.
     and_then (hint_liqs n (fg_liqs g)) (\<lambda>n.
     and_then (hint_swaps n (fg_repay_swaps g)) (\<lambda>n. hint_groups n gs)))"

definition size_hint :: "batch_plan \<Rightarrow> (nat, encode_error) result" where
  "size_hint p =
     and_then (ok_or (usize_add HEADER_LEN 1) TooManyGroups) (\<lambda>n.
     and_then (hint_groups n (bp_groups p)) (\<lambda>n.
     and_then (ok_or (usize_add n 1) TooManyLegs) (\<lambda>n. hint_swaps n (bp_profit_swaps p))))"

definition encode_unchecked :: "batch_plan \<Rightarrow> (u8 list, encode_error) result" where
  "encode_unchecked p =
     (if bp_groups p = [] then Err NoGroups
      else if bp_flags p AND (FLAG_GOV_EXEC OR FLAG_GOV_SPELL) \<noteq> 0 then Err GovFlagWithoutPayload
      else
        and_then (size_hint p) (\<lambda>capacity.
        let b = [bp_flags p];
            b = b @ to_be_bytes (bp_bid_bps p);
            b = b @ to_be_bytes (bp_gas_cost_wei p);
            b = b @ to_be_bytes (bp_min_profit_wei p)
        in
          if length b \<noteq> HEADER_LEN then Err NoGroups
          else
            and_then (ok_or (try_from_usize (length (bp_groups p))) TooManyGroups) (\<lambda>n_g.
            and_then (encode_each encode_group (b @ [n_g]) (bp_groups p)) (\<lambda>b.
            and_then (ok_or (try_from_usize (length (bp_profit_swaps p))) TooManyLegs) (\<lambda>n_p.
            encode_each encode_swap (b @ [n_p]) (bp_profit_swaps p))))))"

section \<open>Governance suffixes\<close>

definition with_gov_payload :: "u8 list \<Rightarrow> u64 \<Rightarrow> (u8 list, encode_error) result" where
  "with_gov_payload b payload_id =
     (if payload_id > PAYLOAD_ID_MAX then Err (PayloadIdRange payload_id)
      else case b of
        [] \<Rightarrow> Err NoGroups
      | flags # rest \<Rightarrow>
          if flags AND (FLAG_GOV_EXEC OR FLAG_GOV_SPELL) \<noteq> 0 then Err GovPayloadTwice
          else
            let be = to_be_bytes payload_id;
                tail = drop (length be - PAYLOAD_ID_LEN) be;
                b = (flags OR FLAG_GOV_EXEC) # rest @ tail
            in and_then (map_err EncodeWire (plan_parse b)) (\<lambda>_. Ok b))"

definition with_gov_spell :: "u8 list \<Rightarrow> address \<Rightarrow> (u8 list, encode_error) result" where
  "with_gov_spell b spell =
     (if spell = 0 then Err ZeroSpell
      else case b of
        [] \<Rightarrow> Err NoGroups
      | flags # rest \<Rightarrow>
          if flags AND (FLAG_GOV_EXEC OR FLAG_GOV_SPELL) \<noteq> 0 then Err GovPayloadTwice
          else
            let b = (flags OR FLAG_GOV_SPELL) # rest @ to_be_bytes spell
            in and_then (map_err EncodeWire (plan_parse b)) (\<lambda>_. Ok b))"

section \<open>Unpacking\<close>

definition liq_owned :: "wire_liq_leg \<Rightarrow> liq_leg" where
  "liq_owned l =
     \<lparr>ll_adapter = wl_adapter l, ll_market = wl_market l, ll_borrower = wl_borrower l,
      ll_collateral_asset = wl_collateral_asset l, ll_repay_amount = wl_repay_amount l,
      ll_tail = wl_tail l, ll_protocol_pull = 0\<rparr>"

definition swap_owned :: "wire_swap_leg \<Rightarrow> swap_leg" where
  "swap_owned s =
     \<lparr>sl_venue = ws_venue s, sl_token_in = ws_token_in s, sl_token_out = ws_token_out s,
      sl_flags = ws_flags s, sl_amount = ws_amount s, sl_data = ws_data s\<rparr>"

definition decode_liqs :: "u8 list \<Rightarrow> nat \<Rightarrow> u8 \<Rightarrow> (liq_leg list, encode_error) result" where
  "decode_liqs b off n =
     map_ok (\<lambda>(ls, _). map liq_owned ls) (map_err EncodeWire (decode_loop (decode_liq_leg b) off (unat n)))"

definition decode_swaps :: "u8 list \<Rightarrow> nat \<Rightarrow> u8 \<Rightarrow> (swap_leg list, encode_error) result" where
  "decode_swaps b off n =
     map_ok (\<lambda>(ss, _). map swap_owned ss) (map_err EncodeWire (decode_loop (decode_swap_leg b) off (unat n)))"

definition decode_flash_group :: "u8 list \<Rightarrow> nat \<Rightarrow> (flash_group \<times> nat, encode_error) result" where
  "decode_flash_group b off =
     and_then (map_err EncodeWire (decode_group b off)) (\<lambda>head.
     and_then (decode_liqs b (gh_liq_offset head) (gh_liq_count head)) (\<lambda>liqs.
     and_then (decode_swaps b (gh_repay_swap_offset head) (gh_repay_swap_count head)) (\<lambda>repay_swaps.
     Ok (\<lparr>fg_provider = gh_provider head, fg_flash_source = gh_flash_source head,
          fg_debt_asset = gh_debt_asset head, fg_flash_amount = gh_flash_amount head, fg_fee_bps = 0,
          fg_liqs = liqs, fg_repay_swaps = repay_swaps\<rparr>, gh_next head))))"

definition decode_batch :: "u8 list \<Rightarrow> (batch_plan, encode_error) result" where
  "decode_batch b =
     and_then (map_err EncodeWire (plan_parse b)) (\<lambda>plan.
     let h = wp_header plan in
     and_then (ok_or (usize_add HEADER_LEN 1) TooManyGroups) (\<lambda>off.
     and_then (decode_loop (decode_flash_group b) off (unat (ph_group_count h))) (\<lambda>(groups, _).
     let po = ph_profit_swap_offset h in
     and_then (ok_or (get b po) (EncodeWire (Truncated (usize_saturating_add po 1) (length b)))) (\<lambda>n_p.
     and_then (ok_or (usize_add po 1) TooManyLegs) (\<lambda>so.
     and_then (decode_swaps b so n_p) (\<lambda>profit_swaps.
     Ok \<lparr>bp_flags = ph_flags h, bp_bid_bps = ph_bid_bps h, bp_gas_cost_wei = ph_gas_cost_wei h,
         bp_min_profit_wei = ph_min_profit h, bp_groups = groups, bp_profit_swaps = profit_swaps\<rparr>))))))"

section \<open>Surplus borrow\<close>

definition surplus_leg :: "address \<Rightarrow> address \<Rightarrow> address \<Rightarrow> swap_leg" where
  "surplus_leg debt weth univ3_pool =
     \<lparr>sl_venue = VENUE_UNIV3_POOL, sl_token_in = debt, sl_token_out = weth, sl_flags = LEG_TAKE_BALANCE,
      sl_amount = 0, sl_data = to_be_bytes univ3_pool\<rparr>"

definition ensure_surplus_step ::
  "address \<Rightarrow> address \<Rightarrow> flash_group \<Rightarrow> swap_leg list \<Rightarrow> swap_leg list" where
  "ensure_surplus_step weth univ3_pool g profit_swaps =
     (let pull = fold (\<lambda>l a. saturating_add a (ll_protocol_pull l)) (fg_liqs g) 0 in
      if fg_debt_asset g = weth \<or> fg_flash_amount g \<le> pull then profit_swaps
      else if list_ex (\<lambda>s. sl_token_in s = fg_debt_asset g \<and> sl_token_out s = weth \<and>
                sl_flags s AND LEG_TAKE_BALANCE \<noteq> 0) profit_swaps
      then profit_swaps
      else profit_swaps @ [surplus_leg (fg_debt_asset g) weth univ3_pool])"

definition ensure_surplus_borrow_profit_legs :: "batch_plan \<Rightarrow> address \<Rightarrow> address \<Rightarrow> batch_plan" where
  "ensure_surplus_borrow_profit_legs p weth univ3_pool =
     p\<lparr>bp_profit_swaps := fold (ensure_surplus_step weth univ3_pool) (bp_groups p) (bp_profit_swaps p)\<rparr>"

section \<open>The bytes of a plan\<close>

definition liq_wire :: "liq_leg \<Rightarrow> wire_liq_leg" where
  "liq_wire l =
     \<lparr>wl_adapter = ll_adapter l, wl_market = ll_market l, wl_borrower = ll_borrower l,
      wl_collateral_asset = ll_collateral_asset l, wl_repay_amount = ll_repay_amount l, wl_tail = ll_tail l\<rparr>"

definition swap_wire :: "swap_leg \<Rightarrow> wire_swap_leg" where
  "swap_wire s =
     \<lparr>ws_venue = sl_venue s, ws_token_in = sl_token_in s, ws_token_out = sl_token_out s,
      ws_flags = sl_flags s, ws_amount = sl_amount s, ws_data = sl_data s\<rparr>"

definition liq_ok :: "liq_leg \<Rightarrow> bool" where
  "liq_ok l \<longleftrightarrow> tail_shape (ll_adapter l) (ll_tail l)"

definition swap_ok :: "swap_leg \<Rightarrow> bool" where
  "swap_ok s \<longleftrightarrow> length (sl_data s) < 2 ^ 16"

definition liqs_bytes :: "liq_leg list \<Rightarrow> u8 list" where
  "liqs_bytes ls = concat (map (\<lambda>l. liq_bytes (liq_wire l)) ls)"

definition swaps_bytes :: "swap_leg list \<Rightarrow> u8 list" where
  "swaps_bytes ss = concat (map (\<lambda>s. swap_bytes (swap_wire s)) ss)"

definition group_bytes :: "flash_group \<Rightarrow> u8 list" where
  "group_bytes g =
     to_be_bytes (provider_byte (fg_provider g)) @ to_be_bytes (fg_flash_source g) @
     to_be_bytes (fg_debt_asset g) @ to_be_bytes (fg_flash_amount g) @
     to_be_bytes (of_nat (length (fg_liqs g)) :: u8) @ to_be_bytes (of_nat (length (fg_repay_swaps g)) :: u8) @
     liqs_bytes (fg_liqs g) @ swaps_bytes (fg_repay_swaps g)"

definition group_ok :: "flash_group \<Rightarrow> bool" where
  "group_ok g \<longleftrightarrow>
     length (fg_liqs g) < 2 ^ 8 \<and> length (fg_repay_swaps g) < 2 ^ 8 \<and>
     list_all liq_ok (fg_liqs g) \<and> list_all swap_ok (fg_repay_swaps g)"

definition plan_ok :: "batch_plan \<Rightarrow> bool" where
  "plan_ok p \<longleftrightarrow>
     bp_groups p \<noteq> [] \<and> length (bp_groups p) < 2 ^ 8 \<and> length (bp_profit_swaps p) < 2 ^ 8 \<and>
     list_all group_ok (bp_groups p) \<and> list_all swap_ok (bp_profit_swaps p)"

definition header_bytes :: "batch_plan \<Rightarrow> u8 list" where
  "header_bytes p =
     to_be_bytes (bp_flags p) @ to_be_bytes (bp_bid_bps p) @ to_be_bytes (bp_gas_cost_wei p) @
     to_be_bytes (bp_min_profit_wei p) @ to_be_bytes (of_nat (length (bp_groups p)) :: u8)"

definition plan_bytes :: "batch_plan \<Rightarrow> u8 list" where
  "plan_bytes p =
     header_bytes p @ concat (map group_bytes (bp_groups p)) @
     to_be_bytes (of_nat (length (bp_profit_swaps p)) :: u8) @ swaps_bytes (bp_profit_swaps p)"

section \<open>What the encoders write\<close>

lemma encode_tail_Ok: "encode_tail a tail = Ok bs \<longleftrightarrow> tail_shape a tail \<and> bs = tail_bytes tail"
  by (cases a) (auto simp: encode_tail_def tail_shape_def to_be_bytes_u8 split: leg_tail.splits)

interpretation liq_enc: item_encoder liq_ok "\<lambda>l. liq_bytes (liq_wire l)" encode_liq
  by unfold_locales
    (auto simp: encode_liq_def rust encode_tail_Ok liq_ok_def liq_bytes_def liq_wire_def to_be_bytes_u8)

interpretation swap_enc: item_encoder swap_ok "\<lambda>s. swap_bytes (swap_wire s)" encode_swap
  by unfold_locales
    (auto simp: encode_swap_def rust swap_ok_def swap_bytes_def swap_wire_def to_be_bytes_u8 try_from_usize_def
      split: if_splits)

interpretation group_enc: item_encoder group_ok group_bytes encode_group
  by unfold_locales
    (auto simp: encode_group_def rust liq_enc.encode_each_Ok swap_enc.encode_each_Ok group_ok_def group_bytes_def
      liqs_bytes_def swaps_bytes_def to_be_bytes_u8 try_from_usize_def split: if_splits)

section \<open>Sizes\<close>

lemma length_liq: "liq_ok l \<Longrightarrow> length (liq_bytes (liq_wire l)) = 77 + adapter_tail_len (ll_adapter l)"
  by (simp add: liq_ok_def liq_bytes_def liq_wire_def length_tail_bytes)

lemma length_swap: "length (swap_bytes (swap_wire s)) = 60 + length (sl_data s)"
  by (simp add: swap_bytes_def swap_wire_def)

lemma hint_liqs_Ok:
  "n < USIZE_LIMIT \<Longrightarrow> list_all liq_ok ls \<Longrightarrow>
   hint_liqs n ls = Ok m \<longleftrightarrow> m = n + length (liqs_bytes ls) \<and> m < USIZE_LIMIT"
  by (induction ls arbitrary: n)
    (auto simp: liqs_bytes_def length_liq rust checked Option.bind_eq_Some_conv)

lemma hint_swaps_Ok:
  "n < USIZE_LIMIT \<Longrightarrow> hint_swaps n ss = Ok m \<longleftrightarrow> m = n + length (swaps_bytes ss) \<and> m < USIZE_LIMIT"
  by (induction ss arbitrary: n)
    (auto simp: swaps_bytes_def length_swap rust checked Option.bind_eq_Some_conv)

lemma length_group: "length (group_bytes g) = 59 + length (liqs_bytes (fg_liqs g)) + length (swaps_bytes (fg_repay_swaps g))"
  by (simp add: group_bytes_def)

lemma hint_groups_Ok:
  "n < USIZE_LIMIT \<Longrightarrow> list_all group_ok gs \<Longrightarrow>
   hint_groups n gs = Ok m \<longleftrightarrow> m = n + length (concat (map group_bytes gs)) \<and> m < USIZE_LIMIT"
proof (induction gs arbitrary: n)
  case (Cons g gs)
  then have "list_all liq_ok (fg_liqs g)" by (simp add: group_ok_def)
  then show ?case
    using Cons by (auto simp: rust checked hint_liqs_Ok hint_swaps_Ok length_group)
qed auto

lemma length_liqs_le: "list_all liq_ok ls \<Longrightarrow> length (liqs_bytes ls) \<le> 175 * length ls"
proof (induction ls)
  case (Cons l ls)
  have "adapter_tail_len (ll_adapter l) \<le> 98" by (cases "ll_adapter l") simp_all
  then show ?case using Cons by (simp add: liqs_bytes_def length_liq)
qed (simp add: liqs_bytes_def)

lemma length_swaps_le: "list_all swap_ok ss \<Longrightarrow> length (swaps_bytes ss) \<le> 65595 * length ss"
  by (induction ss) (simp_all add: swaps_bytes_def length_swap swap_ok_def)

lemma length_groups_le: "list_all group_ok gs \<Longrightarrow> length (concat (map group_bytes gs)) \<le> 16771409 * length gs"
proof (induction gs)
  case (Cons g gs)
  have "length (liqs_bytes (fg_liqs g)) \<le> 175 * 255" "length (swaps_bytes (fg_repay_swaps g)) \<le> 65595 * 255"
    using Cons.prems length_liqs_le [of "fg_liqs g"] length_swaps_le [of "fg_repay_swaps g"]
    by (simp_all add: group_ok_def)
  then show ?case using Cons by (simp add: length_group)
qed simp

lemma plan_bytes_fit: "plan_ok p \<Longrightarrow> length (plan_bytes p) < 2 ^ 33"
  using length_groups_le [of "bp_groups p"] length_swaps_le [of "bp_profit_swaps p"]
  by (simp add: plan_ok_def plan_bytes_def header_bytes_def)

lemma size_hint_exact:
  assumes "plan_ok p"
  shows "size_hint p = Ok (length (plan_bytes p))"
proof -
  have "length (plan_bytes p) < USIZE_LIMIT" using plan_bytes_fit [OF assms] by (simp add: USIZE_LIMIT_def)
  then show ?thesis
    using assms
    by (simp add: size_hint_def rust checked hint_groups_Ok hint_swaps_Ok plan_ok_def plan_bytes_def header_bytes_def)
qed

lemma encode_unchecked_Ok:
  "encode_unchecked p = Ok b \<longleftrightarrow>
     plan_ok p \<and> bp_flags p AND (FLAG_GOV_EXEC OR FLAG_GOV_SPELL) = 0 \<and> b = plan_bytes p"
proof
  show "plan_ok p \<and> bp_flags p AND (FLAG_GOV_EXEC OR FLAG_GOV_SPELL) = 0 \<and> b = plan_bytes p"
    if "encode_unchecked p = Ok b"
    using that
    by (auto simp: encode_unchecked_def Let_def rust group_enc.encode_each_Ok swap_enc.encode_each_Ok plan_ok_def plan_bytes_def
        header_bytes_def swaps_bytes_def to_be_bytes_u8 try_from_usize_def split: if_splits)
  assume *: "plan_ok p \<and> bp_flags p AND (FLAG_GOV_EXEC OR FLAG_GOV_SPELL) = 0 \<and> b = plan_bytes p"
  then show "encode_unchecked p = Ok b"
    by (auto simp: encode_unchecked_def Let_def size_hint_exact) 
      (auto simp: rust group_enc.encode_each_Ok swap_enc.encode_each_Ok plan_ok_def plan_bytes_def
        header_bytes_def swaps_bytes_def to_be_bytes_u8 try_from_usize_def)
qed

section \<open>What the decoders read\<close>

text \<open>What survives the wire: \<open>fee_bps\<close> and \<open>protocol_pull\<close> are not on it.\<close>

definition on_wire_liq :: "liq_leg \<Rightarrow> liq_leg" where
  "on_wire_liq l = l\<lparr>ll_protocol_pull := 0\<rparr>"

definition on_wire_group :: "flash_group \<Rightarrow> flash_group" where
  "on_wire_group g = g\<lparr>fg_fee_bps := 0, fg_liqs := map on_wire_liq (fg_liqs g)\<rparr>"

definition on_wire :: "batch_plan \<Rightarrow> batch_plan" where
  "on_wire p = p\<lparr>bp_groups := map on_wire_group (bp_groups p)\<rparr>"

lemma owned_wire [simp]: "liq_owned (liq_wire l) = on_wire_liq l" "swap_owned (swap_wire s) = s"
  by (simp_all add: liq_owned_def liq_wire_def on_wire_liq_def swap_owned_def swap_wire_def)

lemma wire_owned [simp]: "liq_wire (liq_owned l) = l" "swap_wire (swap_owned s) = s"
  by (simp_all add: liq_owned_def liq_wire_def swap_owned_def swap_wire_def)

lemma wire_fields [simp]:
  "wl_adapter (liq_wire l) = ll_adapter l" "wl_tail (liq_wire l) = ll_tail l" "ws_data (swap_wire s) = sl_data s"
  by (simp_all add: liq_wire_def swap_wire_def)

lemma owned_ok [simp]:
  "liq_ok (liq_owned l) \<longleftrightarrow> tail_shape (wl_adapter l) (wl_tail l)" "on_wire_liq (liq_owned l) = liq_owned l"
  "swap_ok (swap_owned s) \<longleftrightarrow> length (ws_data s) < 2 ^ 16"
  by (simp_all add: liq_ok_def liq_owned_def on_wire_liq_def swap_ok_def swap_owned_def)

lemma on_wire_liq_wire [simp]: "liq_wire (on_wire_liq l) = liq_wire l"
  by (simp add: liq_wire_def on_wire_liq_def)

lemma decode_liqs_Ok:
  assumes "length b < USIZE_LIMIT" and "off \<le> length b"
  shows "decode_liqs b off n = Ok ls \<longleftrightarrow>
    length ls = unat n \<and> list_all liq_ok ls \<and> map on_wire_liq ls = ls \<and> reads b off (liqs_bytes ls)"
proof -
  have "decode_liqs b off n = Ok ls \<longleftrightarrow>
      (\<exists>ws. ls = map liq_owned ws \<and> length ws = unat n \<and>
        list_all (\<lambda>l. tail_shape (wl_adapter l) (wl_tail l)) ws \<and> reads b off (concat (map liq_bytes ws)))"
    by (auto simp: decode_liqs_def rust liq_fmt.decode_loop_Ok [OF assms])
  also have "\<dots> \<longleftrightarrow> length ls = unat n \<and> list_all liq_ok ls \<and> map on_wire_liq ls = ls \<and> reads b off (liqs_bytes ls)"
    (is "_ \<longleftrightarrow> ?read")
  proof
    show ?read if "\<exists>ws. ls = map liq_owned ws \<and> length ws = unat n \<and>
        list_all (\<lambda>l. tail_shape (wl_adapter l) (wl_tail l)) ws \<and> reads b off (concat (map liq_bytes ws))"
      using that
      by (auto simp: liqs_bytes_def comp_def list_all_iff)
    show "\<exists>ws. ls = map liq_owned ws \<and> length ws = unat n \<and>
        list_all (\<lambda>l. tail_shape (wl_adapter l) (wl_tail l)) ws \<and> reads b off (concat (map liq_bytes ws))" if ?read
      using that
      by (intro exI [of _ "map liq_wire ls"])
        (auto simp: liqs_bytes_def comp_def liq_ok_def list_all_iff)
  qed
  finally show ?thesis .
qed

lemma decode_swaps_Ok:
  assumes "length b < USIZE_LIMIT" and "off \<le> length b"
  shows "decode_swaps b off n = Ok ss \<longleftrightarrow>
    length ss = unat n \<and> list_all swap_ok ss \<and> reads b off (swaps_bytes ss)"
proof -
  have "decode_swaps b off n = Ok ss \<longleftrightarrow>
      (\<exists>ws. ss = map swap_owned ws \<and> length ws = unat n \<and>
        list_all (\<lambda>s. length (ws_data s) < 2 ^ 16) ws \<and> reads b off (concat (map swap_bytes ws)))"
    by (auto simp: decode_swaps_def rust swap_fmt.decode_loop_Ok [OF assms])
  also have "\<dots> \<longleftrightarrow> length ss = unat n \<and> list_all swap_ok ss \<and> reads b off (swaps_bytes ss)" (is "_ \<longleftrightarrow> ?read")
  proof
    show ?read if "\<exists>ws. ss = map swap_owned ws \<and> length ws = unat n \<and>
        list_all (\<lambda>s. length (ws_data s) < 2 ^ 16) ws \<and> reads b off (concat (map swap_bytes ws))"
      using that by (auto simp: swaps_bytes_def comp_def list_all_iff)
    show "\<exists>ws. ss = map swap_owned ws \<and> length ws = unat n \<and>
        list_all (\<lambda>s. length (ws_data s) < 2 ^ 16) ws \<and> reads b off (concat (map swap_bytes ws))" if ?read
      using that
      by (intro exI [of _ "map swap_wire ss"])
        (auto simp: swaps_bytes_def comp_def swap_ok_def list_all_iff)
  qed
  finally show ?thesis .
qed

lemma skip_owned:
  assumes "length b < USIZE_LIMIT"
  shows "list_all liq_ok ls \<Longrightarrow> reads b off (liqs_bytes ls) \<Longrightarrow> unat n = length ls \<Longrightarrow>
      skip_liq_legs b off n = Ok (off + length (liqs_bytes ls))"
    and "list_all swap_ok ss \<Longrightarrow> reads b off (swaps_bytes ss) \<Longrightarrow> unat n = length ss \<Longrightarrow>
      skip_swap_legs b off n = Ok (off + length (swaps_bytes ss))"
  using skip_liq_legs_Ok [OF assms, of "map liq_wire ls" off n]
    skip_swap_legs_Ok [OF assms, of "map swap_wire ss" off n]
  by (simp_all add: liqs_bytes_def swaps_bytes_def comp_def list_all_iff liq_ok_def swap_ok_def)

lemma group_bytes_head:
  "length (fg_liqs g) = unat n_l \<Longrightarrow> length (fg_repay_swaps g) = unat n_r \<Longrightarrow>
   group_bytes g =
     head_bytes \<lparr>gh_provider = fg_provider g, gh_flash_source = fg_flash_source g, gh_debt_asset = fg_debt_asset g,
       gh_flash_amount = fg_flash_amount g, gh_liq_count = n_l, gh_repay_swap_count = n_r,
       gh_liq_offset = x, gh_repay_swap_offset = y, gh_next = z\<rparr> @
     liqs_bytes (fg_liqs g) @ swaps_bytes (fg_repay_swaps g)"
  by (simp add: group_bytes_def head_bytes_def)

lemma skip_liq_legs_bound: "skip_liq_legs b off n = Ok q \<Longrightarrow> q \<le> length b"
  by (auto simp: skip_liq_legs_def rust split: if_splits)

lemma decode_flash_group_sound:
  assumes b: "length b < USIZE_LIMIT" and d: "decode_flash_group b off = Ok (g, nx)"
  shows "group_ok g \<and> on_wire_group g = g \<and> reads b off (group_bytes g) \<and> nx = off + length (group_bytes g)"
proof -
  obtain h ls ss where h: "decode_group b off = Ok h" and ls: "decode_liqs b (gh_liq_offset h) (gh_liq_count h) = Ok ls"
    and ss: "decode_swaps b (gh_repay_swap_offset h) (gh_repay_swap_count h) = Ok ss"
    and g: "g = \<lparr>fg_provider = gh_provider h, fg_flash_source = gh_flash_source h, fg_debt_asset = gh_debt_asset h,
      fg_flash_amount = gh_flash_amount h, fg_fee_bps = 0, fg_liqs = ls, fg_repay_swaps = ss\<rparr>" and nx: "nx = gh_next h"
    using d by (auto simp: decode_flash_group_def rust)
  note head = h [unfolded decode_group_Ok [OF b]]
  then have liq_off: "gh_liq_offset h = 59 + off" and "59 + off \<le> length b"
    using reads_bound [of b off "head_bytes h"] by auto
  then have L: "length ls = unat (gh_liq_count h)" "list_all liq_ok ls" "map on_wire_liq ls = ls"
      "reads b (59 + off) (liqs_bytes ls)"
    using ls by (simp_all add: decode_liqs_Ok [OF b])
  then have rso: "gh_repay_swap_offset h = 59 + off + length (liqs_bytes ls)"
    using head skip_owned(1) [OF b L(2,4), of "gh_liq_count h"] by simp
  have "gh_repay_swap_offset h \<le> length b" using head skip_liq_legs_bound by blast
  then have S: "length ss = unat (gh_repay_swap_count h)" "list_all swap_ok ss"
      "reads b (gh_repay_swap_offset h) (swaps_bytes ss)"
    using ss by (simp_all add: decode_swaps_Ok [OF b])
  then have nxt: "gh_next h = gh_repay_swap_offset h + length (swaps_bytes ss)"
    using head skip_owned(2) [OF b S(2,3), of "gh_repay_swap_count h"] by simp
  have "group_bytes g = head_bytes h @ liqs_bytes ls @ swaps_bytes ss"
    using group_bytes_head [of g "gh_liq_count h" "gh_repay_swap_count h"] L(1) S(1) by (simp add: g head_bytes_def)
  moreover have "group_ok g"
    using L S unat_bound [of "gh_liq_count h"] unat_bound [of "gh_repay_swap_count h"] by (simp add: g group_ok_def)
  ultimately show ?thesis
    using head L S rso nx nxt by (simp add: reads_append add_ac) (simp add: g on_wire_group_def)
qed

lemma decode_flash_group_complete:
  assumes b: "length b < USIZE_LIMIT" and g: "group_ok g" "on_wire_group g = g" and r: "reads b off (group_bytes g)"
  shows "decode_flash_group b off = Ok (g, off + length (group_bytes g))"
proof -
  let ?nl = "of_nat (length (fg_liqs g)) :: u8" and ?nr = "of_nat (length (fg_repay_swaps g)) :: u8"
  let ?rso = "59 + off + length (liqs_bytes (fg_liqs g))"
  let ?h = "\<lparr>gh_provider = fg_provider g, gh_flash_source = fg_flash_source g, gh_debt_asset = fg_debt_asset g,
       gh_flash_amount = fg_flash_amount g, gh_liq_count = ?nl, gh_repay_swap_count = ?nr,
       gh_liq_offset = 59 + off, gh_repay_swap_offset = ?rso, gh_next = ?rso + length (swaps_bytes (fg_repay_swaps g))\<rparr>"
  have n: "unat ?nl = length (fg_liqs g)" "unat ?nr = length (fg_repay_swaps g)"
    using g(1) by (simp_all add: group_ok_def)
  have "group_bytes g = head_bytes ?h @ liqs_bytes (fg_liqs g) @ swaps_bytes (fg_repay_swaps g)"
    by (rule group_bytes_head) (simp_all only: n)
  then have R: "reads b off (head_bytes ?h)" "reads b (59 + off) (liqs_bytes (fg_liqs g))" "reads b ?rso (swaps_bytes (fg_repay_swaps g))"
    using r by (simp_all only: reads_append length_head_bytes add_ac)
  have "fg_liqs (on_wire_group g) = fg_liqs g" "fg_fee_bps (on_wire_group g) = fg_fee_bps g" by (simp_all only: g(2))
  then have ok: "list_all liq_ok (fg_liqs g)" "list_all swap_ok (fg_repay_swaps g)"
      "map on_wire_liq (fg_liqs g) = fg_liqs g" "fg_fee_bps g = 0"
    using g(1) by (simp_all add: group_ok_def on_wire_group_def)
  have "decode_group b off = Ok ?h"
    using R skip_owned(1) [OF b ok(1) R(2) n(1)] skip_owned(2) [OF b ok(2) R(3) n(2)]
    by (simp add: decode_group_Ok [OF b])
  moreover have "decode_liqs b (59 + off) ?nl = Ok (fg_liqs g)"
    using reads_bound [OF R(2)] n(1) ok R(2) by (simp add: decode_liqs_Ok [OF b])
  moreover have "decode_swaps b ?rso ?nr = Ok (fg_repay_swaps g)"
    using reads_bound [OF R(3)] n(2) ok R(3) by (simp add: decode_swaps_Ok [OF b])
  ultimately show ?thesis
    using ok(4) by (simp add: decode_flash_group_def length_group)
qed

interpretation group_fmt: item_format
  "\<lambda>g. group_ok g \<and> on_wire_group g = g" group_bytes decode_flash_group next_group
proof unfold_locales
  fix b :: "u8 list" and off and g :: flash_group and nx
  assume b: "length b < USIZE_LIMIT"
  show "decode_flash_group b off = Ok (g, nx) \<longleftrightarrow>
      (group_ok g \<and> on_wire_group g = g) \<and> reads b off (group_bytes g) \<and> nx = off + length (group_bytes g)"
    using decode_flash_group_sound [OF b, of off g nx] decode_flash_group_complete [OF b, of g off] by blast
  assume g: "group_ok g \<and> on_wire_group g = g" and r: "reads b off (group_bytes g)"
  have "decode_flash_group b off = Ok (g, off + length (group_bytes g))"
    by (rule decode_flash_group_complete [OF b conjunct1 [OF g] conjunct2 [OF g] r])
  then show "next_group b off = Ok (off + length (group_bytes g))"
    by (auto simp: decode_flash_group_def next_group_def rust)
qed

section \<open>Whole plans\<close>

definition ph_bytes :: "plan_header \<Rightarrow> u8 list" where
  "ph_bytes h =
     to_be_bytes (ph_flags h) @ to_be_bytes (ph_bid_bps h) @ to_be_bytes (ph_gas_cost_wei h) @
     to_be_bytes (ph_min_profit h) @ to_be_bytes (ph_group_count h)"

lemma length_ph_bytes [simp]: "length (ph_bytes h) = 36"
  by (simp add: ph_bytes_def)

lemma plan_parse_Ok:
  assumes b: "length b < USIZE_LIMIT"
  shows "plan_parse b = Ok pl \<longleftrightarrow>
    wp_bytes pl = b \<and> reads b 0 (ph_bytes (wp_header pl)) \<and> ph_group_count (wp_header pl) \<noteq> 0 \<and>
    walk_loop (next_group b) 36 (unat (ph_group_count (wp_header pl))) = Ok (ph_profit_swap_offset (wp_header pl)) \<and>
    (\<exists>n_p cur. reads b (ph_profit_swap_offset (wp_header pl)) (to_be_bytes n_p) \<and>
      skip_swap_legs b (Suc (ph_profit_swap_offset (wp_header pl))) n_p = Ok cur \<and>
      parse_gov b (ph_flags (wp_header pl)) cur =
        Ok (ph_payload_id (wp_header pl), ph_spell (wp_header pl), length b))"
    (is "_ \<longleftrightarrow> ?walked")
proof
  show ?walked if "plan_parse b = Ok pl"
    using that by (auto simp: plan_parse_def rust wire ph_bytes_def split: if_splits)
  assume *: ?walked
  then obtain n_p where "reads b (ph_profit_swap_offset (wp_header pl)) (to_be_bytes (n_p :: u8))" by blast
  then have "Suc (ph_profit_swap_offset (wp_header pl)) < USIZE_LIMIT" using b reads_bound by fastforce
  moreover obtain flags bid gas mp gc pso i sp where
    pl: "pl = \<lparr>wp_bytes = b, wp_header = \<lparr>ph_flags = flags, ph_bid_bps = bid, ph_gas_cost_wei = gas,
      ph_min_profit = mp, ph_group_count = gc, ph_profit_swap_offset = pso, ph_payload_id = i, ph_spell = sp\<rparr>\<rparr>"
    using * by (cases pl, cases "wp_header pl") simp
  moreover have "(36::nat) < USIZE_LIMIT" by (simp add: USIZE_LIMIT_def)
  ultimately show "plan_parse b = Ok pl"
    using * by (auto simp: plan_parse_def rust wire ph_bytes_def split: if_splits)
qed

definition gov_suffix :: "u8 \<Rightarrow> u8 list \<Rightarrow> bool" where
  "gov_suffix flags s \<longleftrightarrow>
     (if flags AND FLAG_GOV_EXEC \<noteq> 0 then flags AND FLAG_GOV_SPELL = 0 \<and> length s = 5
      else if flags AND FLAG_GOV_SPELL \<noteq> 0 then length s = 20
      else s = [])"

lemma take_rest:
  assumes "length b < USIZE_LIMIT" and "cur \<le> length b"
  shows "(\<exists>s. take_at b cur n = Ok s \<and> add_off cur n = Ok (length b)) \<longleftrightarrow> length (drop cur b) = n"
  using assms by (auto simp: take_at_Ok reads_def add_off_Ok intro!: exI [of _ "drop cur b"])

lemma parse_gov_end:
  assumes "length b < USIZE_LIMIT" and "cur \<le> length b"
  shows "(\<exists>i sp. parse_gov b flags cur = Ok (i, sp, length b)) \<longleftrightarrow> gov_suffix flags (drop cur b)"
proof (cases "flags AND FLAG_GOV_EXEC \<noteq> 0")
  case True
  then have "(\<exists>i sp. parse_gov b flags cur = Ok (i, sp, length b)) \<longleftrightarrow>
      flags AND FLAG_GOV_SPELL = 0 \<and> (\<exists>s. take_at b cur 5 = Ok s \<and> add_off cur 5 = Ok (length b))"
    by (auto simp: parse_gov_def payload_id_at_def rust)
  then show ?thesis using True by (simp only: take_rest [OF assms] gov_suffix_def if_True not_False_eq_True)
next
  case exec: False
  show ?thesis
  proof (cases "flags AND FLAG_GOV_SPELL \<noteq> 0")
    case True
    then have "(\<exists>i sp. parse_gov b flags cur = Ok (i, sp, length b)) \<longleftrightarrow>
        (\<exists>s. take_at b cur 20 = Ok s \<and> add_off cur 20 = Ok (length b))"
      using exec by (auto simp: parse_gov_def addr_at_def rust)
    then show ?thesis using True exec by (simp only: take_rest [OF assms] gov_suffix_def if_True if_False not_False_eq_True not_True_eq_False)
  next
    case False
    then show ?thesis using exec assms(2) by (auto simp: parse_gov_def gov_suffix_def)
  qed
qed

lemma map_fixed: "map f xs = xs \<longleftrightarrow> list_all (\<lambda>x. f x = x) xs"
  by (induction xs) auto

definition wire_header :: "batch_plan \<Rightarrow> u64 option \<Rightarrow> address option \<Rightarrow> plan_header" where
  "wire_header p i sp =
     \<lparr>ph_flags = bp_flags p, ph_bid_bps = bp_bid_bps p, ph_gas_cost_wei = bp_gas_cost_wei p,
      ph_min_profit = bp_min_profit_wei p, ph_group_count = of_nat (length (bp_groups p)),
      ph_profit_swap_offset = 36 + length (concat (map group_bytes (bp_groups p))),
      ph_payload_id = i, ph_spell = sp\<rparr>"

text \<open>The bytes of a plan and a governance suffix, and where its parts stand in them.\<close>

lemma plan_bytes_placed:
  assumes p: "plan_ok p" and s: "gov_suffix (bp_flags p) s"
  defines "b \<equiv> plan_bytes p @ s" and "gs \<equiv> concat (map group_bytes (bp_groups p))"
  shows "length b < USIZE_LIMIT" and "reads b 0 (header_bytes p)" and "reads b 36 gs"
    and "reads b (36 + length gs) (to_be_bytes (of_nat (length (bp_profit_swaps p)) :: u8))"
    and "reads b (Suc (36 + length gs)) (swaps_bytes (bp_profit_swaps p))"
    and "Suc (36 + length gs) + length (swaps_bytes (bp_profit_swaps p)) = length (plan_bytes p)"
    and "unat (of_nat (length (bp_groups p)) :: u8) = length (bp_groups p)"
    and "unat (of_nat (length (bp_profit_swaps p)) :: u8) = length (bp_profit_swaps p)"
proof -
  have "length s \<le> 20" using s by (auto simp: gov_suffix_def split: if_splits)
  then show "length b < USIZE_LIMIT" using plan_bytes_fit [OF p] by (simp add: b_def USIZE_LIMIT_def)
  have "reads b 0 (header_bytes p @ gs @ to_be_bytes (of_nat (length (bp_profit_swaps p)) :: u8) @
      swaps_bytes (bp_profit_swaps p))"
    using reads_in [of "[]" "plan_bytes p" s] by (simp add: b_def gs_def plan_bytes_def)
  then show "reads b 0 (header_bytes p)" and "reads b 36 gs"
    and "reads b (36 + length gs) (to_be_bytes (of_nat (length (bp_profit_swaps p)) :: u8))"
    and "reads b (Suc (36 + length gs)) (swaps_bytes (bp_profit_swaps p))"
    by (simp_all add: reads_append header_bytes_def add_ac)
  show "Suc (36 + length gs) + length (swaps_bytes (bp_profit_swaps p)) = length (plan_bytes p)"
    by (simp add: gs_def plan_bytes_def header_bytes_def)
qed (use p in \<open>simp_all add: plan_ok_def\<close>)

lemma plan_parse_complete:
  assumes p: "plan_ok p" "on_wire p = p" and s: "gov_suffix (bp_flags p) s"
  obtains i sp where "plan_parse (plan_bytes p @ s) = Ok \<lparr>wp_bytes = plan_bytes p @ s, wp_header = wire_header p i sp\<rparr>"
    and "parse_gov (plan_bytes p @ s) (bp_flags p) (length (plan_bytes p)) = Ok (i, sp, length (plan_bytes p @ s))"
proof -
  let ?b = "plan_bytes p @ s" and ?np = "of_nat (length (bp_profit_swaps p)) :: u8"
  note at = plan_bytes_placed [OF p(1) s]
  have "map on_wire_group (bp_groups p) = bp_groups p" using arg_cong [OF p(2), of bp_groups] by (simp add: on_wire_def)
  then have ok: "list_all (\<lambda>g. group_ok g \<and> on_wire_group g = g) (bp_groups p)" "list_all swap_ok (bp_profit_swaps p)"
    using p(1) unfolding map_fixed by (simp_all add: plan_ok_def list_all_iff)
  have "(of_nat (length (bp_groups p)) :: u8) \<noteq> 0"
    using at(7) p(1) by (metis length_0_conv plan_ok_def unat_0)
  moreover obtain i sp where gov: "parse_gov ?b (bp_flags p) (length (plan_bytes p)) = Ok (i, sp, length ?b)"
    using parse_gov_end [OF at(1), of "length (plan_bytes p)" "bp_flags p"] s by auto
  ultimately have "plan_parse ?b = Ok \<lparr>wp_bytes = ?b, wp_header = wire_header p i sp\<rparr>"
    unfolding plan_parse_Ok [OF at(1)]
    using at(2,4) at(6-8) group_fmt.skip_loop_Ok [OF at(1) ok(1) at(3)] skip_owned(2) [OF at(1) ok(2) at(5), of ?np]
    by (auto simp: ph_bytes_def header_bytes_def wire_header_def intro!: exI [of _ ?np])
  then show ?thesis using gov that by blast
qed

lemma decode_batch_complete:
  assumes p: "plan_ok p" "on_wire p = p" and s: "gov_suffix (bp_flags p) s"
  shows "decode_batch (plan_bytes p @ s) = Ok p"
proof -
  let ?b = "plan_bytes p @ s" and ?gs = "concat (map group_bytes (bp_groups p))"
  let ?ng = "of_nat (length (bp_groups p)) :: u8" and ?np = "of_nat (length (bp_profit_swaps p)) :: u8"
  note at = plan_bytes_placed [OF p(1) s]
  obtain i sp where "plan_parse ?b = Ok \<lparr>wp_bytes = ?b, wp_header = wire_header p i sp\<rparr>"
    by (rule plan_parse_complete [OF p s]) blast
  moreover have "map on_wire_group (bp_groups p) = bp_groups p"
    using arg_cong [OF p(2), of bp_groups] by (simp add: on_wire_def)
  then have "decode_loop (decode_flash_group ?b) 36 (unat ?ng) = Ok (bp_groups p, 36 + length ?gs)"
    using group_fmt.decode_loop_Ok [OF at(1), of 36] reads_bound [OF at(3)] at(3,7) p(1) unfolding map_fixed
    by (simp add: plan_ok_def list_all_iff)
  moreover have "decode_swaps ?b (Suc (36 + length ?gs)) ?np = Ok (bp_profit_swaps p)"
    using decode_swaps_Ok [OF at(1), of "Suc (36 + length ?gs)"] reads_bound [OF at(5)] at(5,8) p(1)
    by (simp add: plan_ok_def)
  moreover have "get ?b (36 + length ?gs) = Some ?np"
    using u8_at_Ok [THEN iffD2, OF at(4)] by (simp add: u8_at_def rust)
  moreover have "usize_add HEADER_LEN 1 = Some 36" "usize_add (36 + length ?gs) 1 = Some (Suc (36 + length ?gs))"
    using at(1,6) by (simp_all add: usize_add_def USIZE_LIMIT_def)
  ultimately show ?thesis by (simp add: decode_batch_def wire_header_def)
qed

lemma skip_swap_legs_bound: "skip_swap_legs b off n = Ok q \<Longrightarrow> q \<le> length b"
  by (auto simp: skip_swap_legs_def rust split: if_splits)

lemma reads_prefix: "reads b 0 s \<Longrightarrow> b = s @ drop (length s) b"
  by (metis append_take_drop_id drop0 reads_def)

lemma decode_batch_sound:
  assumes b: "length b < USIZE_LIMIT" and d: "decode_batch b = Ok p"
  shows "plan_ok p" and "on_wire p = p" and "\<exists>s. b = plan_bytes p @ s \<and> gov_suffix (bp_flags p) s"
proof -
  obtain pl gs fin n_p ss where parse: "plan_parse b = Ok pl"
    and gs: "decode_loop (decode_flash_group b) 36 (unat (ph_group_count (wp_header pl))) = Ok (gs, fin)"
    and np: "get b (ph_profit_swap_offset (wp_header pl)) = Some n_p"
    and ss: "decode_swaps b (Suc (ph_profit_swap_offset (wp_header pl))) n_p = Ok ss"
    and p: "p = \<lparr>bp_flags = ph_flags (wp_header pl), bp_bid_bps = ph_bid_bps (wp_header pl),
      bp_gas_cost_wei = ph_gas_cost_wei (wp_header pl), bp_min_profit_wei = ph_min_profit (wp_header pl),
      bp_groups = gs, bp_profit_swaps = ss\<rparr>"
    using d by (auto simp: decode_batch_def Let_def rust checked)
  let ?h = "wp_header pl"
  obtain m cur where walked: "reads b 0 (ph_bytes ?h)" "ph_group_count ?h \<noteq> 0"
      "walk_loop (next_group b) 36 (unat (ph_group_count ?h)) = Ok (ph_profit_swap_offset ?h)"
      "reads b (ph_profit_swap_offset ?h) (to_be_bytes m)"
      "skip_swap_legs b (Suc (ph_profit_swap_offset ?h)) m = Ok cur"
      "parse_gov b (ph_flags ?h) cur = Ok (ph_payload_id ?h, ph_spell ?h, length b)"
    using parse unfolding plan_parse_Ok [OF b] by blast
  have "u8_at b (ph_profit_swap_offset ?h) = Ok n_p" using np by (simp add: u8_at_def)
  then have m: "m = n_p" using walked(4) by (simp add: u8_at_Ok [symmetric])
  have "36 \<le> length b" using reads_bound [OF walked(1)] by simp
  then have G: "length gs = unat (ph_group_count ?h)" "list_all (\<lambda>g. group_ok g \<and> on_wire_group g = g) gs"
      "reads b 36 (concat (map group_bytes gs))"
    using gs by (simp_all add: group_fmt.decode_loop_Ok [OF b])
  then have pso: "ph_profit_swap_offset ?h = 36 + length (concat (map group_bytes gs))"
    using group_fmt.skip_loop_Ok [OF b G(2,3)] walked(3) by simp
  have "Suc (ph_profit_swap_offset ?h) \<le> length b" using reads_bound [OF walked(4)] by simp
  then have S: "length ss = unat n_p" "list_all swap_ok ss" "reads b (Suc (ph_profit_swap_offset ?h)) (swaps_bytes ss)"
    using ss by (simp_all add: decode_swaps_Ok [OF b])
  then have cur: "cur = Suc (ph_profit_swap_offset ?h) + length (swaps_bytes ss)"
    using skip_owned(2) [OF b S(2,3), of n_p] walked(5) m by simp
  have hdr: "header_bytes p = ph_bytes ?h" and np': "of_nat (length ss) = n_p"
    using G(1) S(1) by (simp_all add: p header_bytes_def ph_bytes_def)
  have bytes: "reads b 0 (plan_bytes p)"
    using walked(1,4) G(3) S(3) m unfolding plan_bytes_def hdr
    by (simp add: p np' reads_append pso add_ac)
  have "length (plan_bytes p) = cur" unfolding plan_bytes_def hdr by (simp add: p cur pso)
  then show "\<exists>s. b = plan_bytes p @ s \<and> gov_suffix (bp_flags p) s"
    using reads_prefix [OF bytes] parse_gov_end [OF b skip_swap_legs_bound [OF walked(5)], of "ph_flags ?h"] walked(6)
    by (auto simp: p)
  show "on_wire p = p" using G(2) by (simp add: p on_wire_def map_fixed list_all_iff)
  show "plan_ok p"
    using G S walked(2) unat_bound [of "ph_group_count ?h"] unat_bound [of n_p]
    by (auto simp: p plan_ok_def list_all_iff unat_eq_0)
qed

lemma on_wire_same: "plan_bytes (on_wire p) = plan_bytes p" "plan_ok (on_wire p) = plan_ok p" "on_wire (on_wire p) = on_wire p"
proof -
  have liqs: "liqs_bytes (map on_wire_liq ls) = liqs_bytes ls" "list_all liq_ok (map on_wire_liq ls) = list_all liq_ok ls" for ls
    by (simp_all add: liqs_bytes_def comp_def list_all_iff liq_ok_def on_wire_liq_def liq_wire_def)
  have "group_bytes (on_wire_group g) = group_bytes g" "group_ok (on_wire_group g) = group_ok g"
    "on_wire_group (on_wire_group g) = on_wire_group g" for g
    using liqs by (simp_all add: group_bytes_def group_ok_def on_wire_group_def on_wire_liq_def)
  then show "plan_bytes (on_wire p) = plan_bytes p" "plan_ok (on_wire p) = plan_ok p" "on_wire (on_wire p) = on_wire p"
    by (simp_all add: plan_bytes_def header_bytes_def on_wire_def plan_ok_def comp_def list_all_iff)
qed

lemma no_gov: "f AND (FLAG_GOV_EXEC OR FLAG_GOV_SPELL) = (0 :: u8) \<longleftrightarrow> f AND FLAG_GOV_EXEC = 0 \<and> f AND FLAG_GOV_SPELL = 0"
  by (simp add: bit.conj_disj_distrib or_eq_0_iff)

lemma be_bytes_add: "be_bytes (k + n) x = be_bytes k (x div 256 ^ n) @ be_bytes n x"
  by (induction n arbitrary: x) (simp_all add: div_mult2_eq)

lemma be_bytes_0: "be_bytes n 0 = replicate n 0"
  by (induction n) (simp_all add: replicate_append_same)

lemma payload_bytes:
  assumes "i \<le> PAYLOAD_ID_MAX"
  shows "replicate 3 0 @ drop 3 (to_be_bytes i) = to_be_bytes (i :: u64)"
proof -
  have "unat i \<le> unat (PAYLOAD_ID_MAX)" using assms by (simp add: word_le_unat)
  then have "unat i div 256 ^ 5 = 0" by (simp add: PAYLOAD_ID_MAX_def)
  then have "to_be_bytes i = be_bytes 3 0 @ be_bytes 5 (unat i)"
    using be_bytes_add [of 3 5 "unat i"] by (simp add: to_be_bytes_def)
  then show ?thesis by (simp add: be_bytes_0 numeral_3_eq_3)
qed

section \<open>Round trips\<close>

lemma decode_encoded:
  assumes "encode_unchecked p = Ok b"
  shows "decode_batch b = Ok (on_wire p)"
proof -
  have "plan_ok p" "gov_suffix (bp_flags p) []" "b = plan_bytes p"
    using assms by (simp_all add: encode_unchecked_Ok gov_suffix_def no_gov)
  moreover have "bp_flags (on_wire p) = bp_flags p" by (simp add: on_wire_def)
  ultimately show ?thesis using decode_batch_complete [of "on_wire p" "[]"] by (simp add: on_wire_same)
qed

text \<open>
  C2. Encoding and decoding: the bytes the encoder packs decode to the plan it was given, up to the two
  fields that are not on the wire, and the buffer it reserves has exactly their length.
\<close>
theorem plan_roundtrip:
  assumes "encode_unchecked p = Ok b"
  shows "decode_batch b = Ok (on_wire p) \<and> size_hint p = Ok (length b)"
  using decode_encoded [OF assms] size_hint_exact [of p] assms by (simp add: encode_unchecked_Ok)

text \<open>
  C10. The encoding is canonical: whatever bytes the decoder accepts without a governance action are the very
  bytes the encoder packs for the decoded plan. No two byte strings decode to the same plan.
\<close>
theorem plan_canonical:
  assumes "length b < USIZE_LIMIT" and "decode_batch b = Ok p"
    and "bp_flags p AND (FLAG_GOV_EXEC OR FLAG_GOV_SPELL) = 0"
  shows "encode_unchecked p = Ok b"
proof -
  obtain s where "plan_ok p" "b = plan_bytes p @ s" "gov_suffix (bp_flags p) s"
    using decode_batch_sound [OF assms(1,2)] by blast
  then show ?thesis using assms(3) by (simp add: encode_unchecked_Ok gov_suffix_def no_gov)
qed

definition sample_swap :: swap_leg where
  "sample_swap =
     \<lparr>sl_venue = VENUE_UNIV3_POOL, sl_token_in = 5, sl_token_out = 7, sl_flags = LEG_TAKE_BALANCE, sl_amount = 0,
      sl_data = to_be_bytes (9 :: address)\<rparr>"

definition sample_buy :: swap_leg where
  "sample_buy = sample_swap\<lparr>sl_flags := LEG_EXACT_OUT, sl_amount := 100\<rparr>"

definition sample_group :: flash_group where
  "sample_group =
     \<lparr>fg_provider = FP_Morpho, fg_flash_source = 2, fg_debt_asset = 7, fg_flash_amount = 100, fg_fee_bps = 0,
      fg_liqs = [\<lparr>ll_adapter = EA_AaveV3, ll_market = 3, ll_borrower = 4, ll_collateral_asset = 5,
        ll_repay_amount = 100, ll_tail = Tail_None, ll_protocol_pull = 100\<rparr>],
      fg_repay_swaps = [sample_buy, sample_swap]\<rparr>"

definition sample_batch :: batch_plan where
  "sample_batch =
     \<lparr>bp_flags = 0, bp_bid_bps = 9000, bp_gas_cost_wei = 1, bp_min_profit_wei = 1,
      bp_groups = [sample_group], bp_profit_swaps = []\<rparr>"

lemma sample_encodes: "encode_unchecked sample_batch = Ok (plan_bytes sample_batch)"
  by (simp add: encode_unchecked_Ok sample_batch_def plan_ok_def group_ok_def sample_group_def liq_ok_def
      swap_ok_def sample_buy_def sample_swap_def)

lemma sample_short: "length (plan_bytes sample_batch) < USIZE_LIMIT"
  using plan_bytes_fit [of sample_batch] sample_encodes by (simp add: encode_unchecked_Ok USIZE_LIMIT_def)

theorem plan_roundtrip_witness: "decode_batch (plan_bytes sample_batch) = Ok (on_wire sample_batch)"
  using plan_roundtrip [OF sample_encodes] by simp

theorem plan_canonical_witness: "encode_unchecked (on_wire sample_batch) = Ok (plan_bytes sample_batch)"
proof -
  show ?thesis
    by (rule plan_canonical [OF sample_short decode_encoded [OF sample_encodes]]) (simp add: on_wire_def sample_batch_def)
qed

lemma plan_bytes_flags:
  "\<exists>rest. plan_bytes p = bp_flags p # rest \<and> (\<forall>f. plan_bytes (p\<lparr>bp_flags := f\<rparr>) = f # rest)"
  by (simp add: plan_bytes_def header_bytes_def to_be_bytes_u8)

lemma gov_flag_bits:
  assumes "f AND FLAG_GOV_EXEC = (0 :: u8)" and "f AND FLAG_GOV_SPELL = 0"
  shows "(f OR FLAG_GOV_EXEC) AND FLAG_GOV_EXEC \<noteq> 0" "(f OR FLAG_GOV_EXEC) AND FLAG_GOV_SPELL = 0"
    "(f OR FLAG_GOV_SPELL) AND FLAG_GOV_SPELL \<noteq> 0" "(f OR FLAG_GOV_SPELL) AND FLAG_GOV_EXEC = 0"
  using assms by (simp_all add: wire_flags bit.conj_disj_distrib2)

lemma gov_suffixed:
  assumes p: "plan_ok p" and s: "gov_suffix f s"
  obtains i sp where
    "plan_parse (plan_bytes (p\<lparr>bp_flags := f\<rparr>) @ s) =
       Ok \<lparr>wp_bytes = plan_bytes (p\<lparr>bp_flags := f\<rparr>) @ s, wp_header = wire_header (on_wire p\<lparr>bp_flags := f\<rparr>) i sp\<rparr>"
    and "parse_gov (plan_bytes (p\<lparr>bp_flags := f\<rparr>) @ s) f (length (plan_bytes (p\<lparr>bp_flags := f\<rparr>))) =
       Ok (i, sp, length (plan_bytes (p\<lparr>bp_flags := f\<rparr>) @ s))"
    and "decode_batch (plan_bytes (p\<lparr>bp_flags := f\<rparr>) @ s) = Ok (on_wire p\<lparr>bp_flags := f\<rparr>)"
proof -
  let ?q = "on_wire p\<lparr>bp_flags := f\<rparr>"
  have q: "?q = on_wire (p\<lparr>bp_flags := f\<rparr>)" by (simp add: on_wire_def)
  have ok: "plan_ok ?q" "on_wire ?q = ?q" "gov_suffix (bp_flags ?q) s" and same: "plan_bytes ?q = plan_bytes (p\<lparr>bp_flags := f\<rparr>)"
    using p s unfolding q on_wire_same by (simp_all add: plan_ok_def on_wire_def)
  show ?thesis
    by (rule plan_parse_complete [OF ok], rule that) (use decode_batch_complete [OF ok] in \<open>simp_all add: same\<close>)
qed

lemma suffix_taken:
  assumes "length (pre @ s) < USIZE_LIMIT"
  shows "take_at (pre @ s) (length pre) (length s) = Ok s"
  using assms reads_in [of pre s "[]"] by (simp add: take_at_Ok)

lemma gov_length:
  assumes "plan_ok p" and "length s \<le> 20"
  shows "length (plan_bytes p @ s) < USIZE_LIMIT"
  using plan_bytes_fit [OF assms(1)] assms(2) by (simp add: USIZE_LIMIT_def)

lemma parse_payload:
  assumes "plan_ok p" and "i \<le> PAYLOAD_ID_MAX" and "f AND FLAG_GOV_EXEC \<noteq> 0" and "f AND FLAG_GOV_SPELL = 0"
    and "parse_gov (plan_bytes p @ drop 3 (to_be_bytes i)) f (length (plan_bytes p)) = Ok (j, sp, n)"
  shows "j = Some i \<and> sp = None"
proof -
  have "take_at (plan_bytes p @ drop 3 (to_be_bytes i)) (length (plan_bytes p)) 5 = Ok (drop 3 (to_be_bytes i))"
    using suffix_taken [OF gov_length [OF assms(1), of "drop 3 (to_be_bytes i)"]] by simp
  then show ?thesis
    using assms(3-5) payload_bytes [OF assms(2)]
    by (auto simp: parse_gov_def payload_id_at_def rust numeral_3_eq_3)
qed

lemma parse_spell:
  assumes "plan_ok p" and "f AND FLAG_GOV_EXEC = 0" and "f AND FLAG_GOV_SPELL \<noteq> 0"
    and "parse_gov (plan_bytes p @ to_be_bytes a) f (length (plan_bytes p)) = Ok (j, sp, n)"
  shows "j = None \<and> sp = Some a"
proof -
  have "take_at (plan_bytes p @ to_be_bytes a) (length (plan_bytes p)) 20 = Ok (to_be_bytes a)"
    using suffix_taken [OF gov_length [OF assms(1), of "to_be_bytes a"]] by simp
  then show ?thesis
    using assms(2-4) by (auto simp: parse_gov_def addr_at_def rust)
qed

lemma gov_payload_attached:
  assumes p: "plan_ok p" "bp_flags p AND FLAG_GOV_EXEC = 0" "bp_flags p AND FLAG_GOV_SPELL = 0"
    and i: "i \<le> PAYLOAD_ID_MAX"
  shows "\<exists>b pl. with_gov_payload (plan_bytes p) i = Ok b \<and> plan_parse b = Ok pl \<and>
    ph_payload_id (wp_header pl) = Some i \<and> ph_spell (wp_header pl) = None \<and>
    decode_batch b = Ok (on_wire p\<lparr>bp_flags := bp_flags p OR FLAG_GOV_EXEC\<rparr>) \<and>
    (\<forall>a j. \<not> is_ok (with_gov_spell b a) \<and> \<not> is_ok (with_gov_payload b j))"
proof -
  let ?f = "bp_flags p OR FLAG_GOV_EXEC" and ?s = "drop 3 (to_be_bytes i)"
  note bits = gov_flag_bits [OF p(2,3)]
  obtain rest where rest: "plan_bytes p = bp_flags p # rest" "\<And>f. plan_bytes (p\<lparr>bp_flags := f\<rparr>) = f # rest"
    using plan_bytes_flags [of p] by blast
  have ok: "plan_ok (p\<lparr>bp_flags := ?f\<rparr>)" using p(1) by (simp add: plan_ok_def)
  have "gov_suffix ?f ?s" using bits by (simp add: gov_suffix_def)
  from gov_suffixed [OF p(1) this] obtain j sp where
    parse: "plan_parse (?f # rest @ ?s) =
      Ok \<lparr>wp_bytes = ?f # rest @ ?s, wp_header = wire_header (on_wire p\<lparr>bp_flags := ?f\<rparr>) j sp\<rparr>"
    and gov: "parse_gov (?f # rest @ ?s) ?f (length (?f # rest)) = Ok (j, sp, length (?f # rest @ ?s))"
    and dec: "decode_batch (?f # rest @ ?s) = Ok (on_wire p\<lparr>bp_flags := ?f\<rparr>)"
    unfolding rest(2) append_Cons by blast
  have "j = Some i \<and> sp = None"
    using parse_payload [OF ok i bits(1,2)] gov unfolding rest(2) append_Cons by blast
  then show ?thesis
    using i parse dec bits p(2,3)
    by (auto simp: with_gov_payload_def with_gov_spell_def rest(1) no_gov wire_header_def)
qed

lemma gov_spell_attached:
  assumes p: "plan_ok p" "bp_flags p AND FLAG_GOV_EXEC = 0" "bp_flags p AND FLAG_GOV_SPELL = 0"
    and a: "a \<noteq> 0"
  shows "\<exists>b pl. with_gov_spell (plan_bytes p) a = Ok b \<and> plan_parse b = Ok pl \<and>
    ph_payload_id (wp_header pl) = None \<and> ph_spell (wp_header pl) = Some a \<and>
    decode_batch b = Ok (on_wire p\<lparr>bp_flags := bp_flags p OR FLAG_GOV_SPELL\<rparr>) \<and>
    (\<forall>a j. \<not> is_ok (with_gov_spell b a) \<and> \<not> is_ok (with_gov_payload b j))"
proof -
  let ?f = "bp_flags p OR FLAG_GOV_SPELL" and ?s = "to_be_bytes a"
  note bits = gov_flag_bits [OF p(2,3)]
  obtain rest where rest: "plan_bytes p = bp_flags p # rest" "\<And>f. plan_bytes (p\<lparr>bp_flags := f\<rparr>) = f # rest"
    using plan_bytes_flags [of p] by blast
  have ok: "plan_ok (p\<lparr>bp_flags := ?f\<rparr>)" using p(1) by (simp add: plan_ok_def)
  have "gov_suffix ?f ?s" using bits by (simp add: gov_suffix_def)
  from gov_suffixed [OF p(1) this] obtain j sp where
    parse: "plan_parse (?f # rest @ ?s) =
      Ok \<lparr>wp_bytes = ?f # rest @ ?s, wp_header = wire_header (on_wire p\<lparr>bp_flags := ?f\<rparr>) j sp\<rparr>"
    and gov: "parse_gov (?f # rest @ ?s) ?f (length (?f # rest)) = Ok (j, sp, length (?f # rest @ ?s))"
    and dec: "decode_batch (?f # rest @ ?s) = Ok (on_wire p\<lparr>bp_flags := ?f\<rparr>)"
    unfolding rest(2) append_Cons by blast
  have "j = None \<and> sp = Some a"
    using parse_spell [OF ok bits(4,3)] gov unfolding rest(2) append_Cons by blast
  then show ?thesis
    using a parse dec bits p(2,3)
    by (auto simp: with_gov_payload_def with_gov_spell_def rest(1) no_gov wire_header_def)
qed

text \<open>
  C28. A governance action can be attached to every packed plan, once: the extended bytes parse, the header
  then carries exactly that payload id or that spell, the rest of the plan decodes unchanged, and a second
  action is refused.
\<close>
theorem gov_action_roundtrip:
  assumes "encode_unchecked p = Ok b"
  shows "(i \<le> PAYLOAD_ID_MAX \<longrightarrow>
      (\<exists>b' pl. with_gov_payload b i = Ok b' \<and> plan_parse b' = Ok pl \<and>
        ph_payload_id (wp_header pl) = Some i \<and> ph_spell (wp_header pl) = None \<and>
        decode_batch b' = Ok (on_wire p\<lparr>bp_flags := bp_flags p OR FLAG_GOV_EXEC\<rparr>) \<and>
        (\<forall>a j. \<not> is_ok (with_gov_spell b' a) \<and> \<not> is_ok (with_gov_payload b' j)))) \<and>
    (a \<noteq> 0 \<longrightarrow>
      (\<exists>b' pl. with_gov_spell b a = Ok b' \<and> plan_parse b' = Ok pl \<and>
        ph_payload_id (wp_header pl) = None \<and> ph_spell (wp_header pl) = Some a \<and>
        decode_batch b' = Ok (on_wire p\<lparr>bp_flags := bp_flags p OR FLAG_GOV_SPELL\<rparr>) \<and>
        (\<forall>a j. \<not> is_ok (with_gov_spell b' a) \<and> \<not> is_ok (with_gov_payload b' j))))"
proof -
  have p: "plan_ok p" "bp_flags p AND FLAG_GOV_EXEC = 0" "bp_flags p AND FLAG_GOV_SPELL = 0" and b: "b = plan_bytes p"
    using assms by (simp_all add: encode_unchecked_Ok no_gov)
  show ?thesis unfolding b using gov_payload_attached [OF p] gov_spell_attached [OF p] by blast
qed

theorem gov_action_roundtrip_witness:
  "(\<exists>b. with_gov_payload (plan_bytes sample_batch) 5 = Ok b) \<and> (\<exists>b. with_gov_spell (plan_bytes sample_batch) 6 = Ok b)"
proof -
  have "(5 :: u64) \<le> PAYLOAD_ID_MAX" and "(6 :: address) \<noteq> 0" by (simp_all add: PAYLOAD_ID_MAX_def)
  then show ?thesis using gov_action_roundtrip [OF sample_encodes, of 5 6] by blast
qed

end
