(* ===== verification/Plan_Validate.thy ===== *)
theory Plan_Validate
  imports Plan_Encode Flash
begin

unbundle bit_operations_syntax

text \<open>
  The invariants the encoder enforces before it packs a plan, \<^verbatim>\<open>crates/liq-plan/src/validate.rs\<close>.
  \<^verbatim>\<open>keccak256\<close> of the ABI-encoded \<^verbatim>\<open>MarketParams\<close> is third-party code: it is the parameter \<open>hash\<close>, a function
  of the five fields. A counter that only counts the groups of a list in memory is a natural number.
\<close>

section \<open>Control flow\<close>

definition fail_if :: "bool \<Rightarrow> 'e \<Rightarrow> (unit, 'e) result" where
  "fail_if c e = (if c then Err e else Ok ())"

fun try_each :: "('a \<Rightarrow> (unit, 'e) result) \<Rightarrow> 'a list \<Rightarrow> (unit, 'e) result" where
  "try_each f [] = Ok ()"
| "try_each f (x # xs) = and_then (f x) (\<lambda>_. try_each f xs)"

definition has_flag :: "swap_leg \<Rightarrow> u8 \<Rightarrow> bool" where
  "has_flag s flag \<longleftrightarrow> sl_flags s AND flag \<noteq> 0"

section \<open>Liquidation legs\<close>

definition nonzero :: "address \<Rightarrow> string \<Rightarrow> (unit, encode_error) result" where
  "nonzero a field = fail_if (a = 0) (ZeroAddress field)"

definition pin_v4 :: "validate_ctx \<Rightarrow> address \<Rightarrow> u16 \<Rightarrow> address \<Rightarrow> (unit, encode_error) result" where
  "pin_v4 ctx spoke i expected =
     (case v4_pin ctx spoke i of
        None \<Rightarrow> Err (LegError (V4ReserveUnpinned spoke i))
      | Some pinned \<Rightarrow>
          if pinned = expected then Ok ()
          else Err (LegError (V4ReserveMismatch spoke i pinned expected)))"

definition morpho_id ::
  "(address \<Rightarrow> address \<Rightarrow> address \<Rightarrow> address \<Rightarrow> u256 \<Rightarrow> b256) \<Rightarrow> morpho_market_pin \<Rightarrow> b256" where
  "morpho_id hash pin =
     hash (mp_loan_token pin) (mp_collateral_token pin) (mp_oracle pin) (mp_irm pin) (mp_lltv pin)"

definition check_morpho ::
  "(address \<Rightarrow> address \<Rightarrow> address \<Rightarrow> address \<Rightarrow> u256 \<Rightarrow> b256) \<Rightarrow> validate_ctx \<Rightarrow> b256 \<Rightarrow> address \<Rightarrow> address \<Rightarrow>
   address \<Rightarrow> (unit, encode_error) result" where
  "check_morpho hash ctx i market debt coll =
     and_then (ok_or (morpho_pin ctx i) (LegError (MorphoIdUnknown i))) (\<lambda>pin.
     if mp_morpho pin \<noteq> market then Err (ZeroAddress ''morpho singleton'')
     else
       let hashed = morpho_id hash pin in
       if hashed \<noteq> mp_id pin then Err (LegError (MorphoIdHashMismatch i))
       else if mp_loan_token pin \<noteq> debt \<or> mp_collateral_token pin \<noteq> coll then
         Err (LegError (MorphoTokenMismatch i (mp_loan_token pin) (mp_collateral_token pin) debt coll))
       else Ok ())"

definition check_compound ::
  "validate_ctx \<Rightarrow> address \<Rightarrow> address \<Rightarrow> u8 \<Rightarrow> (unit, encode_error) result" where
  "check_compound ctx market ctoken_collateral is_cether =
     and_then (ok_or (compound_pin ctx market ctoken_collateral)
       (LegError (CompoundUnpinned market ctoken_collateral))) (\<lambda>pin.
     if cp_debt_ctoken pin \<noteq> market then Err (LegError (CompoundMarketMismatch (cp_debt_ctoken pin) market))
     else if cp_ctoken_collateral pin \<noteq> ctoken_collateral then
       Err (LegError (CompoundCTokenMismatch (cp_ctoken_collateral pin) ctoken_collateral))
     else if cp_is_cether pin \<noteq> is_cether then
       Err (LegError (CompoundCEtherMismatch (cp_is_cether pin) is_cether))
     else Ok ())"

definition check_liquity ::
  "validate_ctx \<Rightarrow> address \<Rightarrow> u256 \<Rightarrow> address \<Rightarrow> (unit, encode_error) result" where
  "check_liquity ctx market trove_id borrower =
     and_then (ok_or (liquity_pin ctx trove_id) (LegError (LiquityUnpinned trove_id))) (\<lambda>pin.
     if lp_trove_manager pin \<noteq> market then Err (LegError (LiquityMarketMismatch (lp_trove_manager pin) market))
     else if lp_trove_id pin \<noteq> trove_id then Err (LegError (LiquityTroveMismatch (lp_trove_id pin) trove_id))
     else if lp_borrower pin \<noteq> 0 \<and> lp_borrower pin \<noteq> borrower then
       Err (LegError (LiquityBorrowerMismatch (lp_borrower pin) borrower))
     else Ok ())"

definition check_fluid :: "u8 \<Rightarrow> u8 \<Rightarrow> u256 \<Rightarrow> u256 \<Rightarrow> u256 \<Rightarrow> (unit, encode_error) result" where
  "check_fluid kind flags col_per_unit_debt debt_shares_min_per_token col_per_share_min =
     (if \<not> (FLUID_T1 \<le> kind \<and> kind \<le> FLUID_T4) then Err (LegError (FluidBadKind kind))
      else if flags AND NOT FLUID_FLAGS \<noteq> 0 then Err (LegError (FluidBadFlags flags))
      else if col_per_unit_debt = 0 then Err (LegError FluidZeroColPer)
      else
        let smart_debt = (kind = FLUID_T3 \<or> kind = FLUID_T4);
            smart_col = (kind = FLUID_T2 \<or> kind = FLUID_T4)
        in
          if smart_debt = (debt_shares_min_per_token = 0) \<or> smart_col = (col_per_share_min = 0)
          then Err (LegError (FluidPerShare kind))
          else if (\<not> smart_debt \<and> flags AND FLUID_DEBT_TOKEN1 \<noteq> 0) \<or> (\<not> smart_col \<and> flags AND FLUID_COL_TOKEN1 \<noteq> 0)
          then Err (LegError (FluidBadFlags flags))
          else Ok ())"

definition col_per_unit_debt_1e18 :: "u256 \<Rightarrow> u256 \<Rightarrow> (u256, encode_error) result" where
  "col_per_unit_debt_1e18 actual_col actual_debt =
     (if actual_debt = 0 then Err (LegError FluidColPerConvert)
      else map_err (\<lambda>_. LegError FluidColPerConvert) (mul_div actual_col WAD actual_debt Down))"

definition check_tail ::
  "(address \<Rightarrow> address \<Rightarrow> address \<Rightarrow> address \<Rightarrow> u256 \<Rightarrow> b256) \<Rightarrow> validate_ctx \<Rightarrow> flash_group \<Rightarrow> liq_leg \<Rightarrow>
   (unit, encode_error) result" where
  "check_tail hash ctx g l =
     (let shape = LegError (TailShape (ll_adapter l)) in
      case ll_adapter l of
        EA_AaveV3 \<Rightarrow> (case ll_tail l of Tail_None \<Rightarrow> Ok () | _ \<Rightarrow> Err shape)
      | EA_SiloV2 \<Rightarrow> (case ll_tail l of Tail_None \<Rightarrow> Ok () | _ \<Rightarrow> Err shape)
      | EA_AaveV4 \<Rightarrow>
          (case ll_tail l of
             Tail_AaveV4 c d \<Rightarrow>
               and_then (pin_v4 ctx (ll_market l) c (ll_collateral_asset l)) (\<lambda>_.
               pin_v4 ctx (ll_market l) d (fg_debt_asset g))
           | _ \<Rightarrow> Err shape)
      | EA_MorphoBlue \<Rightarrow>
          (case ll_tail l of
             Tail_Morpho i \<Rightarrow> check_morpho hash ctx i (ll_market l) (fg_debt_asset g) (ll_collateral_asset l)
           | _ \<Rightarrow> Err shape)
      | EA_EulerV2 \<Rightarrow>
          (case ll_tail l of Tail_Euler _ vault \<Rightarrow> fail_if (vault = 0) (LegError EulerZeroVault) | _ \<Rightarrow> Err shape)
      | EA_LiquityV2 \<Rightarrow>
          (case ll_tail l of
             Tail_Liquity i \<Rightarrow>
               if i = 0 then Err (LegError LiquityZeroTrove)
               else check_liquity ctx (ll_market l) i (ll_borrower l)
           | _ \<Rightarrow> Err shape)
      | EA_Fluid \<Rightarrow>
          (case ll_tail l of
             Tail_Fluid kind flags cpd dsm csm \<Rightarrow> check_fluid kind flags cpd dsm csm
           | _ \<Rightarrow> Err shape)
      | EA_Gearbox \<Rightarrow>
          (case ll_tail l of
             Tail_Gearbox m _ \<Rightarrow> fail_if (m = 0) (LegError GearboxZeroMinSeized)
           | _ \<Rightarrow> Err shape)
      | EA_CompoundV2 \<Rightarrow>
          (case ll_tail l of
             Tail_CompoundV2 c e \<Rightarrow>
               if c = 0 then Err (LegError CompoundZeroCToken)
               else if e > 1 then Err (LegError CompoundBadFlag)
               else check_compound ctx (ll_market l) c e
           | _ \<Rightarrow> Err shape))"

definition validate_leg ::
  "(address \<Rightarrow> address \<Rightarrow> address \<Rightarrow> address \<Rightarrow> u256 \<Rightarrow> b256) \<Rightarrow> validate_ctx \<Rightarrow> flash_group \<Rightarrow> bool \<Rightarrow> liq_leg \<Rightarrow>
   (unit, encode_error) result" where
  "validate_leg hash ctx g reward_only l =
     and_then (nonzero (ll_market l) ''market'') (\<lambda>_.
     and_then (nonzero (ll_borrower l) ''borrower'') (\<lambda>_.
     and_then (nonzero (ll_collateral_asset l) ''collateralAsset'') (\<lambda>_.
     if ll_protocol_pull l = 0 \<and> ll_adapter l \<noteq> EA_LiquityV2 \<and> \<not> reward_only
     then Err (GroupError (ZeroPull (ll_protocol_pull l)))
     else check_tail hash ctx g l)))"

section \<open>Swap legs\<close>

fun chunks :: "nat \<Rightarrow> 'a list \<Rightarrow> 'a list list" where
  "chunks n [] = []"
| "chunks n (x # xs) = (if n = 0 then [] else take n (x # xs) # chunks n (drop n (x # xs)))"

definition bad_chain :: "string \<Rightarrow> ('a, encode_error) result" where
  "bad_chain why = Err (SwapError (BadChain why))"

text \<open>The byte of hop \<open>h\<close> at \<open>k\<close>, and the extra a hop needs: \<open>None\<close> is the \<^verbatim>\<open>continue\<close> of a hop without one.\<close>

definition hop_byte :: "u8 list \<Rightarrow> nat \<Rightarrow> nat \<Rightarrow> u8" where
  "hop_byte data h k =
     (case get data (usize_saturating_add (usize_saturating_mul h 4) k) of Some v \<Rightarrow> v | None \<Rightarrow> 0)"

definition hop_extra :: "u8 \<Rightarrow> u8 \<Rightarrow> u8 \<Rightarrow> u8 \<Rightarrow> (nat option, encode_error) result" where
  "hop_extra kind p0 p1 p2 =
     (if (kind = CHAIN_HOP_V3 \<or> kind = CHAIN_HOP_V3_SUSHI \<or> kind = CHAIN_HOP_V3_PANCAKE) \<and>
         \<not> (p0 = 0 \<and> p1 = 0 \<and> p2 = 0) then Ok None
      else if kind = CHAIN_HOP_V2 \<and> p0 = 0 \<and> p1 = 0 \<and> p2 \<le> 1 then Ok None
      else if kind = CHAIN_HOP_V4 then Ok (Some V4_KEY_LEN)
      else if kind = CHAIN_HOP_CURVE \<or> kind = CHAIN_HOP_CURVE_CRYPTO then Ok (Some CHAIN_CURVE_EXTRA)
      else if kind = CHAIN_HOP_BALANCER then Ok (Some BALANCER_POOL_ID_LEN)
      else if kind = CHAIN_HOP_FLUID then Ok (Some FLUID_LEG_LEN)
      else bad_chain ''hop'')"

fun chain_hops :: "u8 list \<Rightarrow> nat \<Rightarrow> nat list \<Rightarrow> nat \<Rightarrow> bool \<Rightarrow> (nat \<times> bool, encode_error) result" where
  "chain_hops data base [] extras exact_out_ok = Ok (extras, exact_out_ok)"
| "chain_hops data base (h # hs) extras exact_out_ok =
     (let kind = hop_byte data h 1; p0 = hop_byte data h 2; p1 = hop_byte data h 3; p2 = hop_byte data h 4 in
      and_then (hop_extra kind p0 p1 p2) (\<lambda>extra.
      case extra of
        None \<Rightarrow> chain_hops data base hs extras exact_out_ok
      | Some len \<Rightarrow>
          let off = push_bit 16 (unat p0) OR push_bit 8 (unat p1) OR unat p2 in
          if off < base \<or> usize_saturating_add off len > length data then bad_chain ''extra''
          else chain_hops data base hs (usize_saturating_add extras len) False))"

definition check_chain :: "swap_leg \<Rightarrow> (unit, encode_error) result" where
  "check_chain s =
     (case sl_data s of
        [] \<Rightarrow> bad_chain ''empty''
      | first # _ \<Rightarrow>
          let n = unat first in
          if n = 0 \<or> n > CHAIN_MAX_HOPS then bad_chain ''hop count''
          else
            and_then (ok_or
              (Option.bind (usize_mul n 4) (\<lambda>h.
               Option.bind (usize_add h 1) (\<lambda>h.
               usize_add h (usize_saturating_mul (n - 1) 20))))
              (SwapError (BadChain ''length''))) (\<lambda>base.
            if length (sl_data s) < base then bad_chain ''length''
            else
              and_then (chain_hops (sl_data s) base [0..<n] 0 True) (\<lambda>(extras, exact_out_ok).
              if length (sl_data s) \<noteq> usize_saturating_add base extras then bad_chain ''length''
              else if has_flag s LEG_EXACT_OUT \<and> \<not> exact_out_ok then
                bad_chain ''exact output through a hop with an extra (V4, Curve, Balancer, Fluid)''
              else
                let from = usize_saturating_add (usize_saturating_mul n 4) 1;
                    mids = take (base - from) (drop from (sl_data s))
                in try_each (\<lambda>t.
                     if list_all (\<lambda>v. v = 0) t \<or> t = to_be_bytes (sl_token_in s) \<or> t = to_be_bytes (sl_token_out s)
                     then bad_chain ''intermediate token'' else Ok ()) (chunks 20 mids))))"

definition check_swap :: "swap_leg \<Rightarrow> (unit, encode_error) result" where
  "check_swap s =
     and_then (nonzero (sl_token_in s) ''tokenIn'') (\<lambda>_.
     and_then (nonzero (sl_token_out s) ''tokenOut'') (\<lambda>_.
     let v = sl_venue s; len = length (sl_data s); exact_out = has_flag s LEG_EXACT_OUT in
     if v = VENUE_UNIV3_POOL then
       if len \<noteq> 20 \<and> len \<noteq> 21 then Err (SwapError (BadPoolDataLen len))
       else case get (sl_data s) 20 of
         Some fid \<Rightarrow> fail_if (fid = V3_FACTORY_UNISWAP \<or> fid > V3_FACTORY_PANCAKE) (SwapError (BadV3Factory fid))
       | None \<Rightarrow> Ok ()
     else if v = VENUE_ROUTER then fail_if (len < 20) (SwapError (BadRouterDataLen len))
     else if v = VENUE_UNIV2_POOL then
       if len \<noteq> 21 then Err (SwapError (BadV2DataLen len))
       else case get (sl_data s) 20 of
         Some fid \<Rightarrow> fail_if (fid > V2_FACTORY_SUSHI) (SwapError (BadV2Factory fid))
       | None \<Rightarrow> Ok ()
     else if v = VENUE_BALANCER then fail_if (len \<noteq> BALANCER_POOL_ID_LEN) (SwapError (BadBalancerData len))
     else if v = VENUE_FLUID then
       fail_if (len \<noteq> FLUID_LEG_LEN \<or> (case get (sl_data s) 20 of None \<Rightarrow> True | Some w \<Rightarrow> w > 1))
         (SwapError (BadFluidData len))
     else if v = VENUE_CURVE_POOL \<or> v = VENUE_CURVE_CRYPTO_POOL then
       if len \<noteq> 23 then Err (SwapError (BadCurveDataLen len)) else fail_if exact_out (SwapError CurveExactOut)
     else if v = VENUE_UNWRAP_4626 then
       if len \<noteq> 20 \<or> sl_data s \<noteq> to_be_bytes (sl_token_in s) then Err (SwapError (BadUnwrapData len))
       else fail_if exact_out (SwapError UnwrapExactOut)
     else if v = VENUE_CURVE_LP_ONE_COIN then
       if len \<noteq> 22 \<or> take 20 (sl_data s) \<noteq> to_be_bytes (sl_token_in s) then Err (SwapError (BadUnwrapData len))
       else fail_if exact_out (SwapError UnwrapExactOut)
     else if v = VENUE_PENDLE_PT_REDEEM \<or> v = VENUE_PENDLE_MARKET_SELL then
       if len \<noteq> 20 \<or> list_all (\<lambda>w. w = 0) (sl_data s) then Err (SwapError (BadUnwrapData len))
       else fail_if exact_out (SwapError UnwrapExactOut)
     else if v = VENUE_UNIV4_POOL then fail_if (len \<noteq> V4_KEY_LEN) (SwapError (BadPoolDataLen len))
     else if v = VENUE_CHAIN then check_chain s
     else Err (SwapError (UnknownVenue v))))"

section \<open>Groups\<close>

definition reward_group :: "flash_group \<Rightarrow> (unit, encode_error) result" where
  "reward_group g =
     (if fg_flash_amount g \<noteq> 0 \<or> fg_flash_source g \<noteq> 0 \<or> fg_fee_bps g \<noteq> 0 then Err (GroupError RewardGroupBorrows)
      else if fg_repay_swaps g \<noteq> [] then Err (GroupError RewardGroupRepays)
      else case find (\<lambda>l. ll_protocol_pull l \<noteq> 0) (fg_liqs g) of
        Some l \<Rightarrow> Err (GroupError (RewardGroupPulls (ll_protocol_pull l)))
      | None \<Rightarrow> Ok ())"

definition flash_swap_group :: "flash_group \<Rightarrow> (unit, encode_error) result" where
  "flash_swap_group g =
     (if length (fg_liqs g) \<noteq> 1 then Err (GroupError (FlashSwapLegs (length (fg_liqs g))))
      else if fg_fee_bps g \<noteq> 0 then Err (GroupError (UnpriceableFee (fg_provider g) (fg_fee_bps g)))
      else try_each (\<lambda>s.
        if has_flag s LEG_EXACT_OUT \<or> (\<not> is_unwrap_venue (sl_venue s) \<and> sl_token_out s = fg_debt_asset g)
        then Err (GroupError (FlashSwapRepaysDebt (fg_debt_asset g)))
        else fail_if (sl_venue s = VENUE_UNIV3_POOL \<and> length (sl_data s) \<ge> 20 \<and>
               take 20 (sl_data s) = to_be_bytes (fg_flash_source g))
             (GroupError (FlashSwapLegOnLender (fg_flash_source g)))) (fg_repay_swaps g))"

definition ties_ok :: "flash_group \<Rightarrow> (unit, encode_error) result" where
  "ties_ok g =
     (let legs = length (fg_liqs g) in
      try_each (\<lambda>s.
        let takes = has_flag s LEG_TAKE_BALANCE in
        case leg_tie (sl_flags s) of
          Some tie \<Rightarrow>
            if tie \<ge> legs then Err (GroupError (TieOutOfRange tie legs))
            else fail_if takes (GroupError (TiedTakeBalance (sl_token_in s)))
        | None \<Rightarrow>
            if legs > 1 \<and> \<not> takes then
              if legs > LEG_TIE_MAX then Err (GroupError (TooManyTiedLegs legs LEG_TIE_MAX))
              else Err (GroupError (UntiedRepay (sl_token_in s) legs))
            else Ok ()) (fg_repay_swaps g))"

fun unwraps_first_loop :: "bool \<Rightarrow> swap_leg list \<Rightarrow> (unit, encode_error) result" where
  "unwraps_first_loop seen_other [] = Ok ()"
| "unwraps_first_loop seen_other (s # ss) =
     (if is_unwrap_venue (sl_venue s) then
        if seen_other then Err (GroupError UnwrapNotFirst) else unwraps_first_loop seen_other ss
      else unwraps_first_loop True ss)"

definition unwraps_first :: "swap_leg list \<Rightarrow> (unit, encode_error) result" where
  "unwraps_first blob = unwraps_first_loop False blob"

definition all_swaps :: "batch_plan \<Rightarrow> swap_leg list" where
  "all_swaps p = concat (map fg_repay_swaps (bp_groups p)) @ bp_profit_swaps p"

definition unwrap_outputs_closed ::
  "batch_plan \<Rightarrow> flash_group \<Rightarrow> address \<Rightarrow> (unit, encode_error) result" where
  "unwrap_outputs_closed p g weth =
     try_each (\<lambda>u.
       let out = sl_token_out u in
       if out = fg_debt_asset g \<or> out = weth then Ok ()
       else fail_if (\<not> list_ex (\<lambda>s. sl_token_in s = out \<and> sl_token_out s = weth \<and> has_flag s LEG_TAKE_BALANCE \<and>
              \<not> is_unwrap_venue (sl_venue s)) (all_swaps p))
            (GroupError (UnwrapOutputUnclosed out)))
       (filter (\<lambda>s. is_unwrap_venue (sl_venue s)) (fg_repay_swaps g))"

fun exact_out_first_loop :: "address list \<Rightarrow> swap_leg list \<Rightarrow> (unit, encode_error) result" where
  "exact_out_first_loop taken [] = Ok ()"
| "exact_out_first_loop taken (s # ss) =
     (if has_flag s LEG_TAKE_BALANCE then exact_out_first_loop (taken @ [sl_token_in s]) ss
      else if sl_token_in s \<in> set taken then Err (GroupError (SpentAfterTakeBalance (sl_token_in s)))
      else exact_out_first_loop taken ss)"

definition assert_exact_out_first :: "swap_leg list \<Rightarrow> (unit, encode_error) result" where
  "assert_exact_out_first blob = exact_out_first_loop [] blob"

fun sum_pull :: "u128 \<Rightarrow> liq_leg list \<Rightarrow> (u128, encode_error) result" where
  "sum_pull a [] = Ok a"
| "sum_pull a (l # ls) = and_then (ok_or (checked_add a (ll_protocol_pull l)) TooManyLegs) (\<lambda>a. sum_pull a ls)"

fun sum_exact_out :: "u128 \<Rightarrow> swap_leg list \<Rightarrow> (u128, encode_error) result" where
  "sum_exact_out a [] = Ok a"
| "sum_exact_out a (s # ss) =
     (if has_flag s LEG_EXACT_OUT
      then and_then (ok_or (checked_add a (sl_amount s)) TooManyLegs) (\<lambda>a. sum_exact_out a ss)
      else sum_exact_out a ss)"

definition leg_swaps :: "flash_group \<Rightarrow> nat \<Rightarrow> swap_leg list" where
  "leg_swaps g leg =
     filter (\<lambda>s. case leg_tie (sl_flags s) of None \<Rightarrow> length (fg_liqs g) = 1 | Some t \<Rightarrow> t = leg) (fg_repay_swaps g)"

definition overshoots :: "flash_group \<Rightarrow> nat \<Rightarrow> liq_leg \<Rightarrow> bool" where
  "overshoots g leg l \<longleftrightarrow>
     list_ex (\<lambda>s. sl_token_out s = fg_debt_asset g \<and> sl_flags s AND (LEG_EXACT_OUT OR LEG_TAKE_BALANCE) = 0) (leg_swaps g leg) \<or>
     list_ex (\<lambda>s. is_unwrap_venue (sl_venue s) \<and> sl_token_in s = ll_collateral_asset l \<and>
       sl_token_out s = fg_debt_asset g) (fg_repay_swaps g) \<or>
     ll_collateral_asset l = fg_debt_asset g"

definition carries_premium :: "flash_group \<Rightarrow> nat \<Rightarrow> liq_leg \<Rightarrow> bool" where
  "carries_premium g leg l \<longleftrightarrow>
     overshoots g leg l \<or>
     list_ex (\<lambda>s. has_flag s LEG_EXACT_OUT \<and>
       (sl_venue s = VENUE_UNIV3_POOL \<or> sl_venue s = VENUE_UNIV2_POOL \<or> sl_venue s = VENUE_UNIV4_POOL \<or>
        sl_venue s = VENUE_BALANCER \<or> sl_venue s = VENUE_FLUID \<or> sl_venue s = VENUE_CHAIN)) (leg_swaps g leg)"

definition size_leg :: "flash_group \<Rightarrow> u256 \<Rightarrow> nat \<times> liq_leg \<Rightarrow> (unit, encode_error) result" where
  "size_leg g fee = (\<lambda>(leg, l).
     and_then (sum_exact_out 0 (leg_swaps g leg)) (\<lambda>exact_out.
     let pull = ll_protocol_pull l in
     if exact_out > pull then Err (GroupError (UnderSeizure leg exact_out pull))
     else if exact_out \<noteq> pull \<and> \<not> overshoots g leg l then Err (GroupError (RepayNotSizedToPull leg exact_out pull))
     else fail_if (fee \<noteq> 0 \<and> \<not> carries_premium g leg l) (GroupError (PremiumUncovered leg))))"

definition size_repay_to_pull :: "flash_group \<Rightarrow> (unit, encode_error) result" where
  "size_repay_to_pull g =
     and_then (sum_pull 0 (fg_liqs g)) (\<lambda>pull.
     if fg_flash_amount g < pull then Err (GroupError (FlashShort (fg_flash_amount g) pull))
     else if fg_provider g = FP_UniV3Swap then Ok ()
     else
       and_then (ok_or (fee_amount (fg_provider g) (ucast (fg_flash_amount g)) (fg_fee_bps g))
         (GroupError (UnpriceableFee (fg_provider g) (fg_fee_bps g)))) (\<lambda>fee.
       and_then (ok_or (try_narrow fee :: u128 option) (GroupError PremiumOverflow)) (\<lambda>_.
       try_each (size_leg g fee) (enumerate 0 (fg_liqs g)))))"

definition has_exact_in_repay :: "flash_group \<Rightarrow> bool" where
  "has_exact_in_repay g \<longleftrightarrow>
     list_ex (\<lambda>s. sl_token_out s = fg_debt_asset g \<and>
       (sl_flags s AND (LEG_EXACT_OUT OR LEG_TAKE_BALANCE) = 0 \<or> is_unwrap_venue (sl_venue s))) (fg_repay_swaps g)"

definition surplus_debt_routed :: "batch_plan \<Rightarrow> flash_group \<Rightarrow> address \<Rightarrow> (unit, encode_error) result" where
  "surplus_debt_routed p g weth =
     and_then (sum_pull 0 (fg_liqs g)) (\<lambda>pull.
     if fg_debt_asset g = weth \<or> (fg_flash_amount g \<le> pull \<and> \<not> has_exact_in_repay g) then Ok ()
     else
       let routed = list_ex (\<lambda>s. sl_token_in s = fg_debt_asset g \<and> sl_token_out s = weth \<and>
             has_flag s LEG_TAKE_BALANCE) (bp_profit_swaps p)
       in if routed then Ok ()
          else Err (GroupError (SurplusDebtUnrouted (fg_debt_asset g) (fg_flash_amount g) pull)))"

definition takes_of :: "swap_leg list \<Rightarrow> address \<Rightarrow> nat" where
  "takes_of blob token = length (filter (\<lambda>s. sl_token_in s = token \<and> has_flag s LEG_TAKE_BALANCE) blob)"

definition close_collateral :: "batch_plan \<Rightarrow> address \<Rightarrow> flash_group \<Rightarrow> liq_leg \<Rightarrow> (unit, encode_error) result" where
  "close_collateral p weth g l =
     (let own = takes_of (fg_repay_swaps g) (ll_collateral_asset l);
          closers = (if own > 0 then own else takes_of (bp_profit_swaps p) (ll_collateral_asset l));
          need = (if ll_collateral_asset l \<noteq> weth then 1 else 0)
      in fail_if (closers \<noteq> need) (BadCollateralClosure (ll_collateral_asset l) closers need))"

definition close_collaterals :: "batch_plan \<Rightarrow> address \<Rightarrow> (unit, encode_error) result" where
  "close_collaterals p weth = try_each (\<lambda>g. try_each (close_collateral p weth g) (fg_liqs g)) (bp_groups p)"

fun dup_source :: "address \<Rightarrow> flash_group list \<Rightarrow> flash_provider option" where
  "dup_source debt [] = None"
| "dup_source debt (a # rest) =
     (if fg_debt_asset a = debt \<and>
         list_ex (\<lambda>b. fg_debt_asset b = debt \<and> fg_provider a = fg_provider b \<and> fg_flash_source a = fg_flash_source b) rest
      then Some (fg_provider a) else dup_source debt rest)"

definition cascade_ok :: "flash_group list \<Rightarrow> (unit, encode_error) result" where
  "cascade_ok groups =
     try_each (\<lambda>g0.
       let debt = fg_debt_asset g0; n = length (filter (\<lambda>g. fg_debt_asset g = debt) groups) in
       if n > 3 then Err (TooManySourcesForDebt debt n)
       else if n > 1 then
         (case dup_source debt groups of
            Some provider \<Rightarrow> Err (DuplicateSourceForDebt debt provider)
          | None \<Rightarrow> Ok ())
       else Ok ()) groups"

definition validate_group ::
  "(address \<Rightarrow> address \<Rightarrow> address \<Rightarrow> address \<Rightarrow> u256 \<Rightarrow> b256) \<Rightarrow> batch_plan \<Rightarrow> validate_ctx \<Rightarrow> flash_group \<Rightarrow>
   (unit, encode_error) result" where
  "validate_group hash p ctx g =
     (let reward_only = (fg_provider g = FP_None) in
      and_then (if reward_only then reward_group g else nonzero (fg_flash_source g) ''flashSource'') (\<lambda>_.
      and_then (if fg_provider g = FP_UniV3Swap then flash_swap_group g else Ok ()) (\<lambda>_.
      and_then (nonzero (fg_debt_asset g) ''debtAsset'') (\<lambda>_.
      if fg_liqs g = [] then Err (GroupError NoLegs)
      else
        and_then (try_each (validate_leg hash ctx g reward_only) (fg_liqs g)) (\<lambda>_.
        and_then (try_each check_swap (fg_repay_swaps g)) (\<lambda>_.
        and_then (ties_ok g) (\<lambda>_.
        and_then (assert_exact_out_first (fg_repay_swaps g)) (\<lambda>_.
        and_then (unwraps_first (fg_repay_swaps g)) (\<lambda>_.
        let into_debt = (\<lambda>t. list_ex (\<lambda>s. sl_token_in s = t \<and> sl_token_out s = fg_debt_asset g) (fg_repay_swaps g)) in
        if list_ex (\<lambda>s. sl_token_out s \<noteq> fg_debt_asset g \<and> sl_token_out s \<noteq> vc_weth ctx \<and>
             \<not> into_debt (sl_token_out s) \<and> \<not> is_unwrap_venue (sl_venue s)) (fg_repay_swaps g)
        then Err (GroupError (RepayTargetMismatch (fg_debt_asset g)))
        else case find (\<lambda>s. has_flag s LEG_EXACT_OUT \<and> sl_token_out s \<noteq> fg_debt_asset g) (fg_repay_swaps g) of
          Some s \<Rightarrow> Err (GroupError (ExactOutNotDebt (sl_token_out s) (fg_debt_asset g)))
        | None \<Rightarrow>
            and_then (unwrap_outputs_closed p g (vc_weth ctx)) (\<lambda>_.
            and_then (size_repay_to_pull g) (\<lambda>_.
            surplus_debt_routed p g (vc_weth ctx))))))))))))"

definition validate ::
  "(address \<Rightarrow> address \<Rightarrow> address \<Rightarrow> address \<Rightarrow> u256 \<Rightarrow> b256) \<Rightarrow> batch_plan \<Rightarrow> validate_ctx \<Rightarrow>
   (unit, encode_error) result" where
  "validate hash p ctx =
     (if bp_groups p = [] then Err NoGroups
      else if vc_weth ctx = 0 then Err (ZeroAddress ''weth'')
      else if bp_min_profit_wei p = 0 then Err ZeroMinProfit
      else
        and_then (try_each (validate_group hash p ctx) (bp_groups p)) (\<lambda>_.
        and_then (try_each (\<lambda>s.
          and_then (check_swap s) (\<lambda>_.
          if sl_token_out s \<noteq> vc_weth ctx then Err (ProfitTargetNotWeth (vc_weth ctx))
          else fail_if (leg_tie (sl_flags s) \<noteq> None) (TiedProfitLeg (sl_token_in s)))) (bp_profit_swaps p)) (\<lambda>_.
        and_then (assert_exact_out_first (bp_profit_swaps p)) (\<lambda>_.
        and_then (close_collaterals p (vc_weth ctx)) (\<lambda>_.
        cascade_ok (bp_groups p))))))"

definition encode ::
  "(address \<Rightarrow> address \<Rightarrow> address \<Rightarrow> address \<Rightarrow> u256 \<Rightarrow> b256) \<Rightarrow> batch_plan \<Rightarrow> validate_ctx \<Rightarrow>
   (u8 list, encode_error) result" where
  "encode hash p ctx = and_then (validate hash p ctx) (\<lambda>_. encode_unchecked p)"

section \<open>Morpho rounding\<close>

definition morpho_actual_pull :: "u256 \<Rightarrow> u256 \<Rightarrow> u256 \<Rightarrow> u256 option" where
  "morpho_actual_pull asked total_assets total_shares =
     Option.bind (checked_add total_shares 1000000) (\<lambda>s_plus.
     Option.bind (checked_add total_assets 1) (\<lambda>a_plus.
     Option.bind (checked_mul asked s_plus) (\<lambda>x.
     Option.bind (checked_div x a_plus) (\<lambda>shares.
     Option.bind (checked_mul shares a_plus) (\<lambda>y.
     Option.bind (checked_add y s_plus) (\<lambda>y.
     Option.bind (checked_sub y 1) (\<lambda>num.
     checked_div num s_plus)))))))"

section \<open>What acceptance means\<close>

lemma fail_if_Ok [rust]: "fail_if c e = Ok u \<longleftrightarrow> \<not> c"
  by (simp add: fail_if_def)

lemma try_each_Ok [rust]: "try_each f xs = Ok u \<longleftrightarrow> (\<forall>x \<in> set xs. f x = Ok ())"
  by (induction xs) (auto simp: rust)

lemma nonzero_Ok [rust]: "nonzero a field = Ok u \<longleftrightarrow> a \<noteq> 0"
  by (simp add: nonzero_def rust)

lemma sum_pull_Ok: "sum_pull a ls = Ok v \<longleftrightarrow> unat v = unat a + sum_list (map (\<lambda>l. unat (ll_protocol_pull l)) ls)"
proof (induction ls arbitrary: a)
  case Nil
  then show ?case by (auto intro: word_eq_unatI)
next
  case (Cons l ls)
  show ?case (is "?lhs \<longleftrightarrow> ?rhs")
  proof
    show ?rhs if ?lhs using that Cons by (auto simp: rust checked)
    assume *: ?rhs
    then have "unat a + unat (ll_protocol_pull l) < 2 ^ 128" using unat_bound [of v] by (simp add: add.assoc [symmetric])
    then obtain c where "checked_add a (ll_protocol_pull l) = Some c"
      by (cases "checked_add a (ll_protocol_pull l)") (auto simp: checked)
    then show ?lhs using * Cons by (auto simp: rust checked)
  qed
qed

lemma sum_exact_out_Ok:
  "sum_exact_out a ss = Ok v \<Longrightarrow>
   unat v = unat a + sum_list (map (\<lambda>s. unat (sl_amount s)) (filter (\<lambda>s. has_flag s LEG_EXACT_OUT) ss))"
  by (induction ss arbitrary: a) (auto simp: rust checked split: if_splits)

lemma check_tail_shape: "check_tail hash ctx g l = Ok () \<Longrightarrow> liq_ok l"
  by (cases "ll_adapter l") (auto simp: check_tail_def liq_ok_def tail_shape_def split: leg_tail.splits)

lemma exact_out_first_Ok:
  "exact_out_first_loop taken ss = Ok () \<longleftrightarrow>
     (\<forall>i < length ss. \<not> has_flag (ss ! i) LEG_TAKE_BALANCE \<longrightarrow>
       sl_token_in (ss ! i) \<notin> set taken \<and>
       (\<forall>j < i. has_flag (ss ! j) LEG_TAKE_BALANCE \<longrightarrow> sl_token_in (ss ! j) \<noteq> sl_token_in (ss ! i)))"
proof (induction taken ss rule: exact_out_first_loop.induct)
  case (2 taken s ss)
  then show ?case by (auto simp: All_less_Suc2)
qed simp

lemma unwraps_first_Ok:
  "unwraps_first_loop seen ss = Ok () \<longleftrightarrow>
     (\<forall>i < length ss. is_unwrap_venue (sl_venue (ss ! i)) \<longrightarrow>
       \<not> seen \<and> (\<forall>j < i. is_unwrap_venue (sl_venue (ss ! j))))"
proof (induction seen ss rule: unwraps_first_loop.induct)
  case (2 seen s ss)
  then show ?case by (auto simp: All_less_Suc2)
qed simp

lemma dup_source_None:
  "dup_source debt gs = None \<longleftrightarrow>
     distinct (map (\<lambda>g. (fg_provider g, fg_flash_source g)) (filter (\<lambda>g. fg_debt_asset g = debt) gs))"
  by (induction gs) (auto simp: list_ex_iff)

lemma validate_Ok:
  assumes "validate hash p ctx = Ok ()"
  shows "bp_groups p \<noteq> []" and "\<And>g. g \<in> set (bp_groups p) \<Longrightarrow> validate_group hash p ctx g = Ok ()"
    and "\<And>s. s \<in> set (bp_profit_swaps p) \<Longrightarrow>
      check_swap s = Ok () \<and> sl_token_out s = vc_weth ctx \<and> leg_tie (sl_flags s) = None"
    and "assert_exact_out_first (bp_profit_swaps p) = Ok ()" and "close_collaterals p (vc_weth ctx) = Ok ()"
    and "cascade_ok (bp_groups p) = Ok ()"
  using assms by (auto simp: validate_def rust split: if_splits)

lemma validate_group_Ok:
  assumes "validate_group hash p ctx g = Ok ()"
  shows "fg_liqs g \<noteq> []" and "\<And>l. l \<in> set (fg_liqs g) \<Longrightarrow> validate_leg hash ctx g (fg_provider g = FP_None) l = Ok ()"
    and "\<And>s. s \<in> set (fg_repay_swaps g) \<Longrightarrow> check_swap s = Ok ()"
    and "ties_ok g = Ok ()" and "assert_exact_out_first (fg_repay_swaps g) = Ok ()"
    and "unwraps_first (fg_repay_swaps g) = Ok ()"
    and "\<And>s. s \<in> set (fg_repay_swaps g) \<Longrightarrow> has_flag s LEG_EXACT_OUT \<Longrightarrow> sl_token_out s = fg_debt_asset g"
    and "size_repay_to_pull g = Ok ()" and "surplus_debt_routed p g (vc_weth ctx) = Ok ()"
  using assms by (auto simp: validate_group_def Let_def rust find_None_iff split: if_splits option.splits)

text \<open>What the repay legs of one liquidation buy, against what its protocol pulls.\<close>

definition leg_funded :: "flash_group \<Rightarrow> u256 \<Rightarrow> nat \<Rightarrow> bool" where
  "leg_funded g fee leg \<longleftrightarrow>
     (let bought = sum_list (map (\<lambda>s. unat (sl_amount s)) (filter (\<lambda>s. has_flag s LEG_EXACT_OUT) (leg_swaps g leg)));
          l = fg_liqs g ! leg
      in bought \<le> unat (ll_protocol_pull l) \<and> (bought = unat (ll_protocol_pull l) \<or> overshoots g leg l) \<and>
         (fee = 0 \<or> carries_premium g leg l))"

lemma size_leg_funded: "size_leg g fee (leg, fg_liqs g ! leg) = Ok () \<Longrightarrow> leg_funded g fee leg"
  by (auto simp: size_leg_def leg_funded_def rust Let_def not_less word_le_unat dest!: sum_exact_out_Ok split: if_splits)

section \<open>Properties\<close>

definition sample_ctx :: validate_ctx where
  "sample_ctx = \<lparr>vc_weth = 7, vc_v4_underlying = [], vc_morpho = [], vc_compound = [], vc_liquity = []\<rparr>"

lemma sample_swaps_ok: "check_swap sample_swap = Ok ()" "check_swap sample_buy = Ok ()"
  by (simp_all add: check_swap_def sample_buy_def sample_swap_def rust wire_venues get_def fail_if_def nonzero_def)

lemma sample_flags:
  "has_flag sample_swap LEG_TAKE_BALANCE" "\<not> has_flag sample_buy LEG_TAKE_BALANCE" "has_flag sample_buy LEG_EXACT_OUT"
  "\<not> has_flag sample_swap LEG_EXACT_OUT" "leg_tie (sl_flags sample_swap) = None" "leg_tie (sl_flags sample_buy) = None"
  by (simp_all add: has_flag_def sample_buy_def sample_swap_def wire_flags leg_tie_def usize_sub_def)

lemma sample_plan_fields:
  "sl_token_in sample_swap = 5" "sl_token_in sample_buy = 5" "sl_token_out sample_swap = 7" "sl_token_out sample_buy = 7"
  "sl_amount sample_buy = 100" "\<not> is_unwrap_venue (sl_venue sample_swap)" "\<not> is_unwrap_venue (sl_venue sample_buy)"
  by (simp_all add: sample_buy_def sample_swap_def is_unwrap_venue_def wire_venues)

lemma sample_valid: "validate (\<lambda>_ _ _ _ _. 0) sample_batch sample_ctx = Ok ()"
proof -
  have "size_repay_to_pull sample_group = Ok ()"
    by (simp add: size_repay_to_pull_def sample_group_def checked_add_def fee_amount_def try_narrow_def size_leg_def
        leg_swaps_def sample_flags sample_plan_fields fail_if_def)
  moreover have "ties_ok sample_group = Ok ()"
    by (simp add: ties_ok_def sample_group_def sample_flags)
  moreover have "close_collateral sample_batch 7 sample_group (hd (fg_liqs sample_group)) = Ok ()"
    by (simp add: close_collateral_def takes_of_def sample_group_def sample_flags sample_plan_fields fail_if_def)
  ultimately show ?thesis
    by (simp add: validate_def validate_group_def sample_batch_def sample_ctx_def nonzero_def fail_if_def sample_group_def
        sample_swaps_ok validate_leg_def check_tail_def assert_exact_out_first_def sample_flags sample_plan_fields
        unwraps_first_def unwrap_outputs_closed_def surplus_debt_routed_def checked_add_def cascade_ok_def
        close_collaterals_def)
qed

text \<open>
  C3. Funding of a validated group. The flash loan covers what all its liquidations pull together. Unless the
  lender is a flash-swap pool, each liquidation's own exact-output legs buy at most its pull, and exactly its
  pull when no other leg of it pays the debt; every exact-output leg buys the debt; and where the lender
  charges a fee each liquidation has a leg that can buy it.
\<close>
theorem validated_group_funded:
  assumes "validate hash p ctx = Ok ()" and "g \<in> set (bp_groups p)"
  shows "sum_list (map (\<lambda>l. unat (ll_protocol_pull l)) (fg_liqs g)) \<le> unat (fg_flash_amount g) \<and>
    (\<forall>s \<in> set (fg_repay_swaps g). has_flag s LEG_EXACT_OUT \<longrightarrow> sl_token_out s = fg_debt_asset g) \<and>
    (fg_provider g = FP_UniV3Swap \<or>
      (\<exists>fee. fee_amount (fg_provider g) (ucast (fg_flash_amount g)) (fg_fee_bps g) = Some fee \<and>
        (\<forall>leg < length (fg_liqs g). leg_funded g fee leg)))"
proof -
  note group = validate_group_Ok [OF validate_Ok(2) [OF assms]]
  obtain pull where pull: "sum_pull 0 (fg_liqs g) = Ok pull" "\<not> fg_flash_amount g < pull"
    and sized: "fg_provider g = FP_UniV3Swap \<or>
      (\<exists>fee. fee_amount (fg_provider g) (ucast (fg_flash_amount g)) (fg_fee_bps g) = Some fee \<and>
        (\<forall>x \<in> set (enumerate 0 (fg_liqs g)). size_leg g fee x = Ok ()))"
    using group(8) by (auto simp: size_repay_to_pull_def rust split: if_splits)
  have "leg_funded g fee leg"
    if "\<forall>x \<in> set (enumerate 0 (fg_liqs g)). size_leg g fee x = Ok ()" "leg < length (fg_liqs g)" for fee leg
    using that size_leg_funded by (auto simp: in_set_enumerate_eq)
  moreover have "sum_list (map (\<lambda>l. unat (ll_protocol_pull l)) (fg_liqs g)) \<le> unat (fg_flash_amount g)"
    using pull by (simp add: sum_pull_Ok not_less word_le_unat)
  ultimately show ?thesis using sized group(7) by blast
qed

theorem validated_group_funded_witness:
  "sum_list (map (\<lambda>l. unat (ll_protocol_pull l)) (fg_liqs sample_group)) \<le> unat (fg_flash_amount sample_group)"
  using validated_group_funded [OF sample_valid, of sample_group] by (simp add: sample_batch_def)

text \<open>
  The sibling-group rule of a batch, checked by nested loops: at most three groups share a debt asset,
  and no two of them borrow it from the same source of the same provider.
\<close>
theorem cascade_ok_exact:
  "cascade_ok gs = Ok () \<longleftrightarrow>
     (\<forall>debt. let same = filter (\<lambda>g. fg_debt_asset g = debt) gs in
        length same \<le> 3 \<and> distinct (map (\<lambda>g. (fg_provider g, fg_flash_source g)) same))"
proof -
  define R where "R debt \<longleftrightarrow> length (filter (\<lambda>g. fg_debt_asset g = debt) gs) \<le> 3 \<and>
    distinct (map (\<lambda>g. (fg_provider g, fg_flash_source g)) (filter (\<lambda>g. fg_debt_asset g = debt) gs))" for debt
  have few: "distinct (map f xs)" if "\<not> length xs > 1" for f :: "flash_group \<Rightarrow> flash_provider \<times> address" and xs
    using that by (cases xs) auto
  have "(case dup_source d gs of Some pr \<Rightarrow> Err (DuplicateSourceForDebt d pr) | None \<Rightarrow> Ok ()) = Ok () \<longleftrightarrow>
      dup_source d gs = None" for d
    by (simp split: option.split)
  then have "cascade_ok gs = Ok () \<longleftrightarrow> (\<forall>g \<in> set gs. R (fg_debt_asset g))"
    using few by (auto simp: R_def cascade_ok_def rust Let_def dup_source_None split: if_splits)
  moreover have "R debt" if "\<forall>g \<in> set gs. R (fg_debt_asset g)" for debt
  proof (cases "\<exists>g \<in> set gs. fg_debt_asset g = debt")
    case False
    then have "filter (\<lambda>g. fg_debt_asset g = debt) gs = []" by (auto simp: filter_empty_conv)
    then show ?thesis by (simp add: R_def)
  qed (use that in auto)
  ultimately have "cascade_ok gs = Ok () \<longleftrightarrow> (\<forall>debt. R debt)" by blast
  then show ?thesis by (simp add: R_def Let_def)
qed

text \<open>
  C9. Seized collateral of a validated plan leaves the executor. A collateral other than WETH is swept by one
  TAKE_BALANCE leg of its own group's repay blob, or by none there and one of the profit blob. WETH, already the
  profit asset, is swept by no leg of either. In both blobs a leg that spends a set amount of a token comes
  before any TAKE_BALANCE leg on it, unwraps come first, and profit legs pay WETH.
\<close>
theorem validated_collateral_leaves:
  assumes "validate hash p ctx = Ok ()" and "g \<in> set (bp_groups p)" and "l \<in> set (fg_liqs g)"
  shows "(if ll_collateral_asset l = vc_weth ctx
      then takes_of (fg_repay_swaps g) (ll_collateral_asset l) = 0 \<and> takes_of (bp_profit_swaps p) (ll_collateral_asset l) = 0
      else takes_of (fg_repay_swaps g) (ll_collateral_asset l) = 1 \<or>
        takes_of (fg_repay_swaps g) (ll_collateral_asset l) = 0 \<and> takes_of (bp_profit_swaps p) (ll_collateral_asset l) = 1) \<and>
    (\<forall>blob \<in> {fg_repay_swaps g, bp_profit_swaps p}. \<forall>i j. j < i \<and> i < length blob \<and>
      has_flag (blob ! j) LEG_TAKE_BALANCE \<and> \<not> has_flag (blob ! i) LEG_TAKE_BALANCE \<longrightarrow>
      sl_token_in (blob ! j) \<noteq> sl_token_in (blob ! i)) \<and>
    (\<forall>i j. j < i \<and> i < length (fg_repay_swaps g) \<and> is_unwrap_venue (sl_venue (fg_repay_swaps g ! i)) \<longrightarrow>
      is_unwrap_venue (sl_venue (fg_repay_swaps g ! j))) \<and>
    (\<forall>s \<in> set (bp_profit_swaps p). sl_token_out s = vc_weth ctx)"
proof -
  note plan = validate_Ok [OF assms(1)] and group = validate_group_Ok [OF validate_Ok(2) [OF assms(1,2)]]
  have "if ll_collateral_asset l = vc_weth ctx
      then takes_of (fg_repay_swaps g) (ll_collateral_asset l) = 0 \<and> takes_of (bp_profit_swaps p) (ll_collateral_asset l) = 0
      else takes_of (fg_repay_swaps g) (ll_collateral_asset l) = 1 \<or>
        takes_of (fg_repay_swaps g) (ll_collateral_asset l) = 0 \<and> takes_of (bp_profit_swaps p) (ll_collateral_asset l) = 1"
  proof -
    have "close_collateral p (vc_weth ctx) g l = Ok ()"
      using plan(5) assms(2,3) by (auto simp: close_collaterals_def rust)
    then show ?thesis by (auto simp: close_collateral_def Let_def rust split: if_splits)
  qed
  moreover have "sl_token_in (blob ! j) \<noteq> sl_token_in (blob ! i)"
    if "blob \<in> {fg_repay_swaps g, bp_profit_swaps p}" "j < i" "i < length blob" "has_flag (blob ! j) LEG_TAKE_BALANCE"
      "\<not> has_flag (blob ! i) LEG_TAKE_BALANCE" for blob i j
  proof -
    have "assert_exact_out_first blob = Ok ()" using that(1) plan(4) group(5) by auto
    then show ?thesis using that(2-5) by (auto simp: assert_exact_out_first_def exact_out_first_Ok)
  qed
  moreover have "is_unwrap_venue (sl_venue (fg_repay_swaps g ! j))"
    if "j < i" "i < length (fg_repay_swaps g)" "is_unwrap_venue (sl_venue (fg_repay_swaps g ! i))" for i j
    using group(6) that by (simp add: unwraps_first_def unwraps_first_Ok)
  ultimately show ?thesis using plan(3) by blast
qed

theorem validated_collateral_leaves_witness:
  "takes_of (fg_repay_swaps sample_group) 5 = 1 \<or> takes_of (bp_profit_swaps sample_batch) 5 = 1"
  using validated_collateral_leaves [OF sample_valid, of sample_group "hd (fg_liqs sample_group)"]
  by (auto simp: sample_batch_def sample_group_def sample_ctx_def)

text \<open>The profit blob is not counted once the group's own repay blob sweeps, so further sweeps there pass.\<close>

lemma profit_sweeps_uncounted:
  "takes_of (fg_repay_swaps g) (ll_collateral_asset l) = 1 \<Longrightarrow> ll_collateral_asset l \<noteq> weth \<Longrightarrow>
     close_collateral (p\<lparr>bp_profit_swaps := blob\<rparr>) weth g l = Ok ()"
  by (simp add: close_collateral_def fail_if_def)

text \<open>
  C27. Validation leaves packing nothing to refuse but sizes: a validated plan without governance flags packs
  exactly when its counts and data lengths fit their fields, and then the bytes decode to the plan.
\<close>
theorem encode_validated:
  assumes "validate hash p ctx = Ok ()" and "bp_flags p AND (FLAG_GOV_EXEC OR FLAG_GOV_SPELL) = 0"
  shows "(is_ok (encode hash p ctx) \<longleftrightarrow>
      length (bp_groups p) < 2 ^ 8 \<and> length (bp_profit_swaps p) < 2 ^ 8 \<and>
      (\<forall>g \<in> set (bp_groups p). length (fg_liqs g) < 2 ^ 8 \<and> length (fg_repay_swaps g) < 2 ^ 8) \<and>
      (\<forall>s \<in> set (all_swaps p). length (sl_data s) < 2 ^ 16)) \<and>
    (\<forall>b. encode hash p ctx = Ok b \<longrightarrow> decode_batch b = Ok (on_wire p))"
proof -
  have "liq_ok l" if "g \<in> set (bp_groups p)" "l \<in> set (fg_liqs g)" for g l
    using validate_group_Ok(2) [OF validate_Ok(2) [OF assms(1) that(1)] that(2)] check_tail_shape
    by (auto simp: validate_leg_def rust split: if_splits)
  then have "plan_ok p \<longleftrightarrow> length (bp_groups p) < 2 ^ 8 \<and> length (bp_profit_swaps p) < 2 ^ 8 \<and>
      (\<forall>g \<in> set (bp_groups p). length (fg_liqs g) < 2 ^ 8 \<and> length (fg_repay_swaps g) < 2 ^ 8) \<and>
      (\<forall>s \<in> set (all_swaps p). length (sl_data s) < 2 ^ 16)"
    using validate_Ok(1) [OF assms(1)] by (auto simp: plan_ok_def group_ok_def list_all_iff all_swaps_def swap_ok_def)
  moreover have "is_ok (encode hash p ctx) \<longleftrightarrow> plan_ok p"
    using assms by (simp add: encode_def is_ok_iff encode_unchecked_Ok)
  moreover have "decode_batch b = Ok (on_wire p)" if "encode hash p ctx = Ok b" for b
    using that assms(1) decode_encoded [of p b] by (simp add: encode_def)
  ultimately show ?thesis by simp
qed

theorem encode_validated_witness: "is_ok (encode (\<lambda>_ _ _ _ _. 0) sample_batch sample_ctx)"
proof -
  have "bp_flags sample_batch AND (FLAG_GOV_EXEC OR FLAG_GOV_SPELL) = 0" by (simp add: sample_batch_def)
  note encode_validated [OF sample_valid this]
  then show ?thesis
    by (simp add: all_swaps_def sample_batch_def sample_group_def sample_buy_def sample_swap_def)
qed

text \<open>
  Morpho's rounding: what the protocol pulls for an asked amount never exceeds it, and falls short by
  less than the price of one share.
\<close>
theorem morpho_pull_bounds:
  assumes "morpho_actual_pull asked total_assets total_shares = Some v"
  shows "v \<le> asked \<and> (unat asked - unat v) * (unat total_shares + 1000000) < unat total_assets + 1"
proof -
  define a s where "a = unat total_assets + 1" and "s = unat total_shares + 1000000"
  have v: "unat v = (unat asked * s div a * a + s - 1) div s"
    using assms by (auto simp: morpho_actual_pull_def Option.bind_eq_Some_conv checked a_def s_def)
  have s: "0 < s" and a: "0 < a" by (simp_all add: s_def a_def)
  let ?q = "unat asked * s div a * a"
  have "?q \<le> unat asked * s" by simp
  then have "?q + s - 1 \<le> unat asked * s + (s - 1)" using s by linarith
  then have "(?q + s - 1) div s \<le> (unat asked * s + (s - 1)) div s" by (rule div_le_mono)
  also have "\<dots> = unat asked"
    using div_mult_self1 [of s "s - 1" "unat asked"] s by (simp add: add.commute)
  finally have le: "unat v \<le> unat asked" using v by simp
  have "unat asked * s < ?q + a" using a by (metis div_mult_mod_eq mod_less_divisor nat_add_left_cancel_less)
  moreover have "?q \<le> unat v * s"
    using dividend_less_div_times [OF s, of "?q + s - 1"] v by simp
  ultimately have "unat asked * s - unat v * s < a" using a by linarith
  then show ?thesis using le by (simp add: word_le_unat diff_mult_distrib a_def s_def)
qed

theorem morpho_pull_bounds_witness: "morpho_actual_pull 100 0 0 = Some 100 \<and> (100 :: u256) \<le> 100"
proof -
  have "morpho_actual_pull 100 0 0 = Some 100"
    by (simp add: morpho_actual_pull_def checked_add_def checked_mul_def checked_div_def checked_sub_def)
  then show ?thesis using morpho_pull_bounds [of 100 0 0 100] by blast
qed

end
