(* ===== verification/Oracle_Math.thy ===== *)
theory Oracle_Math
  imports Fixed_Point
begin

text \<open>
  The formulas behind derived prices, \<^verbatim>\<open>crates/liq-oracle/src/derived/math.rs\<close>: the Newton
  square root, the rates of liquid staking and savings tokens, the growth cap on a staking
  ratio, the two cross-rate orders and the fair price of a two-asset pool share. The Newton loop
  is a \<open>function\<close> with its termination proof; the lemmas show that it never leaves its loop
  through the overflow exit, that the root it returns is the exact integer square root, and what
  the formulas built on it and on \<open>mul_div\<close> compute.
\<close>

section \<open>Square root\<close>

definition PERCENTAGE_FACTOR :: u256 where
  "PERCENTAGE_FACTOR = 10000"

definition SECS_PER_YEAR :: u256 where
  "SECS_PER_YEAR = 31536000"

text \<open>\<^verbatim>\<open>bit_len\<close>: the width without the leading zeros.\<close>

definition bit_len :: "'a::len word \<Rightarrow> nat" where
  "bit_len a = length (dropWhile (\<lambda>i. \<not> bit a i) (rev [0..<LENGTH('a)]))"

function sqrt_loop :: "u256 \<Rightarrow> u256 \<Rightarrow> u256" where
  "sqrt_loop a x =
     (let q = unwrap_or (checked_div a x) 0 in
      case checked_add x q of
        None \<Rightarrow> x
      | Some s \<Rightarrow>
          let x1 = unwrap_or (checked_div s 2) s in
          if x \<le> x1
          then (let other = unwrap_or (checked_div a x) 0 in if x < other then x else other)
          else sqrt_loop a x1)"
  by pat_completeness auto
termination
  by (relation "measure (\<lambda>(a, x). unat x)") (auto simp: not_le word_less_unat)

definition sqrt_down :: "u256 \<Rightarrow> u256" where
  "sqrt_down a =
     (if a = 0 \<or> a = 1 then a
      else
        let bits = bit_len a;
            half = min (usize_saturating_add bits 1 div 2) 255;
            x = unwrap_or (checked_shl 1 half) (- 1);
            x = (if x = 0 then 1 else x)
        in sqrt_loop a x)"

declare sqrt_loop.simps [simp del]

lemma bit_len_le: "bit_len (a :: 'a::len word) \<le> LENGTH('a)"
  unfolding bit_len_def by (rule order.trans [OF length_dropWhile_le]) simp

lemma bit_len_bound: "unat (a :: 'a::len word) < 2 ^ bit_len a"
proof -
  let ?n = "bit_len a"
  have len: "length (takeWhile (\<lambda>i. \<not> bit a i) (rev [0..<LENGTH('a)])) + ?n = LENGTH('a)"
    unfolding bit_len_def by (metis length_append takeWhile_dropWhile_id length_rev length_upt diff_zero)
  have "\<not> bit a i" if "?n \<le> i" for i
  proof (cases "i < LENGTH('a)")
    case True
    define k where "k = LENGTH('a) - Suc i"
    from len have k: "k < length (takeWhile (\<lambda>i. \<not> bit a i) (rev [0..<LENGTH('a)]))"
      using that True by (simp add: k_def)
    have "rev [0..<LENGTH('a)] ! k = i" using True by (simp add: k_def rev_nth)
    moreover have "takeWhile (\<lambda>i. \<not> bit a i) (rev [0..<LENGTH('a)]) ! k = rev [0..<LENGTH('a)] ! k"
      using k by (rule takeWhile_nth)
    ultimately show ?thesis using nth_mem [OF k] by (auto dest: set_takeWhileD)
  next
    case False
    then show ?thesis using bit_imp_le_length by (metis not_le not_less)
  qed
  then have "take_bit ?n a = a" by (intro bit_eqI) (auto simp: bit_take_bit_iff, metis not_le)
  then have "unat a = take_bit ?n (unat a)" by (metis unsigned_take_bit_eq)
  then show ?thesis by (metis take_bit_nat_less_exp)
qed

text \<open>One Newton step from above stays above the root, and cannot overflow.\<close>

lemma newton_above:
  fixes a x :: nat
  assumes "0 < x" and "a < (x + 1) ^ 2"
  shows "a div x \<le> x + 2" and "a < ((x + a div x) div 2 + 1) ^ 2"
proof -
  define q h where "q = a div x" and "h = (x + q) div 2 + 1"
  have "a \<le> x * (x + 2)" using assms(2) by (simp add: power2_eq_square algebra_simps)
  then have "a div x \<le> x * (x + 2) div x" by (rule div_le_mono)
  then show "a div x \<le> x + 2" using assms(1) by simp
  have "a < x * (q + 1)"
    unfolding q_def using assms(1) by (metis dividend_less_times_div Suc_eq_plus1 mult_Suc_right)
  moreover have "4 * (x * (q + 1)) \<le> (x + (q + 1)) ^ 2"
    using sum_squares_ge_zero [of "int x - int (q + 1)" 0]
    by (simp add: power2_eq_square algebra_simps flip: of_nat_mult of_nat_add)
  moreover have "(x + (q + 1)) ^ 2 \<le> (2 * h) ^ 2"
    unfolding h_def by (intro power_mono) auto
  moreover have "(2 * h) ^ 2 = 4 * h ^ 2" by (simp add: power_mult_distrib)
  ultimately have "4 * a < 4 * h ^ 2" by linarith
  then show "a < ((x + a div x) div 2 + 1) ^ 2" by (simp add: q_def h_def)
qed

lemma newton_exit:
  fixes a x :: nat
  assumes "0 < x" and "x \<le> (x + a div x) div 2"
  shows "x \<le> a div x" and "x ^ 2 \<le> a"
proof -
  show "x \<le> a div x" using assms(2) by auto
  then show "x ^ 2 \<le> a"
    using assms(1) by (simp add: power2_eq_square less_eq_div_iff_mult_less_eq)
qed

lemma sqrt_loop_exact:
  assumes "0 < unat x" and "unat x \<le> 2 ^ 128" and "1 < unat a" and "unat a < (unat x + 1) ^ 2"
  shows "unat (sqrt_loop a x) ^ 2 \<le> unat a \<and> unat a < (unat (sqrt_loop a x) + 1) ^ 2"
  using assms
proof (induction a x rule: sqrt_loop.induct)
  case (1 a x)
  note above = newton_above [OF 1(2) 1(5)]
  define q s where "q = a div x" and "s = x + q"
  have uq: "unat q = unat a div unat x" by (simp add: q_def unat_div_exact)
  have xn: "x \<noteq> 0" using 1(2) by auto
  have div: "checked_div a x = Some q" using xn by (simp add: checked_div_def q_def)
  have "unat x + unat q < 2 ^ 256" using above(1) 1(3) uq by simp
  then have s: "checked_add x q = Some s" and us: "unat s = unat x + unat q"
    by (simp_all add: s_def checked_add_def unat_add_exact)
  define x1 where "x1 = s div 2"
  have ux1: "unat x1 = (unat x + unat a div unat x) div 2"
    by (simp add: x1_def unat_div_exact us uq)
  have half: "checked_div s 2 = Some x1" by (simp add: checked_div_def x1_def)
  show ?case
  proof (cases "x \<le> x1")
    case True
    then have "unat x \<le> (unat x + unat a div unat x) div 2" by (simp add: word_le_unat ux1)
    note exit = newton_exit [OF 1(2) this]
    have "sqrt_loop a x = (if x < q then x else q)"
      by (subst sqrt_loop.simps) (simp add: div s half True)
    also have "\<dots> = x" using exit(1) by (auto simp: word_less_unat uq intro: word_eq_unatI)
    finally show ?thesis using exit(2) 1(5) by simp
  next
    case False
    then have less: "unat x1 < unat x" by (simp add: word_le_unat)
    have up: "unat a < (unat x1 + 1) ^ 2" using above(2) by (simp add: ux1)
    have pos: "0 < unat x1" using up 1(4) by (cases "unat x1 = 0") auto
    have "sqrt_loop a x = sqrt_loop a x1"
      by (subst sqrt_loop.simps) (simp add: div s half False)
    then show ?thesis
      using 1(1) [of q s x1] div s half False less pos up 1(3,4) by simp
  qed
qed

section \<open>Rates, caps and pool shares\<close>

definition mul_wad_down :: "u256 \<Rightarrow> u256 \<Rightarrow> (u256, fixed_error) result" where
  "mul_wad_down underlying rate_wad =
     (if rate_wad = 0 then Err DivisionByZero else mul_div underlying rate_wad WAD Down)"

definition mul_ray_down :: "u256 \<Rightarrow> u256 \<Rightarrow> (u256, fixed_error) result" where
  "mul_ray_down underlying chi =
     (if chi = 0 then Err DivisionByZero else mul_div underlying chi RAY Down)"

definition pooled_by_shares :: "u256 \<Rightarrow> u256 \<Rightarrow> u256 \<Rightarrow> (u256, fixed_error) result" where
  "pooled_by_shares pooled shares share_amount =
     (if shares = 0 then Err DivisionByZero else mul_div share_amount pooled shares Down)"

definition capo_max_ratio :: "u256 \<Rightarrow> u256 \<Rightarrow> u256 \<Rightarrow> (u256, fixed_error) result" where
  "capo_max_ratio snapshot_ratio elapsed_secs max_yearly_ratio_growth_percent =
     and_then (mul_div max_yearly_ratio_growth_percent elapsed_secs SECS_PER_YEAR Down) (\<lambda>growth.
     and_then (ok_or (checked_add PERCENTAGE_FACTOR growth) Overflow) (\<lambda>factor.
     mul_div snapshot_ratio factor PERCENTAGE_FACTOR Down))"

definition capped_lst ::
  "u256 \<Rightarrow> u256 \<Rightarrow> u256 \<Rightarrow> u256 \<Rightarrow> u256 \<Rightarrow> u256 \<Rightarrow> (u256, fixed_error) result" where
  "capped_lst underlying live_ratio snapshot_ratio elapsed_secs max_yearly_ratio_growth_percent scale =
     (if scale = 0 then Err DivisionByZero
      else and_then (capo_max_ratio snapshot_ratio elapsed_secs max_yearly_ratio_growth_percent)
        (\<lambda>max_ratio.
          let capped = (if live_ratio < max_ratio then live_ratio else max_ratio) in
          if capped = 0 then Err DivisionByZero else mul_div underlying capped scale Down))"

datatype cross_order = MulThenDivDown | DivThenMulDown

definition cross_rate :: "u256 \<Rightarrow> u256 \<Rightarrow> u256 \<Rightarrow> cross_order \<Rightarrow> (u256, fixed_error) result" where
  "cross_rate x y denom order =
     (if denom = 0 then Err DivisionByZero
      else (case order of
          MulThenDivDown \<Rightarrow> mul_div x y denom Down
        | DivThenMulDown \<Rightarrow>
            and_then (mul_div x 1 denom Down) (\<lambda>q. ok_or (checked_mul q y) Overflow)))"

definition lp_fair :: "u256 \<Rightarrow> u256 \<Rightarrow> u256 \<Rightarrow> u256 \<Rightarrow> u256 \<Rightarrow> (u256, fixed_error) result" where
  "lp_fair r0 r1 p0 p1 supply =
     (if supply = 0 then Err DivisionByZero
      else and_then (ok_or (checked_mul r0 r1) Overflow) (\<lambda>k.
        and_then (ok_or (checked_mul p0 p1) Overflow) (\<lambda>px.
          let sqrt_k = sqrt_down k; sqrt_p = sqrt_down px in
          and_then (ok_or (checked_mul sqrt_k 2) Overflow) (\<lambda>twice.
            mul_div twice sqrt_p supply Down))))"

section \<open>Properties\<close>

lemma sqrt_down_bounds:
  "unat (sqrt_down a) ^ 2 \<le> unat a \<and> unat a < (unat (sqrt_down a) + 1) ^ 2"
proof (cases "a = 0 \<or> a = 1")
  case True
  then show ?thesis by (auto simp: sqrt_down_def power2_eq_square)
next
  case False
  then have big: "1 < unat a"
    by (metis One_nat_def less_one linorder_neqE_nat unat_1 unat_eq_0 word_eq_unatI)
  have bits: "bit_len a \<le> 256" using bit_len_le [of a] by simp
  define half where "half = (bit_len a + 1) div 2"
  have half_le: "half \<le> 128" using bits by (simp add: half_def)
  have start: "min (usize_saturating_add (bit_len a) 1 div 2) 255 = half"
    using bits by (simp add: usize_saturating_add_def USIZE_LIMIT_def half_def)
  define x :: u256 where "x = push_bit half 1"
  have x_nat: "x = of_nat (2 ^ half)" by (simp add: x_def)
  have "(2::nat) ^ half < 2 ^ LENGTH(256)" using half_le by (intro power_strict_increasing) auto
  then have ux: "unat x = 2 ^ half" unfolding x_nat by (rule unat_of_nat_small)
  have "unat a < 2 ^ bit_len a" by (rule bit_len_bound)
  also have "\<dots> \<le> 2 ^ (half * 2)" by (rule power_increasing) (auto simp: half_def)
  also have "\<dots> \<le> (unat x + 1) ^ 2" by (simp add: ux power_mult power_mono)
  finally have above: "unat a < (unat x + 1) ^ 2" .
  have "sqrt_down a = sqrt_loop a x"
    using False half_le ux start by (auto simp: sqrt_down_def checked_shl_def x_def Let_def)
  moreover have "unat x \<le> 2 ^ 128" unfolding ux using half_le by (intro power_increasing) auto
  ultimately show ?thesis using sqrt_loop_exact [OF _ _ big above] by (simp add: ux)
qed

lemma sqrt_down_unique:
  assumes "s ^ 2 \<le> unat a" and "unat a < (s + 1) ^ 2"
  shows "unat (sqrt_down a) = s"
proof -
  have "unat (sqrt_down a) ^ 2 < (s + 1) ^ 2" and "s ^ 2 < (unat (sqrt_down a) + 1) ^ 2"
    using assms sqrt_down_bounds [of a] by linarith+
  then have "unat (sqrt_down a) < s + 1" and "s < unat (sqrt_down a) + 1"
    by (metis power_less_imp_less_base le0)+
  then show ?thesis by simp
qed

lemma lp_fair_Ok:
  "lp_fair r0 r1 p0 p1 supply = Ok v \<longleftrightarrow>
     supply \<noteq> 0 \<and>
     (\<exists>k px. unat k = unat r0 * unat r1 \<and> unat px = unat p0 * unat p1 \<and>
        2 * unat (sqrt_down k) < 2 ^ 256 \<and>
        unat v = 2 * unat (sqrt_down k) * unat (sqrt_down px) div unat supply)"
  (is "?l \<longleftrightarrow> ?r")
proof
  assume ?l
  then obtain k px twice where "supply \<noteq> 0"
    and ops: "checked_mul r0 r1 = Some k" "checked_mul p0 p1 = Some px" "checked_mul (sqrt_down k) 2 = Some twice"
      "mul_div twice (sqrt_down px) supply Down = Ok v"
    by (auto simp: lp_fair_def and_then_Ok ok_or_Ok Let_def split: if_splits)
  moreover have k: "unat k = unat r0 * unat r1" and px: "unat px = unat p0 * unat p1"
    and twice: "unat twice = unat (sqrt_down k) * 2"
    and v: "unat v = unat twice * unat (sqrt_down px) div unat supply"
    using ops by (simp_all add: checked)
  moreover have "2 * unat (sqrt_down k) < 2 ^ 256"
    using unat_bound [of twice] by (simp add: twice)
  ultimately show ?r by (auto simp: mult.commute)
next
  assume r: ?r
  then obtain k px where k: "unat k = unat r0 * unat r1" and px: "unat px = unat p0 * unat p1"
    and fit: "2 * unat (sqrt_down k) < 2 ^ 256"
    and v: "unat v = 2 * unat (sqrt_down k) * unat (sqrt_down px) div unat supply" by auto
  have "unat (sqrt_down k * 2) = unat (sqrt_down k) * 2"
    using fit by (subst unat_mul_exact) auto
  then have "checked_mul (sqrt_down k) 2 = Some (sqrt_down k * 2)"
    and "mul_div (sqrt_down k * 2) (sqrt_down px) supply Down = Ok v"
    using r v by (auto simp: checked mult.commute)
  moreover have "checked_mul r0 r1 = Some k" "checked_mul p0 p1 = Some px"
    by (simp_all add: checked k px)
  ultimately show ?l using r by (simp add: lp_fair_def)
qed

text \<open>
  C38. The Newton loop of \<^verbatim>\<open>sqrt_down\<close> ends for every 256-bit argument with the exact integer square
  root: its square is at most the argument and the next integer's square exceeds it.
\<close>

theorem sqrt_down_floor:
  "unat (sqrt_down a) ^ 2 \<le> unat a \<and> unat a < (unat (sqrt_down a) + 1) ^ 2"
  by (rule sqrt_down_bounds)

text \<open>
  C37. A fair pool-share price is the exact floor of twice the two integer roots over the supply, it
  never exceeds the geometric fair value, and it does not depend on how the invariant product is
  split between the two reserves: moving the pool along its curve does not move the price.
\<close>

theorem lp_fair_bounded:
  assumes "lp_fair r0 r1 p0 p1 supply = Ok v"
  shows "(\<exists>s t. s ^ 2 \<le> unat r0 * unat r1 \<and> unat r0 * unat r1 < (s + 1) ^ 2 \<and>
            t ^ 2 \<le> unat p0 * unat p1 \<and> unat p0 * unat p1 < (t + 1) ^ 2 \<and>
            unat v = 2 * s * t div unat supply) \<and>
         (unat v * unat supply) ^ 2 \<le> 4 * (unat r0 * unat r1) * (unat p0 * unat p1) \<and>
         (\<forall>q0 q1. unat q0 * unat q1 = unat r0 * unat r1 \<longrightarrow> lp_fair q0 q1 p0 p1 supply = Ok v)"
proof -
  obtain k px where k: "unat k = unat r0 * unat r1" and px: "unat px = unat p0 * unat p1"
    and v: "unat v = 2 * unat (sqrt_down k) * unat (sqrt_down px) div unat supply"
    using assms unfolding lp_fair_Ok by blast
  define s t where "s = unat (sqrt_down k)" and "t = unat (sqrt_down px)"
  have s: "s ^ 2 \<le> unat k \<and> unat k < (s + 1) ^ 2" unfolding s_def by (rule sqrt_down_bounds)
  have t: "t ^ 2 \<le> unat px \<and> unat px < (t + 1) ^ 2" unfolding t_def by (rule sqrt_down_bounds)
  have "unat v * unat supply \<le> 2 * s * t" unfolding v s_def t_def by (rule div_times_less_eq_dividend)
  then have "(unat v * unat supply) ^ 2 \<le> (2 * s * t) ^ 2" by (rule power_mono) simp
  also have "(2 * s * t) ^ 2 = 4 * (s ^ 2 * t ^ 2)" by (simp add: power_mult_distrib)
  also have "\<dots> \<le> 4 * (unat k * unat px)" using s t by (simp add: mult_le_mono)
  finally have bound: "(unat v * unat supply) ^ 2 \<le> 4 * (unat r0 * unat r1) * (unat p0 * unat p1)"
    by (simp add: k px mult.assoc)
  have "unat v = 2 * s * t div unat supply" using v by (simp add: s_def t_def)
  moreover have "lp_fair q0 q1 p0 p1 supply = Ok v" if "unat q0 * unat q1 = unat r0 * unat r1" for q0 q1
    using assms that unfolding lp_fair_Ok by simp
  ultimately show ?thesis using s t bound unfolding k px by blast
qed

lemma sample_lp: "lp_fair 100 400 9 4 10 = Ok 240"
proof -
  have "unat (sqrt_down 40000) = 200" "unat (sqrt_down 36) = 6"
    by (rule sqrt_down_unique; simp add: power2_eq_square)+
  then show ?thesis
    unfolding lp_fair_Ok by (intro conjI, simp) (rule exI [of _ 40000], rule exI [of _ 36], simp)
qed

theorem lp_fair_bounded_witness:
  "lp_fair 100 400 9 4 10 = Ok 240 \<and> lp_fair 50 800 9 4 10 = Ok 240 \<and>
   (240 * 10) ^ 2 \<le> 4 * (100 * 400) * (9 * (4::nat))"
proof -
  have "\<forall>q0 q1. unat q0 * unat q1 = unat (100::u256) * unat (400::u256) \<longrightarrow> lp_fair q0 q1 9 4 10 = Ok 240"
    using lp_fair_bounded [OF sample_lp] by blast
  then have "lp_fair 50 800 9 4 10 = Ok 240" by simp
  then show ?thesis using sample_lp by simp
qed

text \<open>
  The growth cap bounds what a live staking ratio can be worth: a capped value is the underlying
  at the smaller of the live ratio and the cap, so whatever the live ratio is it never exceeds the
  value at the cap, and below the cap it is the uncapped value.
\<close>

theorem capped_lst_capped:
  assumes "capped_lst u live snap t g scale = Ok v"
  shows "\<exists>m. capo_max_ratio snap t g = Ok m \<and>
             unat m = unat snap * (10000 + unat g * unat t div 31536000) div 10000 \<and>
             unat v = unat u * min (unat live) (unat m) div unat scale \<and>
             unat v \<le> unat u * unat m div unat scale \<and>
             (live \<le> m \<longrightarrow> mul_div u live scale Down = Ok v)"
proof -
  obtain m where m: "capo_max_ratio snap t g = Ok m" and scale: "scale \<noteq> 0"
    and md: "mul_div u (if live < m then live else m) scale Down = Ok v"
    using assms by (auto simp: capped_lst_def and_then_Ok Let_def split: if_splits)
  have um: "unat (if live < m then live else m) = min (unat live) (unat m)"
    by (auto simp: word_less_unat)
  have v: "unat v = unat u * min (unat live) (unat m) div unat scale"
    using md by (simp add: mul_div_Ok um)
  have "unat (10000 :: u256) = 10000" "unat (31536000 :: u256) = 31536000" by simp_all
  then have "unat m = unat snap * (10000 + unat g * unat t div 31536000) div 10000"
    using m by (auto simp: capo_max_ratio_def rust checked PERCENTAGE_FACTOR_def SECS_PER_YEAR_def)
  moreover have "unat v \<le> unat u * unat m div unat scale"
    unfolding v by (intro div_le_mono mult_le_mono) auto
  moreover have "mul_div u live scale Down = Ok v" if "live \<le> m"
    using that scale by (simp add: mul_div_Ok v word_le_unat min_def)
  ultimately show ?thesis using m v by blast
qed

theorem capped_lst_capped_witness:
  "capped_lst 1000 500 100 31536000 1000 100 = Ok 1100 \<and> capo_max_ratio 100 31536000 1000 = Ok 110"
proof -
  have "capped_lst 1000 500 100 31536000 1000 100 = Ok 1100"
    by (simp add: capped_lst_def capo_max_ratio_def mul_div_reference PERCENTAGE_FACTOR_def SECS_PER_YEAR_def
        checked_add_def try_from_usize_def word_less_unat)
  moreover from this have "\<exists>m. capo_max_ratio 100 31536000 1000 = Ok m \<and> unat m = 110"
    using capped_lst_capped [of 1000 500 100 31536000 1000 100 1100] by force
  ultimately show ?thesis by (auto simp: word_unat_eq_iff)
qed

end
