(* ===== verification/Fees.thy ===== *)
theory Fees
  imports Fixed_Point "HOL-Library.Multiset"
begin

text \<open>
  Gas prices. The next block's base fee (\<^verbatim>\<open>crates/liq-router/src/band.rs\<close>), the oracle that folds
  parent headers and keeps a ring of priority fees (\<^verbatim>\<open>crates/liq-router/src/gas.rs\<close>), and the fee
  fields bound to an inclusion window (\<^verbatim>\<open>crates/liq-exec/src/fee.rs\<close>). The ring is abstracted to
  the list of the samples it holds, oldest first; the fee ceiling is related to every run of the
  base-fee rule over the window it is bound to.
\<close>

section \<open>Base fee\<close>

definition ELASTICITY :: u64 where
  "ELASTICITY = 2"

definition DENOM :: u128 where
  "DENOM = 8"

definition next_base_fee :: "u128 \<Rightarrow> u64 \<Rightarrow> u64 \<Rightarrow> u128 option" where
  "next_base_fee parent_base_fee parent_gas_used parent_gas_limit =
     Option.bind (checked_div parent_gas_limit ELASTICITY) (\<lambda>target.
       if target = 0 then None
       else
         let target128 = ucast target in
         if parent_gas_used = target then Some parent_base_fee
         else if target < parent_gas_used then
           Option.bind (checked_sub parent_gas_used target) (\<lambda>d.
             let delta = ucast d in
             Option.bind (checked_mul parent_base_fee delta) (\<lambda>m.
             Option.bind (checked_div m target128) (\<lambda>m.
             Option.bind (checked_div m DENOM) (\<lambda>raw.
             checked_add parent_base_fee (max raw 1)))))
         else
           Option.bind (checked_sub target parent_gas_used) (\<lambda>d.
             let delta = ucast d in
             Option.bind (checked_mul parent_base_fee delta) (\<lambda>m.
             Option.bind (checked_div m target128) (\<lambda>m.
             Option.bind (checked_div m DENOM) (\<lambda>raw.
             checked_sub parent_base_fee raw)))))"

section \<open>Gas oracle\<close>

definition DEFAULT_PRIORITY_CAP :: nat where
  "DEFAULT_PRIORITY_CAP = 256"

definition PRIORITY_FEE_WEI :: u128 where
  "PRIORITY_FEE_WEI = 1000000000"

datatype gas_error =
    BadHeader
  | MissingGasLimit
  | GasMissingBaseFee
  | EmptyPriorityWindow
  | BadPercentile u8
  | ZeroCapacity

definition header_gas_limit :: "u64 \<Rightarrow> u64 option" where
  "header_gas_limit parent_gas_limit = (if 0 < parent_gas_limit then Some parent_gas_limit else None)"

record gas_oracle =
  go_next_base :: "u128 option"
  go_gas_limit :: "u64 option"
  go_pri :: "u64 list"
  go_cap :: nat
  go_next :: nat
  go_len :: nat

definition with_priority_cap :: "nat \<Rightarrow> gas_oracle option" where
  "with_priority_cap cap =
     (if cap = 0 then None
      else Some \<lparr>go_next_base = None, go_gas_limit = None, go_pri = [], go_cap = cap, go_next = 0, go_len = 0\<rparr>)"

text \<open>\<^verbatim>\<open>checked_rem\<close> of a zero divisor is \<^verbatim>\<open>None\<close>.\<close>

definition usize_rem :: "nat \<Rightarrow> nat \<Rightarrow> nat option" where
  "usize_rem a b = (if b = 0 then None else Some (a mod b))"

definition push_priority :: "u64 \<Rightarrow> gas_oracle \<Rightarrow> gas_oracle" where
  "push_priority p o' =
     (if length (go_pri o') < go_cap o'
      then
        let pri = go_pri o' @ [p]; len = length pri in
        o'\<lparr>go_pri := pri, go_len := len,
           go_next := (case usize_rem len (go_cap o') of Some n \<Rightarrow> n | None \<Rightarrow> 0)\<rparr>
      else
        o'\<lparr>go_pri := (if go_next o' < length (go_pri o') then (go_pri o')[go_next o' := p] else go_pri o'),
           go_next :=
             (case Option.bind (usize_add (go_next o') 1) (\<lambda>n. usize_rem n (go_cap o')) of
                Some n \<Rightarrow> n | None \<Rightarrow> 0),
           go_len := go_cap o'\<rparr>)"

definition observe_parent ::
  "u128 \<Rightarrow> u64 \<Rightarrow> u64 \<Rightarrow> u64 list \<Rightarrow> gas_oracle \<Rightarrow> (unit, gas_error) result \<times> gas_oracle" where
  "observe_parent parent_base_fee parent_gas_used parent_gas_limit priority_samples o' =
     try_opt (header_gas_limit parent_gas_limit) MissingGasLimit o' (\<lambda>limit.
     try_opt (next_base_fee parent_base_fee parent_gas_used parent_gas_limit) BadHeader o' (\<lambda>fee.
       (Ok (), fold push_priority priority_samples (o'\<lparr>go_next_base := Some fee, go_gas_limit := Some limit\<rparr>))))"

definition base_fee_wei :: "gas_oracle \<Rightarrow> u128 option" where
  "base_fee_wei o' = go_next_base o'"

definition block_gas_limit :: "gas_oracle \<Rightarrow> u64 option" where
  "block_gas_limit o' = go_gas_limit o'"

definition priority_percentile :: "gas_oracle \<Rightarrow> u8 \<Rightarrow> (u64, gas_error) result" where
  "priority_percentile o' pct =
     (if \<not> (1 \<le> pct \<and> pct \<le> 99) then Err (BadPercentile pct)
      else if go_len o' = 0 then Err EmptyPriorityWindow
      else
        let n = go_len o'; tmp = sort (take n (go_pri o')) in
        and_then (ok_or (usize_mul n (unat pct)) (BadPercentile pct)) (\<lambda>num.
        and_then (ok_or (map_option (\<lambda>v. v div 100) (usize_add num 99)) (BadPercentile pct)) (\<lambda>rank.
          let idx = min (rank - 1) (n - 1) in
          ok_or (get tmp idx) EmptyPriorityWindow)))"

definition base_fee_cost_wei :: "gas_oracle \<Rightarrow> u64 \<Rightarrow> (u256, gas_error) result" where
  "base_fee_cost_wei o' gas_used =
     and_then (ok_or (base_fee_wei o') GasMissingBaseFee) (\<lambda>bf.
     ok_or (checked_mul (ucast gas_used) (ucast bf)) BadHeader)"

definition inclusion_cost_wei :: "gas_oracle \<Rightarrow> u64 \<Rightarrow> u128 \<Rightarrow> (u256, gas_error) result" where
  "inclusion_cost_wei o' gas_used priority_wei =
     and_then (ok_or (base_fee_wei o') GasMissingBaseFee) (\<lambda>bf.
     and_then (ok_or (checked_add bf priority_wei) BadHeader) (\<lambda>per.
     ok_or (checked_mul (ucast gas_used) (ucast per)) BadHeader))"

section \<open>Fee fields of an inclusion window\<close>

text \<open>The variants of \<^verbatim>\<open>ExecError\<close> that \<^verbatim>\<open>fee.rs\<close> returns.\<close>

datatype fee_error =
    InvertedSpan u64 u64
  | StaleFee u64 u64
  | MissingBaseFee
  | MissingPriority
  | MissingModestPriority
  | FeeOverflow

record fee_quote =
  fq_parent_block :: u64
  fq_next_base_fee :: u128
  fq_priority_wei :: u128
  fq_modest_priority_wei :: u128

record bound_fees =
  bf_max_fee_per_gas :: u128
  bf_max_priority_fee_per_gas :: u128
  bf_k :: u64

primrec fee_loop :: "nat \<Rightarrow> u256 \<Rightarrow> u256 \<Rightarrow> (u256 \<times> u256, fee_error) result" where
  "fee_loop 0 num den = Ok (num, den)"
| "fee_loop (Suc k) num den =
     and_then (ok_or (checked_mul num 9) FeeOverflow) (\<lambda>num.
     and_then (ok_or (checked_mul den 8) FeeOverflow) (\<lambda>den.
     fee_loop k num den))"

definition max_fee_per_gas :: "u128 \<Rightarrow> u64 \<Rightarrow> (u128, fee_error) result" where
  "max_fee_per_gas base_fee k =
     (if base_fee = 0 then Err MissingBaseFee
      else if k = 0 then Ok base_fee
      else
        and_then (fee_loop (unat k) (ucast base_fee) 1) (\<lambda>(num, den).
        and_then (ok_or (checked_sub den 1) FeeOverflow) (\<lambda>bump.
        and_then (ok_or (checked_add num bump) FeeOverflow) (\<lambda>s.
        and_then (ok_or (checked_div s den) FeeOverflow) (\<lambda>ceil.
        ok_or (try_narrow ceil) FeeOverflow)))))"

definition bind_fees :: "fee_quote \<Rightarrow> u64 \<Rightarrow> u64 \<Rightarrow> (bound_fees, fee_error) result" where
  "bind_fees q target_block max_block =
     (if max_block < target_block then Err (InvertedSpan target_block max_block)
      else
        and_then (ok_or (checked_add (fq_parent_block q) 1) FeeOverflow) (\<lambda>expected_target.
        if expected_target \<noteq> target_block then Err (StaleFee (fq_parent_block q) target_block)
        else if fq_next_base_fee q = 0 then Err MissingBaseFee
        else if fq_priority_wei q = 0 then Err MissingPriority
        else if fq_modest_priority_wei q = 0 then Err MissingModestPriority
        else
          and_then (ok_or (checked_sub max_block target_block) FeeOverflow) (\<lambda>k.
          and_then (max_fee_per_gas (fq_next_base_fee q) k) (\<lambda>m.
          Ok \<lparr>bf_max_fee_per_gas = m, bf_max_priority_fee_per_gas = fq_priority_wei q, bf_k = k\<rparr>))))"

definition priority_for :: "fee_quote \<Rightarrow> bool \<Rightarrow> u128" where
  "priority_for q modest = (if modest then fq_modest_priority_wei q else fq_priority_wei q)"

section \<open>The base-fee rule\<close>

text \<open>The rule on natural numbers, for a target \<open>t\<close>.\<close>

definition base_fee_rule :: "nat \<Rightarrow> nat \<Rightarrow> nat \<Rightarrow> nat" where
  "base_fee_rule b u t =
     (if t < u then b + max (b * (u - t) div t div 8) 1 else b - b * (t - u) div t div 8)"

lemma unat_max_word: "unat (max a b :: 'a::len word) = max (unat a) (unat b)"
  by (simp add: max_def word_le_unat)

lemma base_fee_down: "0 < t \<Longrightarrow> b * (t - u) div t div 8 \<le> (b :: nat)"
proof -
  assume t: "0 < t"
  have "b * (t - u) div t \<le> b * t div t" by (intro div_le_mono mult_le_mono) auto
  with t show ?thesis by (simp add: order.trans [OF div_le_dividend])
qed

lemma scaled_bind:
  "t \<noteq> 0 \<Longrightarrow>
   Option.bind (checked_mul b d) (\<lambda>m. Option.bind (checked_div m t) (\<lambda>m. Option.bind (checked_div m DENOM) f)) =
     (if unat b * unat d < 2 ^ 128 then f (b * d div t div 8) else None)"
  by (simp add: checked_mul_def checked_div_def DENOM_def)

lemma unat_scaled:
  "unat (b :: u128) * unat d < 2 ^ 128 \<Longrightarrow> unat (b * d div t div 8) = unat b * unat d div unat t div 8"
  by (simp add: unat_div_exact unat_mul_exact)

lemma next_base_fee_Some:
  "next_base_fee b u l = Some c \<longleftrightarrow>
     (let t = unat l div 2 in
      0 < t \<and> unat b * (max (unat u) t - min (unat u) t) < 2 ^ 128 \<and>
      unat c = base_fee_rule (unat b) (unat u) t)"
proof -
  define t where "t = l div 2"
  have ut: "unat t = unat l div 2" by (simp add: t_def unat_div_exact)
  have target: "checked_div l ELASTICITY = Some t" by (simp add: checked_div_def ELASTICITY_def t_def)
  have wide: "unat (ucast (w :: u64) :: u128) = unat w" for w by (rule unat_ucast_wide) simp
  have wide0: "(ucast w :: u128) = 0 \<longleftrightarrow> w = 0" for w :: u64
    using wide [of w] by (metis unat_0 word_eq_unatI)
  consider "t = 0" | "t \<noteq> 0" "u = t" | "t \<noteq> 0" "t < u" | "t \<noteq> 0" "u < t" by fastforce
  then show ?thesis
  proof cases
    case 1
    then have "unat l div 2 = 0" using ut by simp
    then show ?thesis using 1 by (simp add: next_base_fee_def target)
  next
    case 2
    then have "0 < unat t" by (metis unat_0 word_eq_unatI gr0I)
    then show ?thesis
      using 2 ut by (auto simp: next_base_fee_def target base_fee_rule_def Let_def intro: word_eq_unatI)
  next
    case 3
    then have less: "unat t < unat u" and pos: "0 < unat t"
      by (simp_all add: word_less_unat) (metis unat_0 word_eq_unatI gr0I)
    have sub: "checked_sub u t = Some (u - t)" and d: "unat (u - t) = unat u - unat t"
      using 3 by (simp_all add: checked_sub_def unat_sub_exact)
    have "next_base_fee b u l =
        (if unat b * (unat u - unat t) < 2 ^ 128
         then checked_add b (max (b * ucast (u - t) div ucast t div 8) 1) else None)"
      using 3 less by (auto simp: next_base_fee_def target Let_def sub scaled_bind wide0 wide d)
    then show ?thesis
      using less pos unat_scaled [of b "ucast (u - t)" "ucast t"]
      by (simp add: ut [symmetric] Let_def base_fee_rule_def checked unat_max_word wide d)
  next
    case 4
    then have less: "unat u < unat t" by (simp add: word_less_unat)
    have sub: "checked_sub t u = Some (t - u)" and d: "unat (t - u) = unat t - unat u"
      using 4 by (simp_all add: checked_sub_def unat_sub_exact)
    have "next_base_fee b u l =
        (if unat b * (unat t - unat u) < 2 ^ 128
         then checked_sub b (b * ucast (t - u) div ucast t div 8) else None)"
      using 4 less by (auto simp: next_base_fee_def target Let_def sub scaled_bind wide0 wide d)
    then show ?thesis
      using less unat_scaled [of b "ucast (t - u)" "ucast t"] base_fee_down [of "unat t" "unat b" "unat u"]
      by (simp add: ut [symmetric] Let_def base_fee_rule_def checked wide d)
  qed
qed

text \<open>From eight wei on a block raises the fee by at most an eighth, and below eight by one.\<close>

lemma base_fee_rule_growth:
  assumes "0 < t" and "u \<le> 2 * t"
  shows "8 \<le> b \<Longrightarrow> 8 * base_fee_rule b u t \<le> 9 * b"
    and "b < 8 \<Longrightarrow> base_fee_rule b u t \<le> 8"
proof -
  have "b * (u - t) div t \<le> b * t div t" using assms by (intro div_le_mono mult_le_mono) auto
  then have "b * (u - t) div t div 8 \<le> b div 8" using assms(1) by (simp add: div_le_mono)
  then have "base_fee_rule b u t \<le> b + max (b div 8) 1" by (auto simp: base_fee_rule_def)
  then show "8 \<le> b \<Longrightarrow> 8 * base_fee_rule b u t \<le> 9 * b"
    and "b < 8 \<Longrightarrow> base_fee_rule b u t \<le> 8"
    by (simp_all add: max_def split: if_splits)
qed

text \<open>The fee after a run of blocks, each given by its gas used and its gas limit.\<close>

fun fee_after :: "u128 \<Rightarrow> (u64 \<times> u64) list \<Rightarrow> u128 option" where
  "fee_after b [] = Some b"
| "fee_after b ((u, l) # hs) = Option.bind (next_base_fee b u l) (\<lambda>c. fee_after c hs)"

lemma fee_after_growth:
  assumes "fee_after f hs = Some g" and "\<forall>(u, l) \<in> set hs. unat u \<le> 2 * (unat l div 2)"
    and "8 \<le> b" and "8 ^ i * unat f \<le> 9 ^ i * b"
  shows "8 ^ (i + length hs) * unat g \<le> 9 ^ (i + length hs) * b"
  using assms(1,2,4)
proof (induction f hs arbitrary: i rule: fee_after.induct)
  case (1 f)
  then show ?case by simp
next
  case (2 f u l hs)
  then obtain c where c: "next_base_fee f u l = Some c" and rest: "fee_after c hs = Some g"
    by (auto simp: bind_eq_Some_conv)
  define t where "t = unat l div 2"
  have t: "0 < t" "unat u \<le> 2 * t" "unat c = base_fee_rule (unat f) (unat u) t"
    using c 2(3) by (simp_all add: next_base_fee_Some Let_def t_def)
  have "8 ^ Suc i * unat c \<le> 9 ^ Suc i * b"
  proof (cases "8 \<le> unat f")
    case True
    then have "8 ^ i * (8 * unat c) \<le> 8 ^ i * (9 * unat f)"
      using base_fee_rule_growth(1) [OF t(1,2)] t(3) by simp
    also have "\<dots> \<le> 9 * (9 ^ i * b)" using 2(4) by simp
    finally show ?thesis by simp
  next
    case False
    then have "unat c \<le> b"
      using base_fee_rule_growth(2) [OF t(1,2), of "unat f"] t(3) assms(3) by linarith
    then show ?thesis by (intro mult_le_mono power_mono) auto
  qed
  with 2(1) [OF c rest, of "Suc i"] 2(3) show ?case by simp
qed

lemma fee_loop_Ok:
  "fee_loop k num den = Ok (n, d) \<Longrightarrow> unat n = unat num * 9 ^ k \<and> unat d = unat den * 8 ^ k"
  by (induction k arbitrary: num den) (auto simp: rust checked)

lemma max_fee_per_gas_ceil:
  assumes "max_fee_per_gas b k = Ok c"
  shows "b \<noteq> 0" and "unat c = (unat b * 9 ^ unat k + 8 ^ unat k - 1) div 8 ^ unat k"
proof -
  show "b \<noteq> 0" using assms by (auto simp: max_fee_per_gas_def split: if_splits)
  show "unat c = (unat b * 9 ^ unat k + 8 ^ unat k - 1) div 8 ^ unat k"
  proof (cases "k = 0")
    case True
    then show ?thesis using assms by (auto simp: max_fee_per_gas_def split: if_splits)
  next
    case False
    then obtain n d where nd: "fee_loop (unat k) (ucast b) 1 = Ok (n, d)"
      and "unat c = (unat n + (unat d - 1)) div unat d"
      using assms by (auto simp: max_fee_per_gas_def rust checked split: if_splits)
    moreover have "unat n = unat b * 9 ^ unat k" "unat d = 8 ^ unat k"
      using fee_loop_Ok [OF nd] by (simp_all add: unat_ucast_wide)
    ultimately show ?thesis by simp
  qed
qed

text \<open>
  C25. The fee ceiling bound to a window, against every run of valid headers (gas used at most the gas limit)
  up to the last block of the window: from a base fee of eight wei no block asks more than
  \<^verbatim>\<open>max_fee_per_gas\<close>, unless some block of the run was filled to the last unit of an odd gas limit.
\<close>

theorem fee_cap_covers_span:
  assumes "bind_fees q target_block max_block = Ok fees"
    and "8 \<le> fq_next_base_fee q"
    and "length hs \<le> unat max_block - unat target_block"
    and "list_all (\<lambda>(used, limit). used \<le> limit) hs"
    and "fee_after (fq_next_base_fee q) hs = Some f"
  shows "f \<le> bf_max_fee_per_gas fees \<or> (\<exists>limit. (limit, limit) \<in> set hs \<and> odd (unat limit))"
proof (rule disjCI)
  assume full: "\<not> (\<exists>limit. (limit, limit) \<in> set hs \<and> odd (unat limit))"
  have gas: "\<forall>(u, l) \<in> set hs. unat u \<le> 2 * (unat l div 2)"
  proof safe
    fix u l assume ul: "(u, l) \<in> set hs"
    then have "unat u \<le> unat l" using assms(4) by (auto simp: list_all_iff word_le_unat)
    moreover have "even (unat l) \<or> unat u \<noteq> unat l" using full ul by (auto dest: word_eq_unatI)
    ultimately show "unat u \<le> 2 * (unat l div 2)" by presburger
  qed
  let ?b = "unat (fq_next_base_fee q)"
  define c where "c = bf_max_fee_per_gas fees"
  obtain k where k: "unat k = unat max_block - unat target_block" and c: "max_fee_per_gas (fq_next_base_fee q) k = Ok c"
    using assms(1) by (auto simp: bind_fees_def rust checked c_def split: if_splits)
  have b: "8 \<le> ?b" using assms(2) by (simp add: word_le_unat)
  define n where "n = length hs"
  have n: "unat k - n + n = unat k" using assms(3) k by (simp add: n_def)
  have grown: "8 ^ n * unat f \<le> 9 ^ n * ?b"
    using fee_after_growth [OF assms(5) gas b, of 0] by (simp add: n_def)
  have "(8::nat) ^ (unat k - n) \<le> 9 ^ (unat k - n)" by (rule power_mono) auto
  then have "8 ^ (unat k - n) * (8 ^ n * unat f) \<le> 9 ^ (unat k - n) * (9 ^ n * ?b)"
    by (rule mult_le_mono [OF _ grown])
  then have "8 ^ unat k * unat f \<le> 9 ^ unat k * ?b"
    using n by (simp flip: mult.assoc power_add)
  then have "unat f \<le> 9 ^ unat k * ?b div 8 ^ unat k"
    by (simp add: less_eq_div_iff_mult_less_eq mult.commute)
  also have "\<dots> \<le> (?b * 9 ^ unat k + 8 ^ unat k - 1) div 8 ^ unat k"
    by (intro div_le_mono) (simp add: mult.commute Suc_leI le_diff_conv2 trans_le_add1)
  also have "\<dots> = unat c" using max_fee_per_gas_ceil(2) [OF c] by simp
  finally show "f \<le> bf_max_fee_per_gas fees" by (simp add: word_le_unat c_def)
qed

lemma next_base_fee_eval:
  assumes "0 < unat l div 2"
    and "unat b * (max (unat u) (unat l div 2) - min (unat u) (unat l div 2)) < 2 ^ 128"
    and "unat c = base_fee_rule (unat b) (unat u) (unat l div 2)"
  shows "next_base_fee b u l = Some c"
  using assms by (simp add: next_base_fee_Some Let_def)

definition sample_quote :: fee_quote where
  "sample_quote = \<lparr>fq_parent_block = 100, fq_next_base_fee = 1000, fq_priority_wei = 1, fq_modest_priority_wei = 1\<rparr>"

lemma sample_fee_run:
  "next_base_fee 1000 30000000 30000000 = Some 1125" "next_base_fee 1125 30000000 30000000 = Some 1265"
  "next_base_fee 1 30000000 30000000 = Some 2" "next_base_fee 2 30000000 30000000 = Some 3"
  by (rule next_base_fee_eval; simp add: base_fee_rule_def)+

lemma fee_loop_2:
  "fee_loop 2 num den =
     and_then (ok_or (checked_mul num 9) FeeOverflow) (\<lambda>num.
     and_then (ok_or (checked_mul den 8) FeeOverflow) (\<lambda>den.
     and_then (ok_or (checked_mul num 9) FeeOverflow) (\<lambda>num.
     and_then (ok_or (checked_mul den 8) FeeOverflow) (\<lambda>den. Ok (num, den)))))"
  unfolding numeral_2_eq_2 by simp

lemma sample_bind:
  "bind_fees sample_quote 101 103 =
     Ok \<lparr>bf_max_fee_per_gas = 1266, bf_max_priority_fee_per_gas = 1, bf_k = 2\<rparr>"
  by (simp add: bind_fees_def sample_quote_def checked_add_def checked_sub_def max_fee_per_gas_def checked_mul_def
      fee_loop_2 checked_div_def try_narrow_def word_le_unat word_less_unat)

theorem fee_cap_covers_span_witness:
  "\<exists>fees f. bind_fees sample_quote 101 103 = Ok fees \<and>
     fee_after 1000 [(30000000, 30000000), (30000000, 30000000)] = Some f \<and> f \<le> bf_max_fee_per_gas fees"
proof -
  have "fee_after (fq_next_base_fee sample_quote) [(30000000, 30000000), (30000000, 30000000)] = Some 1265"
    by (simp add: sample_quote_def sample_fee_run)
  from fee_cap_covers_span [OF sample_bind _ _ _ this]
  have "1265 \<le> bf_max_fee_per_gas \<lparr>bf_max_fee_per_gas = 1266, bf_max_priority_fee_per_gas = 1, bf_k = 2\<rparr>"
    by (simp add: sample_quote_def word_le_unat)
  then show ?thesis using sample_bind sample_fee_run by auto
qed

text \<open>Below eight wei the rule's step of one wei outruns the compounded eighth.\<close>

lemma fee_cap_short_below_eight:
  "max_fee_per_gas 1 2 = Ok 2 \<and> fee_after 1 [(30000000, 30000000), (30000000, 30000000)] = Some 3"
proof
  show "max_fee_per_gas 1 2 = Ok 2"
    by (simp add: max_fee_per_gas_def checked_mul_def fee_loop_2 checked_sub_def checked_add_def checked_div_def
        try_narrow_def word_le_unat)
  show "fee_after 1 [(30000000, 30000000), (30000000, 30000000)] = Some 3" by (simp add: sample_fee_run)
qed

text \<open>Nor is the exception for odd limits empty: the target is rounded down, so a full block raises the fee by
  more than an eighth.\<close>

lemma fee_cap_short_odd_limit:
  "max_fee_per_gas 120000000 1 = Ok 135000000 \<and> fee_after 120000000 [(30000001, 30000001)] = Some 135000001"
proof
  show "max_fee_per_gas 120000000 1 = Ok 135000000"
    by (simp add: max_fee_per_gas_def checked_mul_def checked_sub_def checked_add_def checked_div_def
        try_narrow_def word_le_unat)
  have "next_base_fee 120000000 30000001 30000001 = Some 135000001"
    by (rule next_base_fee_eval) (simp_all add: base_fee_rule_def)
  then show "fee_after 120000000 [(30000001, 30000001)] = Some 135000001" by simp
qed

text \<open>
  The base-fee rule on machine integers is the rule on natural numbers, and it refuses exactly a gas
  limit below two, a product of base fee and gas distance above 128 bits, or a raised fee above 128 bits.
\<close>

theorem next_base_fee_exact:
  "map_option unat (next_base_fee b u l) =
     (let t = unat l div 2; f = base_fee_rule (unat b) (unat u) t in
      if t = 0 \<or> 2 ^ 128 \<le> unat b * (max (unat u) t - min (unat u) t) \<or> 2 ^ 128 \<le> f
      then None else Some f)"
proof (cases "next_base_fee b u l")
  case None
  define t f where "t = unat l div 2" and "f = base_fee_rule (unat b) (unat u) t"
  have "t = 0 \<or> 2 ^ 128 \<le> unat b * (max (unat u) t - min (unat u) t)" if "f < 2 ^ 128"
  proof -
    have "unat (of_nat f :: u128) = f" using that by simp
    then show ?thesis using None next_base_fee_Some [of b u l "of_nat f"] by (auto simp: Let_def t_def f_def)
  qed
  then show ?thesis using None by (auto simp: Let_def t_def f_def not_le)
next
  case (Some c)
  then show ?thesis
    using unat_bound [of c] by (auto simp: next_base_fee_Some Let_def)
qed

section \<open>The priority ring\<close>

text \<open>The samples the ring holds, oldest first.\<close>

definition go_window :: "gas_oracle \<Rightarrow> u64 list" where
  "go_window o' =
     (if length (go_pri o') < go_cap o' then go_pri o'
      else drop (go_next o') (go_pri o') @ take (go_next o') (go_pri o'))"

definition go_inv :: "gas_oracle \<Rightarrow> bool" where
  "go_inv o' \<longleftrightarrow>
     0 < go_cap o' \<and> go_cap o' < USIZE_LIMIT \<and> length (go_pri o') \<le> go_cap o' \<and> go_len o' = length (go_pri o') \<and>
     go_next o' < go_cap o' \<and> (length (go_pri o') < go_cap o' \<longrightarrow> go_next o' = length (go_pri o'))"

definition last_n :: "nat \<Rightarrow> 'a list \<Rightarrow> 'a list" where
  "last_n n xs = drop (length xs - n) xs"

lemma last_n_short: "length xs \<le> n \<Longrightarrow> last_n n xs = xs"
  by (simp add: last_n_def)

lemma last_n_append: "last_n n (last_n n xs @ ys) = last_n n (xs @ ys)"
  by (cases "length xs \<le> n") (simp_all add: last_n_def add.commute)

lemma go_window_mset: "mset (go_window o') = mset (go_pri o')"
  unfolding go_window_def by (auto, metis append_take_drop_id mset_append union_commute)

lemma push_priority_window:
  assumes "go_inv o'"
  shows "go_inv (push_priority p o') \<and> go_cap (push_priority p o') = go_cap o' \<and>
         go_window (push_priority p o') = last_n (go_cap o') (go_window o' @ [p])"
proof (cases "length (go_pri o') < go_cap o'")
  case True
  then have "go_window (push_priority p o') = go_window o' @ [p]"
    by (cases "Suc (length (go_pri o')) = go_cap o'")
      (auto simp: push_priority_def go_window_def usize_rem_def Let_def)
  moreover have "go_inv (push_priority p o')"
    using True assms by (auto simp: push_priority_def go_inv_def usize_rem_def Let_def)
  ultimately show ?thesis using True
    by (simp add: last_n_short push_priority_def Let_def go_window_def [of o'])
next
  case False
  define pri k where "pri = go_pri o'" and "k = go_next o'"
  have full: "length pri = go_cap o'" and k: "k < length pri"
    using assms False by (auto simp: go_inv_def pri_def k_def)
  have add: "usize_add k 1 = Some (k + 1)"
    using assms k full by (simp add: usize_add_def go_inv_def)
  have push: "push_priority p o' =
      o'\<lparr>go_pri := pri[k := p], go_next := (k + 1) mod length pri, go_len := length pri\<rparr>"
    using False k full by (auto simp: push_priority_def add [simplified] usize_rem_def simp flip: pri_def k_def)
  have "drop ((k + 1) mod length pri) (pri[k := p]) @ take ((k + 1) mod length pri) (pri[k := p]) =
      drop (Suc k) pri @ take k pri @ [p]"
  proof (cases "k + 1 = length pri")
    case True
    then show ?thesis by (simp add: list_eq_iff_nth_eq nth_append nth_list_update)
  next
    case False
    then have "(k + 1) mod length pri = Suc k" using k by simp
    then show ?thesis using k by (simp add: take_Suc_conv_app_nth)
  qed
  moreover have "go_window o' = pri ! k # drop (Suc k) pri @ take k pri"
    using False k by (simp add: go_window_def Cons_nth_drop_Suc flip: pri_def k_def)
  ultimately show ?thesis
    using assms full k by (auto simp: push go_window_def last_n_def go_inv_def)
qed

lemma push_all_window:
  assumes "go_inv o'"
  shows "go_inv (fold push_priority ps o') \<and> go_cap (fold push_priority ps o') = go_cap o' \<and>
         go_window (fold push_priority ps o') = last_n (go_cap o') (go_window o' @ ps)"
  using assms
proof (induction ps arbitrary: o')
  case Nil
  then have "length (go_window o') \<le> go_cap o'" by (auto simp: go_window_def go_inv_def)
  with Nil show ?case by (simp add: last_n_short)
next
  case (Cons p ps)
  then show ?case
    using push_priority_window [of o' p] Cons.IH [of "push_priority p o'"] by (simp add: last_n_append)
qed

text \<open>A history of parent headers: base fee, gas used, gas limit and priority samples. A refused header
  contributes nothing.\<close>

definition observe_all :: "(u128 \<times> u64 \<times> u64 \<times> u64 list) list \<Rightarrow> gas_oracle \<Rightarrow> gas_oracle" where
  "observe_all hs = fold (\<lambda>(b, u, l, ps) o'. snd (observe_parent b u l ps o')) hs"

definition accepted :: "(u128 \<times> u64 \<times> u64 \<times> u64 list) list \<Rightarrow> u64 list" where
  "accepted hs =
     concat (map (\<lambda>(b, u, l, ps). if header_gas_limit l = None \<or> next_base_fee b u l = None then [] else ps) hs)"

lemma observe_parent_window:
  assumes "go_inv o'"
  shows "go_inv (snd (observe_parent b u l ps o')) \<and> go_cap (snd (observe_parent b u l ps o')) = go_cap o' \<and>
         go_window (snd (observe_parent b u l ps o')) = last_n (go_cap o') (go_window o' @ accepted [(b, u, l, ps)])"
proof -
  have len: "length (go_window o') \<le> go_cap o'" using assms by (auto simp: go_window_def go_inv_def)
  show ?thesis
  proof (cases "header_gas_limit l = None \<or> next_base_fee b u l = None")
    case True
    then have "snd (observe_parent b u l ps o') = o'"
      by (cases "header_gas_limit l") (auto simp: observe_parent_def)
    with True assms len show ?thesis by (auto simp: accepted_def last_n_short)
  next
    case False
    then obtain x y where xy: "header_gas_limit l = Some x" "next_base_fee b u l = Some y" by auto
    define o2 where "o2 = o'\<lparr>go_next_base := Some y, go_gas_limit := Some x\<rparr>"
    have "go_inv o2" "go_window o2 = go_window o'" "go_cap o2 = go_cap o'"
      using assms by (simp_all add: o2_def go_inv_def go_window_def)
    then show ?thesis
      using push_all_window [of o2 ps] xy by (simp add: observe_parent_def accepted_def o2_def)
  qed
qed

lemma observe_all_window:
  "go_inv o' \<Longrightarrow>
   go_inv (observe_all hs o') \<and> go_cap (observe_all hs o') = go_cap o' \<and>
   go_window (observe_all hs o') = last_n (go_cap o') (go_window o' @ accepted hs)"
proof (induction hs arbitrary: o')
  case Nil
  then have "length (go_window o') \<le> go_cap o'" by (auto simp: go_window_def go_inv_def)
  with Nil show ?case by (simp add: observe_all_def accepted_def last_n_short)
next
  case (Cons h hs)
  obtain b u l ps where h: "h = (b, u, l, ps)" by (cases h)
  define o2 where "o2 = snd (observe_parent b u l ps o')"
  have "observe_all (h # hs) o' = observe_all hs o2" by (simp add: observe_all_def h o2_def)
  moreover have "accepted (h # hs) = accepted [(b, u, l, ps)] @ accepted hs" by (simp add: accepted_def h)
  ultimately show ?case
    using observe_parent_window [OF Cons.prems, of b u l ps] Cons.IH [of o2]
    by (simp add: last_n_append flip: o2_def append_assoc)
qed

lemma sorted_rank:
  assumes "sorted xs" and "i < length xs"
  shows "Suc i \<le> length (filter (\<lambda>x. x \<le> xs ! i) xs)" and "length (filter (\<lambda>x. x < xs ! i) xs) \<le> i"
proof -
  have "Suc i = card {..i}" by simp
  also have "\<dots> \<le> card {j. j < length xs \<and> xs ! j \<le> xs ! i}"
    using assms by (intro card_mono) (auto intro: sorted_nth_mono)
  finally show "Suc i \<le> length (filter (\<lambda>x. x \<le> xs ! i) xs)" by (simp add: length_filter_conv_card)
  have "{j. j < length xs \<and> xs ! j < xs ! i} \<subseteq> {..<i}"
    using assms by (auto simp: not_le [symmetric] intro: ccontr dest: sorted_nth_mono)
  then have "card {j. j < length xs \<and> xs ! j < xs ! i} \<le> card {..<i}" by (intro card_mono) auto
  then show "length (filter (\<lambda>x. x < xs ! i) xs) \<le> i" by (simp add: length_filter_conv_card)
qed

lemma length_filter_mset: "mset xs = mset ys \<Longrightarrow> length (filter P xs) = length (filter P ys)"
  by (metis mset_filter size_mset)

lemma nearest_rank:
  fixes n p :: nat
  assumes "0 < n" and "1 \<le> p" and "p \<le> 99"
  defines "r \<equiv> (n * p + 99) div 100"
  shows "0 < r" and "r \<le> n" and "p * n \<le> 100 * r" and "100 * (r - 1) < p * n"
proof -
  have "1 * 1 \<le> n * p" using assms by (intro mult_le_mono) auto
  then show "0 < r" by (simp add: r_def div_greater_zero_iff)
  have "n * p \<le> n * 99" using assms by (intro mult_le_mono) auto
  then show "r \<le> n" unfolding r_def by linarith
  show "p * n \<le> 100 * r" using mult.commute [of p n] unfolding r_def by linarith
  show "100 * (r - 1) < p * n"
    using \<open>0 < r\<close> mult.commute [of p n] unfolding r_def by linarith
qed

lemma priority_percentile_eq:
  assumes "go_inv o'" and "go_cap o' < 2 ^ 57"
  shows "priority_percentile o' pct =
     (if \<not> (1 \<le> pct \<and> pct \<le> 99) then Err (BadPercentile pct)
      else if go_window o' = [] then Err EmptyPriorityWindow
      else Ok (sort (go_window o') ! ((length (go_window o') * unat pct + 99) div 100 - 1)))"
proof (cases "1 \<le> pct \<and> pct \<le> 99 \<and> go_window o' \<noteq> []")
  case False
  have "go_len o' = 0 \<longleftrightarrow> go_window o' = []"
    using assms by (auto simp: go_inv_def simp flip: size_mset go_window_mset)
  with False show ?thesis by (auto simp: priority_percentile_def)
next
  case True
  define W n p where "W = go_window o'" and "n = length W" and "p = unat pct"
  have p: "1 \<le> p" "p \<le> 99" using True by (simp_all add: p_def word_le_unat)
  have len: "go_len o' = n" "length (go_pri o') = n"
    using assms(1) by (simp_all add: n_def W_def go_inv_def flip: size_mset go_window_mset)
  have n: "0 < n" "n < 2 ^ 57" using True assms len by (auto simp: n_def W_def go_inv_def)
  have small: "n * p + 99 < USIZE_LIMIT"
  proof -
    have "n * p \<le> 2 ^ 57 * 99" using n p by (intro mult_le_mono) auto
    then show ?thesis by (simp add: USIZE_LIMIT_def)
  qed
  have sorted_pri: "sort (go_pri o') = sort W"
    by (metis W_def go_window_mset sorted_list_of_multiset_mset)
  note r = nearest_rank [OF n(1) p]
  have idx: "min ((n * p + 99) div 100 - 1) (n - 1) = (n * p + 99) div 100 - 1" using r by simp
  have "usize_mul n p = Some (n * p)" "usize_add (n * p) 99 = Some (n * p + 99)"
    using small by (simp_all add: usize_mul_def usize_add_def)
  then have "priority_percentile o' pct = ok_or (get (sort W) ((n * p + 99) div 100 - 1)) EmptyPriorityWindow"
    using True len n idx by (simp add: priority_percentile_def Let_def sorted_pri flip: p_def)
  moreover have "(n * p + 99) div 100 - 1 < length (sort W)" using r n by (simp add: n_def)
  ultimately show ?thesis using True by (simp add: get_def flip: W_def n_def p_def)
qed

text \<open>
  After any history of parent headers the percentile query answers exactly for percentiles 1 to 99 of a
  nonempty window, the window is the last \<open>cap\<close> samples of the accepted headers, and the answer is the
  nearest-rank percentile: a held sample with at least that share of the window at or below it and less
  than that share strictly below it.
\<close>

theorem percentile_nearest_rank:
  assumes "with_priority_cap cap = Some start" and "cap < 2 ^ 57"
  shows "(is_ok (priority_percentile (observe_all hs start) pct) \<longleftrightarrow>
            1 \<le> pct \<and> pct \<le> 99 \<and> last_n cap (accepted hs) \<noteq> []) \<and>
         (\<forall>v. priority_percentile (observe_all hs start) pct = Ok v \<longrightarrow>
            v \<in> set (last_n cap (accepted hs)) \<and>
            unat pct * length (last_n cap (accepted hs)) \<le>
              100 * length (filter (\<lambda>x. x \<le> v) (last_n cap (accepted hs))) \<and>
            100 * length (filter (\<lambda>x. x < v) (last_n cap (accepted hs))) <
              unat pct * length (last_n cap (accepted hs)))"
proof -
  define o' W where "o' = observe_all hs start" and "W = last_n cap (accepted hs)"
  have start: "go_inv start" "go_cap start = cap" "go_window start = []"
    using assms by (auto simp: with_priority_cap_def go_inv_def go_window_def USIZE_LIMIT_def split: if_splits)
  have o': "go_inv o'" "go_cap o' = cap" "go_window o' = W"
    using observe_all_window [OF start(1), of hs] start by (simp_all add: o'_def W_def)
  note eq = priority_percentile_eq [OF o'(1), of pct, unfolded o', OF assms(2)]
  have "v \<in> set W \<and> unat pct * length W \<le> 100 * length (filter (\<lambda>x. x \<le> v) W) \<and>
      100 * length (filter (\<lambda>x. x < v) W) < unat pct * length W"
    if "priority_percentile o' pct = Ok v" for v
  proof -
    define r where "r = (length W * unat pct + 99) div 100"
    have v: "v = sort W ! (r - 1)" and ne: "0 < length W" and p: "1 \<le> unat pct" "unat pct \<le> 99"
      using that unfolding eq by (auto simp: r_def word_le_unat split: if_splits)
    note r = nearest_rank [OF ne p, folded r_def]
    have i: "r - 1 < length (sort W)" using r ne by simp
    have m: "mset (sort W) = mset W" by simp
    show ?thesis
      using sorted_rank [OF sorted_sort i] r nth_mem [OF i]
      by (simp add: v length_filter_mset [OF m])
  qed
  moreover have "is_ok (priority_percentile o' pct) \<longleftrightarrow> 1 \<le> pct \<and> pct \<le> 99 \<and> W \<noteq> []"
    unfolding eq by auto
  ultimately show ?thesis unfolding o'_def W_def by blast
qed

theorem percentile_nearest_rank_witness:
  "\<exists>start. with_priority_cap 2 = Some start \<and>
     is_ok (priority_percentile (observe_all [(1000, 15000000, 30000000, [1, 2, 3])] start) 50)"
proof -
  have "next_base_fee 1000 15000000 30000000 = Some 1000"
    by (rule next_base_fee_eval; simp add: base_fee_rule_def)
  then have "last_n 2 (accepted [(1000, 15000000, 30000000, [1, 2, 3])]) = [2, 3]"
    by (simp add: last_n_def accepted_def header_gas_limit_def word_less_unat)
  then show ?thesis
    using percentile_nearest_rank [of 2 _ "[(1000, 15000000, 30000000, [1, 2, 3])]" 50]
    by (auto simp: with_priority_cap_def word_le_unat)
qed

end
