(* ===== verification/Viability.thy ===== *)
theory Viability
  imports Fixed_Point Model_Types
begin

text \<open>
  The viability band of \<^verbatim>\<open>crates/liq-router/src/band.rs\<close>: for one protocol and one pair of assets, the
  debt sizes at which a liquidation nets something. A geometric scan finds the first viable size and the
  first size past the last viable one, and a bisection sharpens each edge. The gas terms are those of
  \<^verbatim>\<open>crates/liq-router/src/exact.rs\<close>. The exit solver and the haircut are the arguments of the band
  context, as in the code; every theorem holds for all of them. The bisections are
  \<open>partial_function\<close>s, so that not returning is the value \<open>None\<close>; the lemmas show that they always
  return, that the published edges are viable, and how close they are to a size that is not.
\<close>

section \<open>Gas and pair terms\<close>

datatype route_error = BadLeg | StalePool | InsufficientLiquidity | Math | MissingInput

definition WEI_PER_ETH :: u256 where
  "WEI_PER_ETH = 1000000000000000000"

definition narrow :: "u512 \<Rightarrow> (u256, route_error) result" where
  "narrow q = ok_or (try_narrow q) Math"

definition mul_div_512 :: "u256 \<Rightarrow> u256 \<Rightarrow> u256 \<Rightarrow> (u256, route_error) result" where
  "mul_div_512 a b d =
     (if d = 0 then Err Math
      else
        and_then (ok_or (checked_mul (ucast a :: u512) (ucast b)) Math) (\<lambda>p.
        and_then (ok_or (checked_div p (ucast d)) Math) narrow))"

record gas_terms =
  gt_base_fee_wei :: u128
  gt_priority_fee_wei :: u128
  gt_out_per_eth :: u256

definition accounting_wei_per_gas :: "gas_terms \<Rightarrow> (u128, route_error) result" where
  "accounting_wei_per_gas g = ok_or (checked_add (gt_base_fee_wei g) (gt_priority_fee_wei g)) Math"

definition cost_in_out :: "gas_terms \<Rightarrow> u64 \<Rightarrow> (u256, route_error) result" where
  "cost_in_out g gas =
     and_then (accounting_wei_per_gas g) (\<lambda>per.
     and_then (ok_or (checked_mul (ucast gas) (ucast per)) Math) (\<lambda>wei.
     mul_div_512 wei (gt_out_per_eth g) WEI_PER_ETH))"

record pair_terms =
  tm_bonus :: ray
  tm_coll_per_debt :: ray
  tm_flash_fee_bps :: u16
  tm_fixed_gas :: u64

record viability_band =
  vb_min_size :: u256
  vb_max_size :: u256
  vb_base_fee :: u128
  vb_block :: u64

definition seized_for :: "u256 \<Rightarrow> pair_terms \<Rightarrow> (u256, route_error) result" where
  "seized_for s t =
     and_then (ok_or (checked_add RAY (ray_raw (tm_bonus t))) Math) (\<lambda>one_plus.
     and_then (mul_div_512 s one_plus RAY) (\<lambda>eq.
     mul_div_512 eq (ray_raw (tm_coll_per_debt t)) RAY))"

section \<open>Viability of one size\<close>

text \<open>\<open>bc_solve\<close> is \<^verbatim>\<open>solve_pair\<close> on the context's book, assets, gas terms and budget: the output amount and
  the hop gas of a seized amount, or its error.\<close>

record band_ctx =
  bc_terms :: pair_terms
  bc_gas :: gas_terms
  bc_solve :: "u256 \<Rightarrow> (u256 \<times> u64, route_error) result"
  bc_haircut :: "u256 \<Rightarrow> u256 \<Rightarrow> u256"

definition EDGE_TOL :: u256 where
  "EDGE_TOL = 1000"

definition BAND_BPS :: u256 where
  "BAND_BPS = 10000"

definition viable :: "band_ctx \<Rightarrow> u256 \<Rightarrow> (bool option, route_error) result" where
  "viable ctx s =
     (let t = bc_terms ctx in
      case seized_for s t of
        Err _ \<Rightarrow> Ok None
      | Ok seized \<Rightarrow>
          if seized = 0 then Ok (Some False)
          else (case bc_solve ctx seized of
              Err e \<Rightarrow> (if e = InsufficientLiquidity \<or> e = Math then Ok None else Err e)
            | Ok (amount_out, hop_gas) \<Rightarrow>
                let out = bc_haircut ctx seized amount_out in
                and_then (mul_div_512 s (ucast (tm_flash_fee_bps t)) BAND_BPS) (\<lambda>flash.
                and_then (ok_or (checked_add (tm_fixed_gas t) hop_gas) Math) (\<lambda>gas.
                and_then (cost_in_out (bc_gas ctx) gas) (\<lambda>gas_cost.
                and_then (ok_or (Option.bind (checked_add s flash) (\<lambda>v. checked_add v gas_cost)) Math) (\<lambda>cost.
                Ok (Some (cost \<le> out))))))))"

section \<open>Scan and bisections\<close>

text \<open>What the scan leaves: the depth ended before gas was covered, or the last bad size below, the first
  and the last good sizes and the first bad size above.\<close>

datatype scan_end = Depth_Ended | Scanned u256 "u256 option" u256 "u256 option"

primrec scan_loop ::
  "nat \<Rightarrow> (u256 \<Rightarrow> (bool option, route_error) result) \<Rightarrow> u256 \<Rightarrow> u256 \<Rightarrow> u256 option \<Rightarrow> u256 \<Rightarrow>
   (scan_end, route_error) result" where
  "scan_loop 0 v s prev_bad first_good last_good = Ok (Scanned prev_bad first_good last_good None)"
| "scan_loop (Suc n) v s prev_bad first_good last_good =
     and_then (v s) (\<lambda>r.
       let continue = (\<lambda>prev_bad first_good last_good.
             case checked_mul s 2 of
               None \<Rightarrow> Ok (Scanned prev_bad first_good last_good None)
             | Some s' \<Rightarrow> scan_loop n v s' prev_bad first_good last_good)
       in case r of
            Some True \<Rightarrow> continue prev_bad (if first_good = None then Some s else first_good) s
          | Some False \<Rightarrow>
              (if first_good = None then continue s first_good last_good
               else Ok (Scanned prev_bad first_good last_good (Some s)))
          | None \<Rightarrow>
              (if first_good = None then Ok Depth_Ended
               else Ok (Scanned prev_bad first_good last_good (Some s))))"

definition edge_tol :: "u256 \<Rightarrow> u256" where
  "edge_tol hi = max (unwrap_or (checked_div hi EDGE_TOL) 1) 1"

partial_function (option) lower_loop ::
  "(u256 \<Rightarrow> (bool option, route_error) result) \<Rightarrow> u256 \<Rightarrow> u256 \<Rightarrow> (u256, route_error) result option" where
  "lower_loop v lo hi =
     (case checked_sub hi lo of
        None \<Rightarrow> Some (Err Math)
      | Some w \<Rightarrow>
          if edge_tol hi < w then
            (case checked_add lo (drop_bit 1 w) of
               None \<Rightarrow> Some (Err Math)
             | Some mid \<Rightarrow>
                 (case v mid of
                    Err e \<Rightarrow> Some (Err e)
                  | Ok r \<Rightarrow> if r = Some True then lower_loop v lo mid else lower_loop v mid hi))
          else Some (Ok hi))"

partial_function (option) upper_loop ::
  "(u256 \<Rightarrow> (bool option, route_error) result) \<Rightarrow> u256 \<Rightarrow> u256 \<Rightarrow> (u256, route_error) result option" where
  "upper_loop v lo hi =
     (case checked_sub hi lo of
        None \<Rightarrow> Some (Err Math)
      | Some w \<Rightarrow>
          if edge_tol hi < w then
            (case checked_add lo (drop_bit 1 w) of
               None \<Rightarrow> Some (Err Math)
             | Some mid \<Rightarrow>
                 (case v mid of
                    Err e \<Rightarrow> Some (Err e)
                  | Ok r \<Rightarrow> if r = Some True then upper_loop v mid hi else upper_loop v lo mid))
          else Some (Ok lo))"

definition try_some :: "('a, 'e) result option \<Rightarrow> ('a \<Rightarrow> ('b, 'e) result option) \<Rightarrow> ('b, 'e) result option" where
  "try_some x k = Option.bind x (\<lambda>r. case r of Err e \<Rightarrow> Some (Err e) | Ok y \<Rightarrow> k y)"

definition compute_band :: "band_ctx \<Rightarrow> u64 \<Rightarrow> (viability_band option, route_error) result option" where
  "compute_band ctx block =
     (let terms = bc_terms ctx; gas = bc_gas ctx; v = viable ctx in
      if RAY \<le> ray_raw (tm_bonus terms) then Some (Err BadLeg)
      else
        try_some (Some (cost_in_out gas (tm_fixed_gas terms))) (\<lambda>c.
        try_some (Some (scan_loop 256 v (max c 1) 0 None 0)) (\<lambda>found.
        case found of
          Depth_Ended \<Rightarrow> Some (Ok None)
        | Scanned prev_bad None last_good upper_bad \<Rightarrow> Some (Ok None)
        | Scanned prev_bad (Some first_good) last_good upper_bad \<Rightarrow>
            try_some (lower_loop v prev_bad first_good) (\<lambda>min_size.
            try_some
              (case upper_bad of
                 None \<Rightarrow> Some (Ok last_good)
               | Some bad \<Rightarrow> upper_loop v last_good bad)
              (\<lambda>max_size.
                Some (Ok (Some \<lparr>vb_min_size = min_size, vb_max_size = max_size,
                                vb_base_fee = gt_base_fee_wei gas, vb_block = block\<rparr>)))))))"

section \<open>The table\<close>

type_synonym band_key = "protocol_id \<times> asset_id \<times> asset_id"

record band_table =
  bt_bands :: "band_key \<Rightarrow> viability_band option"
  bt_block :: u64
  bt_base_fee :: u128

definition bt_get :: "band_table \<Rightarrow> protocol_id \<Rightarrow> asset_id \<Rightarrow> asset_id \<Rightarrow> viability_band option" where
  "bt_get t protocol coll debt = bt_bands t (protocol, coll, debt)"

text \<open>The registry and oracle inputs of one block, the haircut and the solver.\<close>

record band_inputs =
  bi_pair_terms :: "protocol_id \<Rightarrow> asset_id \<Rightarrow> asset_id \<Rightarrow> pair_terms option"
  bi_per_eth :: "asset_id \<Rightarrow> u256 option"
  bi_haircut :: "asset_id \<Rightarrow> asset_id \<Rightarrow> u256 \<Rightarrow> u256 \<Rightarrow> u256"
  bi_solve :: "asset_id \<Rightarrow> asset_id \<Rightarrow> gas_terms \<Rightarrow> u256 \<Rightarrow> (u256 \<times> u64, route_error) result"

primrec build_loop ::
  "band_inputs \<Rightarrow> u128 \<Rightarrow> u128 \<Rightarrow> u64 \<Rightarrow> band_key list \<Rightarrow> band_table \<Rightarrow> band_table option" where
  "build_loop inputs base_fee priority_fee block [] out = Some out"
| "build_loop inputs base_fee priority_fee block (key # keys) out =
     (case key of (protocol, coll, debt) \<Rightarrow>
       case (bi_pair_terms inputs protocol coll debt, bi_per_eth inputs debt) of
         (Some terms, Some per_eth) \<Rightarrow>
           let gas = \<lparr>gt_base_fee_wei = base_fee, gt_priority_fee_wei = priority_fee, gt_out_per_eth = per_eth\<rparr>;
               ctx = \<lparr>bc_terms = terms, bc_gas = gas, bc_solve = bi_solve inputs coll debt gas,
                      bc_haircut = bi_haircut inputs coll debt\<rparr>
           in Option.bind (compute_band ctx block) (\<lambda>r.
                build_loop inputs base_fee priority_fee block keys
                  (case r of
                     Ok (Some b) \<Rightarrow> out\<lparr>bt_bands := (bt_bands out)((protocol, coll, debt) \<mapsto> b)\<rparr>
                   | Ok None \<Rightarrow> out
                   | Err e \<Rightarrow> out))
       | _ \<Rightarrow> build_loop inputs base_fee priority_fee block keys out)"

definition build_table ::
  "band_key list \<Rightarrow> band_inputs \<Rightarrow> u128 \<Rightarrow> u128 \<Rightarrow> u64 \<Rightarrow> band_table option" where
  "build_table keys inputs base_fee priority_fee block =
     build_loop inputs base_fee priority_fee block keys
       \<lparr>bt_bands = (\<lambda>_. None), bt_block = block, bt_base_fee = base_fee\<rparr>"

section \<open>Proofs\<close>

definition good :: "('s \<Rightarrow> (bool option, 'e) result) \<Rightarrow> 's \<Rightarrow> bool" where
  "good v s \<longleftrightarrow> v s = Ok (Some True)"

definition bad :: "('s \<Rightarrow> (bool option, 'e) result) \<Rightarrow> 's \<Rightarrow> bool" where
  "bad v s \<longleftrightarrow> (\<exists>r. v s = Ok r \<and> r \<noteq> Some True)"

lemma good_not_bad: "good v s \<Longrightarrow> bad v t \<Longrightarrow> s \<noteq> t"
  by (auto simp: good_def bad_def)

lemma mul_div_512_Ok [checked]:
  "mul_div_512 a b d = Ok c \<longleftrightarrow> d \<noteq> 0 \<and> unat c = unat a * unat b div unat d"
proof (cases "d = 0")
  case True
  then show ?thesis by (simp add: mul_div_512_def)
next
  case False
  have d: "unat (ucast d :: u512) = unat d" by (rule unat_ucast_wide) simp
  have "(ucast d :: u512) \<noteq> 0" using False d by (metis unat_0 word_eq_unatI)
  moreover have "checked_mul (ucast a :: u512) (ucast b) = Some (ucast a * ucast b)"
    using u512_product [of a b] unat_bound [of "ucast a * ucast b :: u512"]
    by (simp add: checked_mul_def unat_ucast_wide)
  ultimately have "mul_div_512 a b d = narrow ((ucast a * ucast b) div ucast d)"
    using False by (simp add: mul_div_512_def checked_div_def)
  then show ?thesis
    using False by (simp add: narrow_def rust checked unat_div_exact u512_product d)
qed

lemma unat_edge_tol: "unat (edge_tol hi) = max (unat hi div 1000) 1"
  by (simp add: edge_tol_def checked_div_def EDGE_TOL_def max_def word_le_unat unat_div_exact)

text \<open>A step of either bisection splits a width above the tolerance into two shorter ones.\<close>

lemma bisect_mid:
  assumes "checked_sub hi lo = Some w" and "edge_tol hi < w"
  obtains mid where "checked_add lo (drop_bit 1 w) = Some mid" and "unat lo < unat mid" and "unat mid < unat hi"
proof -
  have w: "unat lo \<le> unat hi" "unat w = unat hi - unat lo" using assms(1) by (simp_all add: checked)
  have "1 < unat w" using assms(2) by (simp add: word_less_unat unat_edge_tol)
  moreover have half: "unat (drop_bit 1 w) = unat w div 2"
    by (simp add: drop_bit_eq_div unat_div_exact)
  ultimately have lt: "unat lo < unat lo + unat (drop_bit 1 w)" "unat lo + unat (drop_bit 1 w) < unat hi"
    using w by (simp_all add: half)
  then have "unat lo + unat (drop_bit 1 w) < 2 ^ 256"
    using unat_bound [of hi] by simp
  then have "checked_add lo (drop_bit 1 w) = Some (lo + drop_bit 1 w)"
    and "unat (lo + drop_bit 1 w) = unat lo + unat (drop_bit 1 w)"
    by (simp_all add: checked_add_def unat_add_exact)
  then show ?thesis using that lt by metis
qed

text \<open>What a bisection starts from and what it returns; \<open>up\<close> says which end is the viable one.\<close>

definition bisect_ends :: "(u256 \<Rightarrow> (bool option, route_error) result) \<Rightarrow> bool \<Rightarrow> u256 \<Rightarrow> u256 \<Rightarrow> bool" where
  "bisect_ends v up lo hi \<longleftrightarrow> good v (if up then lo else hi) \<and> bad v (if up then hi else lo)"

definition bisect_edge :: "(u256 \<Rightarrow> (bool option, route_error) result) \<Rightarrow> bool \<Rightarrow> u256 \<Rightarrow> u256 \<Rightarrow> u256 \<Rightarrow> bool" where
  "bisect_edge v up lo hi m \<longleftrightarrow>
     good v m \<and> unat lo \<le> unat m \<and> unat m \<le> unat hi \<and>
     (\<exists>b. bad v b \<and> (if up then unat m < unat b \<and> unat b - unat m \<le> max (unat b div 1000) 1
                     else unat b < unat m \<and> unat m - unat b \<le> max (unat m div 1000) 1))"

lemma bisect_edge_mono:
  "bisect_edge v up lo hi m \<Longrightarrow> unat lo' \<le> unat lo \<Longrightarrow> unat hi \<le> unat hi' \<Longrightarrow> bisect_edge v up lo' hi' m"
  by (auto simp: bisect_edge_def)

text \<open>
  Both loops are one scheme: a viable end and a non-viable end close in on each other until the
  width is within the tolerance, and the viable end is returned.
\<close>

locale bisection =
  fixes v :: "u256 \<Rightarrow> (bool option, route_error) result"
    and loop :: "u256 \<Rightarrow> u256 \<Rightarrow> (u256, route_error) result option"
    and up :: bool
  assumes inverted: "checked_sub hi lo = None \<Longrightarrow> loop lo hi = Some (Err Math)"
    and stops: "checked_sub hi lo = Some w \<Longrightarrow> \<not> edge_tol hi < w \<Longrightarrow> loop lo hi = Some (Ok (if up then lo else hi))"
    and failed: "checked_sub hi lo = Some w \<Longrightarrow> edge_tol hi < w \<Longrightarrow> checked_add lo (drop_bit 1 w) = Some mid \<Longrightarrow>
      v mid = Err e \<Longrightarrow> loop lo hi = Some (Err e)"
    and step: "checked_sub hi lo = Some w \<Longrightarrow> edge_tol hi < w \<Longrightarrow> checked_add lo (drop_bit 1 w) = Some mid \<Longrightarrow>
      v mid = Ok r \<Longrightarrow> loop lo hi = (if (r = Some True) = up then loop mid hi else loop lo mid)"
begin

lemma returns_edge: "\<exists>r. loop lo hi = Some r \<and> (bisect_ends v up lo hi \<longrightarrow> (\<forall>m. r = Ok m \<longrightarrow> bisect_edge v up lo hi m))"
proof (induction "unat hi - unat lo" arbitrary: lo hi rule: less_induct)
  case less
  consider (inv) "checked_sub hi lo = None"
    | (stop) w where "checked_sub hi lo = Some w" "\<not> edge_tol hi < w"
    | (split) w where "checked_sub hi lo = Some w" "edge_tol hi < w" by (metis option.exhaust)
  then show ?case
  proof cases
    case inv
    then show ?thesis by (simp add: inverted)
  next
    case stop
    have w: "unat lo \<le> unat hi" "unat w = unat hi - unat lo" using stop(1) by (simp_all add: checked)
    have "unat hi - unat lo \<le> max (unat hi div 1000) 1"
      using stop(2) by (auto simp: word_less_unat unat_edge_tol w max_def)
    moreover have "unat lo < unat hi" if "bisect_ends v up lo hi"
      using that w(1) by (metis bisect_ends_def good_not_bad le_neq_implies_less word_eq_unatI)
    ultimately have "bisect_ends v up lo hi \<longrightarrow> bisect_edge v up lo hi (if up then lo else hi)"
      by (auto simp: bisect_ends_def bisect_edge_def)
    then show ?thesis by (simp add: stops [OF stop])
  next
    case split
    obtain mid where mid: "checked_add lo (drop_bit 1 w) = Some mid" "unat lo < unat mid" "unat mid < unat hi"
      using bisect_mid [OF split] .
    have shorter: "unat hi - unat mid < unat hi - unat lo" "unat mid - unat lo < unat hi - unat lo"
      using mid by simp_all
    show ?thesis
    proof (cases "v mid")
      case (Ok r)
      then have "(r = Some True \<longrightarrow> good v mid) \<and> (r \<noteq> Some True \<longrightarrow> bad v mid)"
        by (simp add: good_def bad_def)
      then have right: "(r = Some True) = up \<Longrightarrow> bisect_ends v up lo hi \<Longrightarrow> bisect_ends v up mid hi"
        and left: "(r = Some True) \<noteq> up \<Longrightarrow> bisect_ends v up lo hi \<Longrightarrow> bisect_ends v up lo mid"
        by (auto simp: bisect_ends_def)
      note taken = step [OF split mid(1) Ok]
      show ?thesis
      proof (cases "(r = Some True) = up")
        case True
        obtain x where "loop mid hi = Some x"
          and "bisect_ends v up mid hi \<longrightarrow> (\<forall>m. x = Ok m \<longrightarrow> bisect_edge v up mid hi m)"
          using less [OF shorter(1)] by blast
        then show ?thesis using taken True right [OF True] mid by (auto intro: bisect_edge_mono)
      next
        case False
        obtain x where "loop lo mid = Some x"
          and "bisect_ends v up lo mid \<longrightarrow> (\<forall>m. x = Ok m \<longrightarrow> bisect_edge v up lo mid m)"
          using less [OF shorter(2)] by blast
        then show ?thesis using taken False left [OF False] mid by (auto intro: bisect_edge_mono)
      qed
    next
      case (Err e)
      then show ?thesis using failed [OF split mid(1)] by simp
    qed
  qed
qed

end

interpretation lower: bisection v "lower_loop v" False for v
  by unfold_locales (simp_all add: lower_loop.simps)

interpretation upper: bisection v "upper_loop v" True for v
  by unfold_locales (simp_all add: upper_loop.simps)

text \<open>What the scan has seen when it is about to probe \<open>s\<close>.\<close>

definition scan_inv ::
  "(u256 \<Rightarrow> (bool option, route_error) result) \<Rightarrow> u256 \<Rightarrow> u256 \<Rightarrow> u256 option \<Rightarrow> u256 \<Rightarrow> bool" where
  "scan_inv v s p fg l \<longleftrightarrow>
     bad v p \<and> unat p < unat s \<and>
     (case fg of None \<Rightarrow> True
      | Some f \<Rightarrow> good v f \<and> good v l \<and> unat p < unat f \<and> unat f \<le> unat l \<and> unat l < unat s)"

definition scan_found ::
  "(u256 \<Rightarrow> (bool option, route_error) result) \<Rightarrow> u256 \<Rightarrow> u256 \<Rightarrow> u256 \<Rightarrow> u256 option \<Rightarrow> bool" where
  "scan_found v p f l u \<longleftrightarrow>
     bad v p \<and> good v f \<and> good v l \<and> unat p < unat f \<and> unat f \<le> unat l \<and>
     (case u of None \<Rightarrow> 2 ^ 255 \<le> unat l | Some b \<Rightarrow> bad v b \<and> unat l < unat b)"

lemma scan_inv_step:
  assumes "scan_inv v s p fg l" and "checked_mul s 2 = Some s'"
  shows "good v s \<Longrightarrow> scan_inv v s' p (if fg = None then Some s else fg) s"
    and "bad v s \<Longrightarrow> fg = None \<Longrightarrow> scan_inv v s' s fg l"
  using assms by (auto simp: scan_inv_def checked split: option.splits)

lemma scan_loop_found:
  "scan_loop n v s p fg l = Ok (Scanned p' (Some f) l' u) \<Longrightarrow> scan_inv v s p fg l \<Longrightarrow> 2 ^ 256 \<le> unat s * 2 ^ n \<Longrightarrow>
   scan_found v p' f l' u"
proof (induction n arbitrary: s p fg l)
  case 0
  then show ?case using unat_bound [of s] by simp
next
  case (Suc n)
  obtain r where r: "v s = Ok r" using Suc.prems(1) by (cases "v s") auto
  have more: "scan_found v p' f l' u"
    if "(case checked_mul s 2 of None \<Rightarrow> Ok (Scanned q g m None) | Some s' \<Rightarrow> scan_loop n v s' q g m) =
          Ok (Scanned p' (Some f) l' u)"
      and "checked_mul s 2 = None \<Longrightarrow> g \<noteq> None \<Longrightarrow> scan_found v q (the g) m None"
      and "\<And>s'. checked_mul s 2 = Some s' \<Longrightarrow> scan_inv v s' q g m" for q g m
  proof (cases "checked_mul s 2")
    case None
    then show ?thesis using that(1,2) by auto
  next
    case (Some s')
    then have "unat s' = unat s * 2" by (simp add: checked)
    then show ?thesis using Suc.IH [of s' q g m] Suc.prems(3) that(1,3) Some by simp
  qed
  have half: "2 ^ 255 \<le> unat s" if "checked_mul s 2 = None" using that by (simp add: checked)
  consider "r = Some True" | "r \<noteq> Some True" "fg \<noteq> None" | "r = Some False" "fg = None" | "r = None" "fg = None"
    by (cases r) auto
  then show ?case
  proof cases
    case 1
    then have g: "good v s" using r by (simp add: good_def)
    show ?thesis
      using Suc.prems(1,2) 1 r g half scan_inv_step(1) [OF Suc.prems(2) _ g]
      by (intro more [of p "if fg = None then Some s else fg" s])
        (auto simp: scan_inv_def scan_found_def split: option.splits if_splits)
  next
    case 2
    then have b: "bad v s" using r by (simp add: bad_def)
    show ?thesis
      using Suc.prems(1,2) 2 r b
      by (cases r) (auto simp: scan_inv_def scan_found_def split: option.splits bool.splits)
  next
    case 3
    then have b: "bad v s" using r by (simp add: bad_def)
    show ?thesis
      using Suc.prems(1,2) 3 r scan_inv_step(2) [OF Suc.prems(2) _ b] by (intro more [of s fg l]) auto
  next
    case 4
    then show ?thesis using Suc.prems(1) r by simp
  qed
qed

lemma viable_zero: "ray_raw (tm_bonus (bc_terms ctx)) < RAY \<Longrightarrow> bad (viable ctx) 0"
proof -
  assume "ray_raw (tm_bonus (bc_terms ctx)) < RAY"
  then have "unat RAY + unat (ray_raw (tm_bonus (bc_terms ctx))) < 2 ^ 256"
    by (simp add: word_less_unat unat_RAY)
  then obtain x where "checked_add RAY (ray_raw (tm_bonus (bc_terms ctx))) = Some x"
    by (simp add: checked_add_def)
  moreover have "mul_div_512 0 y RAY = Ok 0" for y by (simp add: checked RAY_nonzero)
  ultimately have "seized_for 0 (bc_terms ctx) = Ok 0" by (simp add: seized_for_def)
  then show ?thesis by (simp add: bad_def viable_def Let_def)
qed

lemma try_some_returns: "\<exists>r. x = Some r \<Longrightarrow> (\<And>y. \<exists>r. k y = Some r) \<Longrightarrow> \<exists>r. try_some x k = Some r"
  by (auto simp: try_some_def split: result.split)

lemma try_some_Ok: "try_some x k = Some (Ok z) \<longleftrightarrow> (\<exists>y. x = Some (Ok y) \<and> k y = Some (Ok z))"
proof (cases x)
  case (Some r)
  then show ?thesis by (cases r) (simp_all add: try_some_def)
qed (simp add: try_some_def)

lemma compute_band_total: "\<exists>r. compute_band ctx block = Some r"
proof -
  have lower: "\<exists>r. lower_loop v lo hi = Some r" for v lo hi using lower.returns_edge by blast
  have upper: "\<exists>r. upper_loop v lo hi = Some r" for v lo hi using upper.returns_edge by blast
  show ?thesis
    by (auto simp: compute_band_def Let_def intro!: try_some_returns lower upper split: scan_end.split option.split)
qed

lemma build_loop_total: "\<exists>t. build_loop inputs b p blk keys out = Some t"
proof (induction keys arbitrary: out)
  case Nil
  then show ?case by simp
next
  case (Cons key keys)
  obtain protocol coll debt where key: "key = (protocol, coll, debt)" by (cases key)
  show ?case
    using Cons.IH compute_band_total
    by (auto simp: key Let_def bind_eq_Some_conv split: option.split) blast
qed

text \<open>
  C16. The band computation returns for every solver, haircut, terms and gas prices, whether or not the net
  is concave: the scan is bounded and both bisections end. So the table of all bands is built as well.
\<close>

theorem compute_band_returns:
  "(\<exists>r. compute_band ctx block = Some r) \<and>
   (\<exists>t. build_table keys inputs base_fee priority_fee block = Some t)"
  unfolding build_table_def by (intro conjI compute_band_total build_loop_total)

lemma compute_band_parts:
  assumes "compute_band ctx block = Some (Ok (Some b))"
  obtains c p f l u where "ray_raw (tm_bonus (bc_terms ctx)) < RAY"
    and "scan_loop 256 (viable ctx) (max c 1) 0 None 0 = Ok (Scanned p (Some f) l u)"
    and "lower_loop (viable ctx) p f = Some (Ok (vb_min_size b))"
    and "(case u of None \<Rightarrow> Some (Ok l) | Some h \<Rightarrow> upper_loop (viable ctx) l h) = Some (Ok (vb_max_size b))"
proof -
  let ?v = "viable ctx"
  obtain c found where bonus: "ray_raw (tm_bonus (bc_terms ctx)) < RAY"
    and scan: "scan_loop 256 ?v (max c 1) 0 None 0 = Ok found"
    and rest: "(case found of
          Depth_Ended \<Rightarrow> Some (Ok None)
        | Scanned prev_bad None last_good upper_bad \<Rightarrow> Some (Ok None)
        | Scanned prev_bad (Some first_good) last_good upper_bad \<Rightarrow>
            try_some (lower_loop ?v prev_bad first_good) (\<lambda>min_size.
            try_some (case upper_bad of None \<Rightarrow> Some (Ok last_good) | Some h \<Rightarrow> upper_loop ?v last_good h)
              (\<lambda>max_size. Some (Ok (Some \<lparr>vb_min_size = min_size, vb_max_size = max_size,
                  vb_base_fee = gt_base_fee_wei (bc_gas ctx), vb_block = block\<rparr>))))) = Some (Ok (Some b))"
    using assms by (auto simp: compute_band_def Let_def try_some_Ok not_le split: if_splits)
  show ?thesis
  proof (cases found)
    case (Scanned p fg l u)
    then show ?thesis using that rest scan bonus by (cases fg) (auto simp: try_some_Ok)
  qed (use rest in simp)
qed

text \<open>
  C15. A published band is sharp at both edges: both edges are viable sizes in order, a size that is not
  viable lies within a thousandth (or one unit) below the lower edge, and one lies as close above the
  upper edge unless the upper edge is already half of the 256-bit range. When viability is an interval,
  as a concave net makes it, every size of the band is viable.
\<close>

theorem band_edges_sharp:
  assumes "compute_band ctx block = Some (Ok (Some b))"
  shows "good (viable ctx) (vb_min_size b) \<and> good (viable ctx) (vb_max_size b) \<and>
         vb_min_size b \<le> vb_max_size b \<and>
         (\<exists>l. bad (viable ctx) l \<and> l < vb_min_size b \<and>
              unat (vb_min_size b) - unat l \<le> max (unat (vb_min_size b) div 1000) 1) \<and>
         (2 ^ 255 \<le> unat (vb_max_size b) \<or>
          (\<exists>h. bad (viable ctx) h \<and> vb_max_size b < h \<and>
               unat h - unat (vb_max_size b) \<le> max (unat h div 1000) 1)) \<and>
         ((\<forall>x y z. good (viable ctx) x \<and> good (viable ctx) z \<and> x \<le> y \<and> y \<le> z \<longrightarrow> good (viable ctx) y) \<longrightarrow>
            (\<forall>s. vb_min_size b \<le> s \<and> s \<le> vb_max_size b \<longrightarrow> good (viable ctx) s))"
proof -
  let ?v = "viable ctx"
  obtain c p f l u where bonus: "ray_raw (tm_bonus (bc_terms ctx)) < RAY"
    and scan: "scan_loop 256 ?v (max c 1) 0 None 0 = Ok (Scanned p (Some f) l u)"
    and low: "lower_loop ?v p f = Some (Ok (vb_min_size b))"
    and upp: "(case u of None \<Rightarrow> Some (Ok l) | Some h \<Rightarrow> upper_loop ?v l h) = Some (Ok (vb_max_size b))"
    using compute_band_parts [OF assms] .
  have one: "1 \<le> unat (max c 1)" by (simp add: max_def word_le_unat)
  have "2 ^ 256 \<le> unat (max c 1) * 2 ^ 256" using mult_le_mono1 [OF one, of "2 ^ 256"] by simp
  then have found: "scan_found ?v p f l u"
    using scan_loop_found [OF scan] viable_zero [OF bonus] one by (simp add: scan_inv_def)
  then have "bisect_edge ?v False p f (vb_min_size b)"
    using lower.returns_edge [of ?v p f] low by (auto simp: bisect_ends_def scan_found_def)
  then have lower: "good ?v (vb_min_size b)" "unat (vb_min_size b) \<le> unat f"
      "\<exists>l. bad ?v l \<and> l < vb_min_size b \<and> unat (vb_min_size b) - unat l \<le> max (unat (vb_min_size b) div 1000) 1"
    by (auto simp: bisect_edge_def word_less_unat)
  have upper: "good ?v (vb_max_size b) \<and> unat l \<le> unat (vb_max_size b) \<and>
      (2 ^ 255 \<le> unat (vb_max_size b) \<or>
       (\<exists>h. bad ?v h \<and> vb_max_size b < h \<and> unat h - unat (vb_max_size b) \<le> max (unat h div 1000) 1))"
  proof (cases u)
    case None
    then show ?thesis using found upp by (simp add: scan_found_def)
  next
    case (Some h)
    then have "bisect_edge ?v True l h (vb_max_size b)"
      using upper.returns_edge [of ?v l h] upp found by (auto simp: bisect_ends_def scan_found_def)
    then show ?thesis by (auto simp: bisect_edge_def word_less_unat)
  qed
  have "vb_min_size b \<le> vb_max_size b"
    using lower(2) upper found by (simp add: scan_found_def word_le_unat)
  with lower upper show ?thesis by blast
qed

text \<open>A concrete pair: a five percent bonus, no fees, and a pool that pays one for one up to three units.\<close>

definition sample_band_ctx :: band_ctx where
  "sample_band_ctx =
     \<lparr>bc_terms = \<lparr>tm_bonus = Ray 50000000000000000000000000, tm_coll_per_debt = Ray RAY, tm_flash_fee_bps = 0,
                   tm_fixed_gas = 0\<rparr>,
      bc_gas = \<lparr>gt_base_fee_wei = 0, gt_priority_fee_wei = 0, gt_out_per_eth = WEI_PER_ETH\<rparr>,
      bc_solve = (\<lambda>x. if x \<le> 3 then Ok (x, 0) else Err InsufficientLiquidity),
      bc_haircut = (\<lambda>_ out. out)\<rparr>"

lemma mul_div_512_eval: "d \<noteq> 0 \<Longrightarrow> unat c = unat a * unat b div unat d \<Longrightarrow> mul_div_512 a b d = Ok c"
  by (simp add: mul_div_512_Ok)

lemma sample_seized:
  "s \<in> {1, 2, 3, 4} \<Longrightarrow> seized_for s (bc_terms sample_band_ctx) = Ok s"
proof -
  assume "s \<in> {1, 2, 3, 4}"
  then have "mul_div_512 s 1050000000000000000000000000 RAY = Ok s" "mul_div_512 s RAY RAY = Ok s"
    by (auto intro!: mul_div_512_eval simp: RAY_def)
  then show ?thesis
    by (simp add: seized_for_def sample_band_ctx_def checked_add_def RAY_def)
qed

lemma sample_viable:
  "viable sample_band_ctx 1 = Ok (Some True)" "viable sample_band_ctx 2 = Ok (Some True)"
  "viable sample_band_ctx 3 = Ok (Some True)" "viable sample_band_ctx 4 = Ok None"
proof -
  have cost: "cost_in_out (bc_gas sample_band_ctx) 0 = Ok 0"
    by (simp add: cost_in_out_def accounting_wei_per_gas_def sample_band_ctx_def checked_add_def checked_mul_def
        mul_div_512_eval WEI_PER_ETH_def)
  have flash: "mul_div_512 s 0 BAND_BPS = Ok 0" for s by (simp add: mul_div_512_eval BAND_BPS_def)
  have "viable sample_band_ctx s = Ok (if s \<le> 3 then Some True else None)" if "s \<in> {1, 2, 3, 4}" for s
    using sample_seized [OF that] that cost flash
    by (auto simp: viable_def Let_def sample_band_ctx_def checked_add_def word_le_unat)
  then show "viable sample_band_ctx 1 = Ok (Some True)" "viable sample_band_ctx 2 = Ok (Some True)"
    "viable sample_band_ctx 3 = Ok (Some True)" "viable sample_band_ctx 4 = Ok None"
    by (simp_all add: word_le_unat)
qed

lemma sample_scan_steps:
  "scan_loop (Suc (Suc (Suc n))) (viable sample_band_ctx) 1 0 None 0 = Ok (Scanned 0 (Some 1) 2 (Some 4))"
  by (simp add: sample_viable checked_mul_def)

lemma sample_scan:
  "scan_loop 256 (viable sample_band_ctx) 1 0 None 0 = Ok (Scanned 0 (Some 1) 2 (Some 4))"
proof -
  have *: "(256 :: nat) = Suc (Suc (Suc 253))" by simp
  show ?thesis unfolding * by (rule sample_scan_steps)
qed

lemma sample_edges:
  "lower_loop (viable sample_band_ctx) 0 1 = Some (Ok 1)" "upper_loop (viable sample_band_ctx) 2 4 = Some (Ok 3)"
proof -
  have tol: "edge_tol 1 = 1" "edge_tol 4 = 1"
    by (simp_all add: word_unat_eq_iff unat_edge_tol)
  show "lower_loop (viable sample_band_ctx) 0 1 = Some (Ok 1)"
    by (subst lower_loop.simps) (simp add: checked_sub_def tol)
  have "upper_loop (viable sample_band_ctx) 3 4 = Some (Ok 3)"
    by (subst upper_loop.simps) (simp add: checked_sub_def tol)
  then show "upper_loop (viable sample_band_ctx) 2 4 = Some (Ok 3)"
    by (subst upper_loop.simps) (simp add: checked_sub_def tol checked_add_def sample_viable drop_bit_eq_div)
qed

lemma sample_band:
  "compute_band sample_band_ctx 7 =
     Some (Ok (Some \<lparr>vb_min_size = 1, vb_max_size = 3, vb_base_fee = 0, vb_block = 7\<rparr>))"
proof -
  have cost: "cost_in_out (bc_gas sample_band_ctx) (tm_fixed_gas (bc_terms sample_band_ctx)) = Ok 0"
    by (simp add: cost_in_out_def accounting_wei_per_gas_def sample_band_ctx_def checked_add_def checked_mul_def
        mul_div_512_eval WEI_PER_ETH_def)
  have bonus: "\<not> RAY \<le> ray_raw (tm_bonus (bc_terms sample_band_ctx))"
    by (simp add: sample_band_ctx_def RAY_def word_le_unat)
  have start: "max 0 (1 :: u256) = 1" by (simp add: max_def)
  have fee: "gt_base_fee_wei (bc_gas sample_band_ctx) = 0" by (simp add: sample_band_ctx_def)
  show ?thesis
    unfolding compute_band_def Let_def cost try_some_def
    by (simp only: bonus if_False bind.bind_lunit result.case start sample_scan scan_end.case option.case sample_edges fee)
qed

theorem band_edges_sharp_witness:
  "viable sample_band_ctx 1 = Ok (Some True) \<and> viable sample_band_ctx 3 = Ok (Some True) \<and>
   (\<exists>h. bad (viable sample_band_ctx) h \<and> 3 < h \<and> unat h - 3 \<le> max (unat h div 1000) 1)"
proof -
  note sharp = band_edges_sharp [OF sample_band, unfolded viability_band.simps]
  have "\<not> 2 ^ 255 \<le> unat (3 :: u256)" by simp
  then have "\<exists>h. bad (viable sample_band_ctx) h \<and> 3 < h \<and> unat h - unat (3 :: u256) \<le> max (unat h div 1000) 1"
    using sharp by (elim conjE disjE) blast+
  moreover have "good (viable sample_band_ctx) 1" "good (viable sample_band_ctx) 3"
    by (rule conjunct1 [OF sharp], rule conjunct1 [OF conjunct2 [OF sharp]])
  ultimately show ?thesis by (simp add: good_def)
qed

end
