(* ===== verification/Bid.thy ===== *)
theory Bid
  imports Viability
begin

text \<open>
  The committed bid, \<^verbatim>\<open>crates/liq-router/src/bid.rs\<close>: the schedule of four cells, the checked
  construction of a cell, and the fraction of the net a bundle pays, the smaller of the cap and the
  jittered target. An \<^verbatim>\<open>i16\<close> is a 16-bit word read with its sign; the \<^verbatim>\<open>i32\<close> arithmetic of the
  jitter is on integers with the range of \<^verbatim>\<open>i32\<close> checked at every step.
\<close>

section \<open>Configuration\<close>

definition BID_BPS :: u16 where
  "BID_BPS = 10000"

definition BID_WEI :: u256 where
  "BID_WEI = 1000000000000000000"

definition debt_notional_eth_wei :: "u256 \<Rightarrow> u256 \<Rightarrow> u256 option" where
  "debt_notional_eth_wei repay per_eth =
     (if per_eth = 0 then None
      else (case mul_div_512 repay BID_WEI per_eth of Ok v \<Rightarrow> Some v | Err _ \<Rightarrow> None))"

record bid_config =
  bd_beta_cap_bps :: u16
  bd_learning_target_bps :: u16
  bd_jitter_lo_bps :: "16 word"
  bd_jitter_hi_bps :: "16 word"

record bid_schedule =
  bs_size_cut_wei :: u256
  bs_aave_v3 :: protocol_id
  bs_aave_v4 :: protocol_id
  bs_aave_below :: bid_config
  bs_aave_above :: bid_config
  bs_other_below :: bid_config
  bs_other_above :: bid_config

definition schedule_config :: "bid_schedule \<Rightarrow> protocol_id \<Rightarrow> u256 \<Rightarrow> bid_config" where
  "schedule_config s protocol size_eth_wei =
     (let aave = (protocol = bs_aave_v3 s \<or> protocol = bs_aave_v4 s);
          above = (bs_size_cut_wei s \<le> size_eth_wei)
      in case (aave, above) of
           (True, False) \<Rightarrow> bs_aave_below s
         | (True, True) \<Rightarrow> bs_aave_above s
         | (False, False) \<Rightarrow> bs_other_below s
         | (False, True) \<Rightarrow> bs_other_above s)"

definition bid_config_new :: "u16 \<Rightarrow> u16 \<Rightarrow> 16 word \<Rightarrow> 16 word \<Rightarrow> bid_config option" where
  "bid_config_new beta_cap_bps learning_target_bps jitter_lo_bps jitter_hi_bps =
     (if beta_cap_bps = 0 \<or> BID_BPS \<le> beta_cap_bps then None
      else if beta_cap_bps < learning_target_bps then None
      else if sint jitter_hi_bps < sint jitter_lo_bps then None
      else Some \<lparr>bd_beta_cap_bps = beta_cap_bps, bd_learning_target_bps = learning_target_bps,
                 bd_jitter_lo_bps = jitter_lo_bps, bd_jitter_hi_bps = jitter_hi_bps\<rparr>)"

definition try_from_fields :: "u16 \<Rightarrow> u16 \<Rightarrow> 16 word \<Rightarrow> 16 word \<Rightarrow> bid_config option" where
  "try_from_fields = bid_config_new"

section \<open>The bid\<close>

datatype bid_error = BadConfig | BadDraw u16 | BidMissingPriority

record committed_bid =
  cb_coinbase_bps :: u16
  cb_priority_wei :: u128
  cb_refund_bps :: u16

text \<open>\<^verbatim>\<open>i32\<close>: a result outside the range fails; division truncates towards zero.\<close>

definition i32 :: "int \<Rightarrow> int option" where
  "i32 x = (if - 2147483648 \<le> x \<and> x \<le> 2147483647 then Some x else None)"

definition i32_div :: "int \<Rightarrow> int \<Rightarrow> int option" where
  "i32_div a b = (if b = 0 then None else i32 (sgn a * sgn b * (\<bar>a\<bar> div \<bar>b\<bar>)))"

definition u16_try_from :: "int \<Rightarrow> u16 option" where
  "u16_try_from x = (if 0 \<le> x \<and> x < 65536 then Some (of_int x) else None)"

definition beta_of :: "bid_config \<Rightarrow> u16 \<Rightarrow> (u16, bid_error) result" where
  "beta_of cfg draw =
     (if BID_BPS < draw then Err (BadDraw draw)
      else
        and_then (ok_or (i32 (sint (bd_jitter_hi_bps cfg) - sint (bd_jitter_lo_bps cfg))) BadConfig) (\<lambda>span.
        and_then (ok_or (Option.bind (i32 (span * uint draw)) (\<lambda>n. i32_div n (uint BID_BPS))) BadConfig) (\<lambda>delta.
        and_then (ok_or (i32 (sint (bd_jitter_lo_bps cfg) + delta)) BadConfig) (\<lambda>jitter.
        and_then (ok_or (i32 (uint (bd_learning_target_bps cfg) + jitter)) BadConfig) (\<lambda>raw.
        and_then (ok_or (u16_try_from (max raw 0)) BadConfig) (\<lambda>floored.
        Ok (min floored (bd_beta_cap_bps cfg))))))))"

definition bid :: "bid_config \<Rightarrow> u16 \<Rightarrow> u128 \<Rightarrow> (committed_bid, bid_error) result" where
  "bid cfg draw priority_wei =
     (if priority_wei = 0 then Err BidMissingPriority
      else map_ok (\<lambda>beta. \<lparr>cb_coinbase_bps = beta, cb_priority_wei = priority_wei, cb_refund_bps = beta\<rparr>) (beta_of cfg draw))"

definition searcher_net :: "u256 \<Rightarrow> u16 \<Rightarrow> u256 option" where
  "searcher_net net_bundle_profit bid_bps =
     (if BID_BPS \<le> bid_bps then None
      else
        Option.bind (checked_sub BID_BPS bid_bps) (\<lambda>kept.
        Option.bind (checked_mul net_bundle_profit (ucast kept)) (\<lambda>m.
        checked_div m (ucast BID_BPS))))"

section \<open>Properties\<close>

lemma sint_i16: "- 32768 \<le> sint (w :: 16 word)" "sint (w :: 16 word) \<le> 32767"
  using sint_greater_eq [of w] sint_less [of w] by simp_all

text \<open>The jitter interpolates between its bounds without leaving them.\<close>

lemma jitter_between:
  fixes lo hi draw :: int
  assumes "lo \<le> hi" and "0 \<le> draw" and "draw \<le> 10000"
  shows "lo \<le> lo + (hi - lo) * draw div 10000" and "lo + (hi - lo) * draw div 10000 \<le> hi"
proof -
  have "0 \<le> (hi - lo) * draw" using assms by simp
  then show "lo \<le> lo + (hi - lo) * draw div 10000" by simp
  have "(hi - lo) * draw \<le> (hi - lo) * 10000" using assms by (intro mult_left_mono) auto
  then have "(hi - lo) * draw div 10000 \<le> (hi - lo) * 10000 div 10000" by (rule zdiv_mono1) simp
  then show "lo + (hi - lo) * draw div 10000 \<le> hi" by simp
qed

lemma beta_of_value:
  assumes "bid_config_new cap target lo hi = Some cfg" and "draw \<le> 10000"
  shows "\<exists>b. beta_of cfg draw = Ok b \<and>
     uint b = min (uint cap) (max 0 (uint target + sint lo + (sint hi - sint lo) * uint draw div 10000))"
proof -
  have cfg: "cfg = \<lparr>bd_beta_cap_bps = cap, bd_learning_target_bps = target, bd_jitter_lo_bps = lo, bd_jitter_hi_bps = hi\<rparr>"
    and cap: "uint cap < 10000" and target: "uint target \<le> uint cap" and jit: "sint lo \<le> sint hi"
    using assms(1) by (auto simp: bid_config_new_def BID_BPS_def word_le_def word_less_def split: if_splits)
  define d where "d = (sint hi - sint lo) * uint draw div 10000"
  have draw: "0 \<le> uint draw" "uint draw \<le> 10000" using assms(2) by (simp_all add: word_le_def)
  have span: "0 \<le> sint hi - sint lo" "sint hi - sint lo \<le> 65535"
    using jit sint_i16 [of hi] sint_i16 [of lo] by simp_all
  have prod: "0 \<le> (sint hi - sint lo) * uint draw" "(sint hi - sint lo) * uint draw \<le> 65535 * 10000"
    using span draw mult_mono [of "sint hi - sint lo" 65535 "uint draw" 10000] by simp_all
  note between = jitter_between [OF jit draw, folded d_def]
  have div: "i32_div ((sint hi - sint lo) * uint draw) 10000 = Some d"
    using prod between sint_i16 [of hi] sint_i16 [of lo]
    by (auto simp: i32_div_def i32_def d_def sgn_if abs_if)
  define raw where "raw = uint target + (sint lo + d)"
  have raw: "raw \<le> 42767" "- 32768 \<le> raw"
    using between sint_i16 [of lo] sint_i16 [of hi] target cap uint_nonnegative [of target]
    unfolding raw_def by linarith+
  have conv: "uint (of_int (max raw 0) :: u16) = max raw 0"
    using raw by (simp add: uint_word_of_int)
  have i32s: "i32 (sint hi - sint lo) = Some (sint hi - sint lo)"
    "i32 ((sint hi - sint lo) * uint draw) = Some ((sint hi - sint lo) * uint draw)"
    "i32 (sint lo + d) = Some (sint lo + d)" "i32 raw = Some raw"
    unfolding i32_def by (rule if_P, use span prod between raw sint_i16 [of hi] sint_i16 [of lo] in linarith)+
  have "u16_try_from (max raw 0) = Some (of_int (max raw 0))" using raw by (simp add: u16_try_from_def)
  then have "beta_of cfg draw = Ok (min (of_int (max raw 0)) cap)"
    using assms(2) div i32s by (simp add: beta_of_def cfg BID_BPS_def not_less flip: raw_def)
  moreover have "uint (min (of_int (max raw 0)) cap) = min (uint cap) (max 0 raw)"
  proof -
    have "uint (min (of_int (max raw 0)) cap) = min (uint (of_int (max raw 0) :: u16)) (uint cap)"
      by (simp add: min_def word_le_def)
    then show ?thesis unfolding conv by (simp add: min.commute max.commute)
  qed
  ultimately show ?thesis by (auto simp: raw_def d_def add.assoc)
qed

lemma searcher_net_value:
  assumes "unat b < 10000" and "unat net * 10000 < 2 ^ 256"
  shows "\<exists>s. searcher_net net b = Some s \<and> unat s = unat net * (10000 - unat b) div 10000"
proof -
  have b: "\<not> BID_BPS \<le> b" "b \<le> BID_BPS" using assms(1) by (simp_all add: BID_BPS_def word_le_unat)
  have len256: "LENGTH(256) = 256" by simp
  define k where "k = BID_BPS - b"
  have k: "unat k = 10000 - unat b" using unat_sub_exact [OF b(2)] by (simp add: k_def BID_BPS_def)
  have wide: "unat (ucast k :: u256) = 10000 - unat b" by (simp add: k unat_ucast_wide)
  have "unat net * (10000 - unat b) \<le> unat net * 10000" by (rule mult_le_mono2) simp
  then have "unat net * unat (ucast k :: u256) < 2 ^ LENGTH(256)"
    using assms(2) unfolding wide len256 by (rule order.strict_trans1)
  then have "checked_mul net (ucast k) = Some (net * ucast k)" "unat (net * ucast k) = unat net * (10000 - unat b)"
    by (simp_all only: checked_mul_def unat_mul_exact wide if_True)
  moreover have "(ucast BID_BPS :: u256) = 10000" by (simp add: BID_BPS_def)
  ultimately show ?thesis
    using b by (simp add: searcher_net_def checked_sub_def checked_div_def unat_div_exact flip: k_def)
qed

text \<open>
  C39. A cell that was constructed always bids, for every draw in range and every nonzero tip: the fraction is
  the target plus the interpolated jitter, floored at zero and cut at the cap, the same on both channels. It is
  below the whole, so the searcher keeps the complement of the net, rounded down.
\<close>

theorem bid_keeps_a_share:
  assumes "bid_config_new cap target lo hi = Some cfg" and "draw \<le> 10000" and "priority \<noteq> 0"
    and "unat net * 10000 < 2 ^ 256"
  shows "\<exists>b s. bid cfg draw priority = Ok b \<and>
           cb_coinbase_bps b = cb_refund_bps b \<and> cb_priority_wei b = priority \<and>
           uint (cb_coinbase_bps b) =
             min (uint cap) (max 0 (uint target + sint lo + (sint hi - sint lo) * uint draw div 10000)) \<and>
           cb_coinbase_bps b < 10000 \<and>
           searcher_net net (cb_coinbase_bps b) = Some s \<and>
           unat s = unat net * (10000 - unat (cb_coinbase_bps b)) div 10000"
proof -
  obtain beta where beta: "beta_of cfg draw = Ok beta"
    and val: "uint beta = min (uint cap) (max 0 (uint target + sint lo + (sint hi - sint lo) * uint draw div 10000))"
    using beta_of_value [OF assms(1,2)] by blast
  have "uint cap < 10000"
    using assms(1) by (auto simp: bid_config_new_def BID_BPS_def word_le_def split: if_splits)
  then have less: "beta < 10000" using val by (simp add: word_less_def)
  then have "unat beta < 10000" by (simp add: word_less_unat)
  from searcher_net_value [OF this assms(4)] obtain s
    where "searcher_net net beta = Some s" "unat s = unat net * (10000 - unat beta) div 10000" by blast
  then show ?thesis using beta val less assms(3) by (auto simp: bid_def)
qed

theorem bid_keeps_a_share_witness:
  "\<exists>cfg b. bid_config_new 9850 9800 0 200 = Some cfg \<and> bid cfg 5000 1 = Ok b \<and> uint (cb_coinbase_bps b) = 9850"
proof -
  obtain cfg where cfg: "bid_config_new 9850 9800 0 200 = Some cfg"
    by (simp add: bid_config_new_def BID_BPS_def word_le_unat word_less_unat)
  have "sint (200 :: 16 word) = 200" by simp
  then show ?thesis
    using bid_keeps_a_share [OF cfg, of 5000 1 1000] cfg by (auto simp: word_le_unat)
qed

end
