(* ===== verification/Eligibility.thy ===== *)
theory Eligibility
  imports Flash Bonus
begin

text \<open>
  Eligibility, \<^verbatim>\<open>crates/liq-flash/src/eligibility.rs\<close>, over the quotes of
  \<^verbatim>\<open>crates/liq-protocol/src/quote.rs\<close>: a position is a target when some repay leg is flash-fundable and
  some seize leg has an exit, and the pair chosen maximises the bonus net of the flash fee. The exit
  test is the argument \<open>has_exit\<close> (the trait \<^verbatim>\<open>RouteCache\<close>); \<open>depth_only_has_exit\<close> is the
  implementation of this crate. The choice made by the nested loops is compared with the set of all
  admissible pairs.
\<close>

section \<open>Quotes\<close>

datatype slot_ref = ByAsset | Slot u16 | Contract address

definition slot_ref_slot :: "slot_ref \<Rightarrow> u16 option" where
  "slot_ref_slot r = (case r of Slot s \<Rightarrow> Some s | _ \<Rightarrow> None)"

definition slot_ref_contract :: "slot_ref \<Rightarrow> address option" where
  "slot_ref_contract r = (case r of Contract a \<Rightarrow> Some a | _ \<Rightarrow> None)"

record repay_option =
  ro_asset :: asset_id
  ro_max_repay :: u256
  ro_min_repay :: u256
  ro_pair_seize :: "u8 option"
  ro_slot :: slot_ref

definition pairs_with :: "repay_option \<Rightarrow> u8 \<Rightarrow> bool" where
  "pairs_with r seize = (case ro_pair_seize r of None \<Rightarrow> True | Some k \<Rightarrow> k = seize)"

record seize_option =
  so_asset :: asset_id
  so_max_seize :: u256
  so_bonus :: ray
  so_curve :: bonus_curve
  so_call_target :: address
  so_slot :: slot_ref

record quote =
  q_position :: position_id
  q_key :: position_key
  q_repay_options :: "repay_option list"
  q_seize_options :: "seize_option list"

record leg_choice =
  lc_repay :: u8
  lc_seize :: u8

definition PREFERRED :: leg_choice where
  "PREFERRED = \<lparr>lc_repay = 0, lc_seize = 0\<rparr>"

section \<open>The exit test and the key\<close>

definition depth_only_has_exit :: "flash_index \<Rightarrow> asset_id \<Rightarrow> u256 \<Rightarrow> bool" where
  "depth_only_has_exit idx coll amount =
     list_ex (\<lambda>e. se_provider e \<noteq> FP_SkyDss \<and> amount \<le> se_available e) (fi_entries idx coll)"

definition RAY_PER_BP :: u256 where
  "RAY_PER_BP = 100000000000000000000000"

definition net_of_bonus :: "u256 \<Rightarrow> u16 \<Rightarrow> u256" where
  "net_of_bonus bonus fee_bps =
     (let fee = unwrap_or (checked_mul (ucast fee_bps) RAY_PER_BP) (- 1) in saturating_sub bonus fee)"

section \<open>The decision\<close>

text \<open>\<^verbatim>\<open>Iterator::position\<close>.\<close>

primrec position_of :: "('a \<Rightarrow> bool) \<Rightarrow> nat \<Rightarrow> 'a list \<Rightarrow> nat option" where
  "position_of P i [] = None"
| "position_of P i (x # xs) = (if P x then Some i else position_of P (Suc i) xs)"

definition direct_route :: "asset_id \<Rightarrow> flash_route" where
  "direct_route asset =
     \<lparr>fr_provider = FP_None, fr_source = 0, fr_asset = asset, fr_amount = 0, fr_fee_bps = 0, fr_callback = Direct\<rparr>"

definition routed :: "quote \<Rightarrow> flash_index \<Rightarrow> haircut \<Rightarrow> (nat \<times> flash_route) list" where
  "routed q idx h =
     List.map_filter (\<lambda>(ri, repay). map_option (\<lambda>route. (ri, route)) (best_route idx (ro_asset repay) (ro_max_repay repay) h))
       (enumerate 0 (q_repay_options q))"

type_synonym best_pair = "(u256 \<times> leg_choice \<times> flash_route) option"

definition pair_step :: "nat \<Rightarrow> seize_option \<Rightarrow> nat \<times> flash_route \<Rightarrow> best_pair \<Rightarrow> best_pair" where
  "pair_step si seize rr best =
     (case rr of (ri, route) \<Rightarrow>
       let key = net_of_bonus (ray_raw (so_bonus seize)) (fr_fee_bps route) in
       if (case best of None \<Rightarrow> True | Some (k, _, _) \<Rightarrow> k < key)
       then (case (try_from_usize ri, try_from_usize si) of
               (Some r, Some s) \<Rightarrow> Some (key, \<lparr>lc_repay = r, lc_seize = s\<rparr>, route)
             | _ \<Rightarrow> best)
       else best)"

definition seize_step ::
  "(asset_id \<Rightarrow> u256 \<Rightarrow> bool) \<Rightarrow> (nat \<times> flash_route) list \<Rightarrow> nat \<times> seize_option \<Rightarrow> best_pair \<Rightarrow> best_pair" where
  "seize_step has_exit rs ss best =
     (case ss of (si, seize) \<Rightarrow>
       if so_max_seize seize = 0 \<or> \<not> has_exit (so_asset seize) (so_max_seize seize) then best
       else fold (pair_step si seize) rs best)"

definition is_eligible ::
  "quote \<Rightarrow> flash_index \<Rightarrow> (asset_id \<Rightarrow> u256 \<Rightarrow> bool) \<Rightarrow> haircut \<Rightarrow> (leg_choice \<times> flash_route) option" where
  "is_eligible q idx has_exit h =
     (if q_repay_options q \<noteq> [] \<and> list_all (\<lambda>r. ro_max_repay r = 0) (q_repay_options q)
      then
        (case q_repay_options q of
           [] \<Rightarrow> None
         | repay # _ \<Rightarrow>
             Option.bind (position_of (\<lambda>s. so_max_seize s \<noteq> 0) 0 (q_seize_options q)) (\<lambda>si.
             Option.bind (try_from_usize si) (\<lambda>seize.
               Some (\<lparr>lc_repay = 0, lc_seize = seize\<rparr>, direct_route (ro_asset repay)))))
      else
        let rs = routed q idx h in
        if rs = [] then None
        else map_option snd (fold (seize_step has_exit rs) (enumerate 0 (q_seize_options q)) None))"

section \<open>Specification\<close>

definition reward_only :: "quote \<Rightarrow> bool" where
  "reward_only q \<longleftrightarrow> q_repay_options q \<noteq> [] \<and> list_all (\<lambda>r. ro_max_repay r = 0) (q_repay_options q)"

text \<open>A pair of legs with both sides: the seize leg pays and has an exit, the repay leg has this flash route.\<close>

definition two_sided ::
  "quote \<Rightarrow> flash_index \<Rightarrow> (asset_id \<Rightarrow> u256 \<Rightarrow> bool) \<Rightarrow> haircut \<Rightarrow> nat \<Rightarrow> nat \<Rightarrow> flash_route \<Rightarrow> bool" where
  "two_sided q idx has_exit h si ri route \<longleftrightarrow>
     si < length (q_seize_options q) \<and> ri < length (q_repay_options q) \<and>
     so_max_seize (q_seize_options q ! si) \<noteq> 0 \<and>
     has_exit (so_asset (q_seize_options q ! si)) (so_max_seize (q_seize_options q ! si)) \<and>
     best_route idx (ro_asset (q_repay_options q ! ri)) (ro_max_repay (q_repay_options q ! ri)) h = Some route"

text \<open>A pair the quote allows: two-sided, and the repay leg may be combined with the seize leg.\<close>

definition admissible ::
  "quote \<Rightarrow> flash_index \<Rightarrow> (asset_id \<Rightarrow> u256 \<Rightarrow> bool) \<Rightarrow> haircut \<Rightarrow> nat \<Rightarrow> nat \<Rightarrow> flash_route \<Rightarrow> bool" where
  "admissible q idx has_exit h si ri route \<longleftrightarrow>
     two_sided q idx has_exit h si ri route \<and> pairs_with (q_repay_options q ! ri) (of_nat si)"

definition unpaired :: "quote \<Rightarrow> bool" where
  "unpaired q \<longleftrightarrow> list_all (\<lambda>r. ro_pair_seize r = None) (q_repay_options q)"

definition pair_key :: "quote \<Rightarrow> nat \<Rightarrow> flash_route \<Rightarrow> u256" where
  "pair_key q si route = net_of_bonus (ray_raw (so_bonus (q_seize_options q ! si))) (fr_fee_bps route)"

text \<open>The two-sided pairs in the order of the loops.\<close>

definition eligible_pairs ::
  "quote \<Rightarrow> flash_index \<Rightarrow> (asset_id \<Rightarrow> u256 \<Rightarrow> bool) \<Rightarrow> haircut \<Rightarrow> (nat \<times> nat \<times> flash_route) list" where
  "eligible_pairs q idx has_exit h =
     concat (map (\<lambda>(si, seize).
       if so_max_seize seize = 0 \<or> \<not> has_exit (so_asset seize) (so_max_seize seize) then []
       else map (\<lambda>(ri, route). (si, ri, route)) (routed q idx h))
       (enumerate 0 (q_seize_options q)))"

section \<open>Proofs\<close>

lemma set_map_filter: "set (List.map_filter f xs) = {y. \<exists>x \<in> set xs. f x = Some y}"
  by (auto simp: List.map_filter_def image_iff) force

lemma sorted_wrt_concat:
  assumes "\<And>x. x \<in> set xs \<Longrightarrow> sorted_wrt P (f x)"
    and "sorted_wrt (\<lambda>x y. \<forall>a \<in> set (f x). \<forall>b \<in> set (f y). P a b) xs"
  shows "sorted_wrt P (concat (map f xs))"
  using assms by (induction xs) (auto simp: sorted_wrt_append)

lemma sorted_wrt_enumerate: "sorted_wrt (\<lambda>a b. fst a < fst b) (enumerate n xs)"
  using sorted_wrt_upt [of n "n + length xs"] by (simp add: enumerate_eq_zip sorted_wrt_map [symmetric])

lemma routed_set:
  "(ri, route) \<in> set (routed q idx h) \<longleftrightarrow>
     ri < length (q_repay_options q) \<and>
     best_route idx (ro_asset (q_repay_options q ! ri)) (ro_max_repay (q_repay_options q ! ri)) h = Some route"
  by (auto simp: routed_def set_map_filter in_set_enumerate_eq intro!: bexI [of _ "(ri, q_repay_options q ! ri)"])

lemma routed_sorted: "sorted_wrt (\<lambda>a b. fst a < fst b) (routed q idx h)"
proof -
  have filter: "List.map_filter f xs = concat (map (\<lambda>x. case f x of None \<Rightarrow> [] | Some y \<Rightarrow> [y]) xs)" for f :: "'x \<Rightarrow> 'y option" and xs
    by (induction xs) (auto simp: List.map_filter_simps split: option.split)
  have some_map: "Some y = map_option f x \<longleftrightarrow> (\<exists>z. x = Some z \<and> y = f z)" for y :: 'y and f :: "'x \<Rightarrow> 'y" and x
    by (cases x) auto
  show ?thesis
    unfolding routed_def filter
    by (rule sorted_wrt_concat)
      (auto intro!: sorted_wrt_mono_rel [OF _ sorted_wrt_enumerate] simp: some_map split: option.splits)
qed

lemma eligible_pairs_set:
  "(si, ri, route) \<in> set (eligible_pairs q idx has_exit h) \<longleftrightarrow> two_sided q idx has_exit h si ri route"
  by (auto simp: eligible_pairs_def in_set_enumerate_eq routed_set two_sided_def image_iff split: if_splits
      intro!: bexI [of _ "(si, q_seize_options q ! si)"] bexI [of _ "(ri, route)"])

lemma eligible_pairs_sorted:
  "sorted_wrt (\<lambda>(s, r, _) (s', r', _). s < s' \<or> s = s' \<and> r < r') (eligible_pairs q idx has_exit h)"
  unfolding eligible_pairs_def
proof (rule sorted_wrt_concat)
  show "sorted_wrt (\<lambda>(s, r, _) (s', r', _). s < s' \<or> s = s' \<and> r < r')
      (case x of (si, seize) \<Rightarrow>
         if so_max_seize seize = 0 \<or> \<not> has_exit (so_asset seize) (so_max_seize seize) then []
         else map (\<lambda>(ri, route). (si, ri, route)) (routed q idx h))" for x
    using routed_sorted [of q idx h] by (auto simp: sorted_wrt_map split: prod.split elim!: sorted_wrt_mono_rel [rotated])
  show "sorted_wrt (\<lambda>x y. \<forall>a \<in> set (case x of (si, seize) \<Rightarrow>
           if so_max_seize seize = 0 \<or> \<not> has_exit (so_asset seize) (so_max_seize seize) then []
           else map (\<lambda>(ri, route). (si, ri, route)) (routed q idx h)).
         \<forall>b \<in> set (case y of (si, seize) \<Rightarrow>
           if so_max_seize seize = 0 \<or> \<not> has_exit (so_asset seize) (so_max_seize seize) then []
           else map (\<lambda>(ri, route). (si, ri, route)) (routed q idx h)).
         (\<lambda>(s, r, _) (s', r', _). s < s' \<or> s = s' \<and> r < r') a b) (enumerate 0 (q_seize_options q))"
    by (rule sorted_wrt_mono_rel [OF _ sorted_wrt_enumerate]) (auto split: if_splits)
qed

text \<open>The loops keep the first element of greatest key.\<close>

definition keep_first_max :: "('a \<Rightarrow> 'k::linorder) \<Rightarrow> 'a \<Rightarrow> 'a option \<Rightarrow> 'a option" where
  "keep_first_max key x best = (case best of None \<Rightarrow> Some x | Some b \<Rightarrow> if key b < key x then Some x else Some b)"

lemma keep_first_max_simps [simp]:
  "keep_first_max key x None = Some x"
  "keep_first_max key x (Some b) = (if key b < key x then Some x else Some b)"
  by (simp_all add: keep_first_max_def)

lemma fold_keep_first_max:
  "xs \<noteq> [] \<Longrightarrow>
   \<exists>i < length xs. fold (keep_first_max key) xs None = Some (xs ! i) \<and>
     (\<forall>j < length xs. key (xs ! j) \<le> key (xs ! i)) \<and> (\<forall>j < i. key (xs ! j) < key (xs ! i))"
proof (induction xs rule: rev_induct)
  case (snoc x xs)
  show ?case
  proof (cases "xs = []")
    case True
    then show ?thesis by simp
  next
    case False
    then obtain i where i: "i < length xs" "fold (keep_first_max key) xs None = Some (xs ! i)"
      "\<forall>j < length xs. key (xs ! j) \<le> key (xs ! i)" "\<forall>j < i. key (xs ! j) < key (xs ! i)"
      using snoc.IH by blast
    show ?thesis
    proof (cases "key (xs ! i) < key x")
      case True
      then have "\<forall>j < length xs. key (xs ! j) < key x" using i(3) by (meson le_less_trans)
      then show ?thesis
        using True i(2)
        by (intro exI [of _ "length xs"]) (auto simp: nth_append less_Suc_eq)
    next
      case False
      then show ?thesis
        using i by (intro exI [of _ i]) (auto simp: nth_append less_Suc_eq)
    qed
  qed
qed simp

definition chosen :: "quote \<Rightarrow> nat \<times> nat \<times> flash_route \<Rightarrow> u256 \<times> leg_choice \<times> flash_route" where
  "chosen q p = (case p of (si, ri, route) \<Rightarrow>
     (pair_key q si route, \<lparr>lc_repay = of_nat ri, lc_seize = of_nat si\<rparr>, route))"

lemma fold_map_keep: "map_option g (fold (keep_first_max (fst \<circ> g)) xs None) = fold (keep_first_max fst) (map g xs) None"
proof -
  have "map_option g (fold (keep_first_max (fst \<circ> g)) xs b) = fold (keep_first_max fst) (map g xs) (map_option g b)" for b
    by (induction xs arbitrary: b) (auto simp: keep_first_max_def split: option.split)
  from this [of None] show ?thesis by simp
qed

lemma pair_fold:
  assumes "length (q_repay_options q) \<le> 256" and "si < 256" and "seize = q_seize_options q ! si"
    and "set rs \<subseteq> set (routed q idx h)"
  shows "fold (pair_step si seize) rs best = fold (keep_first_max fst) (map (\<lambda>(ri, route). chosen q (si, ri, route)) rs) best"
  using assms(4)
proof (induction rs arbitrary: best)
  case (Cons rr rs)
  obtain ri route where rr: "rr = (ri, route)" by (cases rr)
  then have "ri < 256" using Cons.prems assms(1) routed_set [of ri route q idx h] by auto
  then have "pair_step si seize rr best = keep_first_max fst (chosen q (si, ri, route)) best"
    using assms(2,3)
    by (cases best) (auto simp: rr pair_step_def keep_first_max_def chosen_def pair_key_def try_from_usize_def Let_def)
  then show ?case using Cons by (simp add: rr)
qed simp

lemma seize_fold:
  assumes "length (q_repay_options q) \<le> 256" and "length (q_seize_options q) \<le> 256"
    and "set ss \<subseteq> set (enumerate 0 (q_seize_options q))"
  shows "fold (seize_step has_exit (routed q idx h)) ss best =
     fold (keep_first_max fst) (map (chosen q) (concat (map (\<lambda>(si, seize).
       if so_max_seize seize = 0 \<or> \<not> has_exit (so_asset seize) (so_max_seize seize) then []
       else map (\<lambda>(ri, route). (si, ri, route)) (routed q idx h)) ss))) best"
  using assms(3)
proof (induction ss arbitrary: best)
  case (Cons s ss)
  obtain si seize where s: "s = (si, seize)" by (cases s)
  then have "si < 256" "seize = q_seize_options q ! si"
    using Cons.prems assms(2) by (auto simp: in_set_enumerate_eq)
  note block = pair_fold [OF assms(1) this, of "routed q idx h" idx h]
  have "(\<lambda>(ri, route). chosen q (si, ri, route)) = chosen q \<circ> (\<lambda>(ri, route). (si, ri, route))" by (auto simp: fun_eq_iff)
  then show ?case using Cons block by (auto simp: s seize_step_def)
qed simp

lemma is_eligible_first_max:
  assumes "\<not> reward_only q" and "length (q_repay_options q) \<le> 256" and "length (q_seize_options q) \<le> 256"
  shows "is_eligible q idx has_exit h =
     map_option (snd \<circ> chosen q)
       (fold (keep_first_max (fst \<circ> chosen q)) (eligible_pairs q idx has_exit h) None)"
proof (cases "routed q idx h = []")
  case True
  then have "eligible_pairs q idx has_exit h = []" by (auto simp: eligible_pairs_def)
  then show ?thesis using True assms(1) by (auto simp: is_eligible_def reward_only_def)
next
  case False
  then have "is_eligible q idx has_exit h =
      map_option snd (fold (seize_step has_exit (routed q idx h)) (enumerate 0 (q_seize_options q)) None)"
    using assms(1) by (auto simp: is_eligible_def reward_only_def)
  also have "\<dots> = map_option snd (fold (keep_first_max fst) (map (chosen q) (eligible_pairs q idx has_exit h)) None)"
    by (simp add: seize_fold [OF assms(2,3)] eligible_pairs_def)
  finally show ?thesis by (simp add: option.map_comp flip: fold_map_keep)
qed

lemma two_sided_best:
  assumes "\<not> reward_only q" and "length (q_repay_options q) \<le> 256" and "length (q_seize_options q) \<le> 256"
  shows "(is_eligible q idx has_exit h = None \<longleftrightarrow> (\<nexists>si ri route. two_sided q idx has_exit h si ri route)) \<and>
         (\<forall>legs route. is_eligible q idx has_exit h = Some (legs, route) \<longrightarrow>
            two_sided q idx has_exit h (unat (lc_seize legs)) (unat (lc_repay legs)) route \<and>
            (\<forall>si ri route'. two_sided q idx has_exit h si ri route' \<longrightarrow>
               pair_key q si route' < pair_key q (unat (lc_seize legs)) route \<or>
               pair_key q si route' = pair_key q (unat (lc_seize legs)) route \<and>
               (unat (lc_seize legs), unat (lc_repay legs)) \<le> (si, ri)))"
proof (cases "eligible_pairs q idx has_exit h = []")
  case True
  then have "\<nexists>si ri route. two_sided q idx has_exit h si ri route"
    by (auto simp flip: eligible_pairs_set)
  with True show ?thesis by (simp add: is_eligible_first_max [OF assms])
next
  case False
  define ps where "ps = eligible_pairs q idx has_exit h"
  obtain i where i: "i < length ps" "fold (keep_first_max (fst \<circ> chosen q)) ps None = Some (ps ! i)"
    and best: "\<forall>j < length ps. fst (chosen q (ps ! j)) \<le> fst (chosen q (ps ! i))"
    and first: "\<forall>j < i. fst (chosen q (ps ! j)) < fst (chosen q (ps ! i))"
    using fold_keep_first_max [of ps "fst \<circ> chosen q"] False by (auto simp: ps_def)
  obtain si ri route where p: "ps ! i = (si, ri, route)" by (metis prod_cases3)
  have ad: "two_sided q idx has_exit h si ri route"
    using nth_mem [OF i(1)] p by (simp add: ps_def eligible_pairs_set)
  then have nat: "unat (of_nat si :: u8) = si" "unat (of_nat ri :: u8) = ri"
    using assms(2,3) by (auto simp: two_sided_def)
  have el: "is_eligible q idx has_exit h = Some (\<lparr>lc_repay = of_nat ri, lc_seize = of_nat si\<rparr>, route)"
    using i(2) by (simp add: is_eligible_first_max [OF assms] p chosen_def flip: ps_def)
  have "pair_key q s rt < pair_key q si route \<or> pair_key q s rt = pair_key q si route \<and> (si, ri) \<le> (s, r)"
    if "two_sided q idx has_exit h s r rt" for s r rt
  proof -
    have "(s, r, rt) \<in> set ps" using that by (simp add: ps_def eligible_pairs_set)
    then obtain j where j: "j < length ps" "ps ! j = (s, r, rt)" by (auto simp: in_set_conv_nth)
    consider "j < i" | "j = i" | "i < j" by linarith
    then show ?thesis
    proof cases
      case 3
      have "si < s \<or> si = s \<and> ri < r"
        using sorted_wrt_nth_less [OF eligible_pairs_sorted, of i j q idx has_exit h] 3 j p
        by (simp flip: ps_def)
      then show ?thesis using best j p by (auto simp: chosen_def le_less)
    qed (use first best j p in \<open>auto simp: chosen_def\<close>)
  qed
  then show ?thesis using ad el nat by auto
qed

text \<open>Reward-only quotes: nothing is borrowed, and the first seize leg that pays is taken.\<close>

lemma position_of_Some:
  "position_of P n xs = Some i \<longleftrightarrow> n \<le> i \<and> i - n < length xs \<and> P (xs ! (i - n)) \<and> (\<forall>j < i - n. \<not> P (xs ! j))"
proof (induction xs arbitrary: n)
  case (Cons x xs)
  show ?case
  proof (cases "P x")
    case True
    then show ?thesis by (auto simp: nth_Cons')
  next
    case False
    have "n \<le> i \<and> i - n < Suc (length xs) \<and> P ((x # xs) ! (i - n)) \<and> (\<forall>j < i - n. \<not> P ((x # xs) ! j)) \<longleftrightarrow>
        Suc n \<le> i \<and> i - Suc n < length xs \<and> P (xs ! (i - Suc n)) \<and> (\<forall>j < i - Suc n. \<not> P (xs ! j))"
    proof (cases "n < i")
      case True
      then obtain k where k: "i - n = Suc k" "i - Suc n = k" by (metis Suc_diff_Suc)
      then show ?thesis using True False by (auto simp: All_less_Suc2)
    qed (use False in \<open>auto simp: nth_Cons'\<close>)
    then show ?thesis using False Cons by simp
  qed
qed simp

lemma position_of_None: "position_of P n xs = None \<longleftrightarrow> (\<forall>x \<in> set xs. \<not> P x)"
  by (induction xs arbitrary: n) auto

definition first_paying :: "quote \<Rightarrow> nat \<Rightarrow> bool" where
  "first_paying q si \<longleftrightarrow> si < length (q_seize_options q) \<and> so_max_seize (q_seize_options q ! si) \<noteq> 0 \<and>
     (\<forall>j < si. so_max_seize (q_seize_options q ! j) = 0)"

lemma reward_only_eligible:
  assumes "reward_only q" and "length (q_seize_options q) \<le> 256"
  shows "is_eligible q idx has_exit h = None \<longleftrightarrow> list_all (\<lambda>s. so_max_seize s = 0) (q_seize_options q)"
    and "is_eligible q idx has_exit h = Some (legs, route) \<longleftrightarrow>
      first_paying q (unat (lc_seize legs)) \<and> lc_repay legs = 0 \<and> route = direct_route (ro_asset (hd (q_repay_options q)))"
proof -
  define p where "p = position_of (\<lambda>s. so_max_seize s \<noteq> 0) 0 (q_seize_options q)"
  have p: "p = Some i \<longleftrightarrow> first_paying q i" for i by (auto simp: p_def position_of_Some first_paying_def)
  have small: "i < 256" if "p = Some i" for i using that assms(2) by (simp add: p first_paying_def)
  have el: "is_eligible q idx has_exit h = map_option (\<lambda>si.
      (\<lparr>lc_repay = 0, lc_seize = of_nat si\<rparr>, direct_route (ro_asset (hd (q_repay_options q))))) p"
    using assms(1) small
    by (cases p) (auto simp: is_eligible_def reward_only_def p_def [symmetric] try_from_usize_def split: list.split)
  then show "is_eligible q idx has_exit h = None \<longleftrightarrow> list_all (\<lambda>s. so_max_seize s = 0) (q_seize_options q)"
    by (simp add: p_def position_of_None list_all_iff)
  show "is_eligible q idx has_exit h = Some (legs, route) \<longleftrightarrow>
      first_paying q (unat (lc_seize legs)) \<and> lc_repay legs = 0 \<and> route = direct_route (ro_asset (hd (q_repay_options q)))"
    using small by (cases legs) (auto simp: el p [symmetric])
qed

text \<open>
  C21. The decision on every quote with as many legs as a leg choice can name. A reward-only quote is
  eligible exactly when some seize leg pays; the first of those is chosen, and nothing is borrowed. Any other
  quote that is refused has no admissible pair: none the quote allows, with a flash route for the repay leg
  and an exit for a seize leg that pays. A pair returned has both sides, and no admissible pair has a greater
  bonus net of the flash fee, or the same one and an earlier place in the quote (seize leg, then repay leg).
  When no repay leg is tied to a seize leg, the pair returned is itself admissible.
\<close>

theorem eligible_exact:
  assumes "length (q_repay_options q) \<le> 256" and "length (q_seize_options q) \<le> 256"
  shows "if reward_only q then
           (is_eligible q idx has_exit h = None \<longleftrightarrow> list_all (\<lambda>s. so_max_seize s = 0) (q_seize_options q)) \<and>
           (\<forall>legs route. is_eligible q idx has_exit h = Some (legs, route) \<longleftrightarrow>
              first_paying q (unat (lc_seize legs)) \<and> lc_repay legs = 0 \<and>
              route = direct_route (ro_asset (hd (q_repay_options q))))
         else
           (is_eligible q idx has_exit h = None \<longrightarrow> (\<nexists>si ri route. admissible q idx has_exit h si ri route)) \<and>
           (\<forall>legs route. is_eligible q idx has_exit h = Some (legs, route) \<longrightarrow>
              two_sided q idx has_exit h (unat (lc_seize legs)) (unat (lc_repay legs)) route \<and>
              (\<forall>si ri route'. admissible q idx has_exit h si ri route' \<longrightarrow>
                 pair_key q si route' < pair_key q (unat (lc_seize legs)) route \<or>
                 pair_key q si route' = pair_key q (unat (lc_seize legs)) route \<and>
                 (unat (lc_seize legs), unat (lc_repay legs)) \<le> (si, ri)) \<and>
              (unpaired q \<longrightarrow> admissible q idx has_exit h (unat (lc_seize legs)) (unat (lc_repay legs)) route))"
proof (cases "reward_only q")
  case True
  then show ?thesis using reward_only_eligible [OF True assms(2)] by simp
next
  case False
  note best = two_sided_best [OF False assms, of idx has_exit h]
  have weaker: "two_sided q idx has_exit h si ri route" if "admissible q idx has_exit h si ri route" for si ri route
    using that by (simp add: admissible_def)
  have same: "admissible q idx has_exit h si ri route" if "unpaired q" "two_sided q idx has_exit h si ri route" for si ri route
    using that by (auto simp: admissible_def unpaired_def two_sided_def pairs_with_def list_all_length)
  have "(is_eligible q idx has_exit h = None \<longrightarrow> (\<nexists>si ri route. admissible q idx has_exit h si ri route))"
    using best weaker by blast
  moreover have "two_sided q idx has_exit h (unat (lc_seize legs)) (unat (lc_repay legs)) route \<and>
      (\<forall>si ri route'. admissible q idx has_exit h si ri route' \<longrightarrow>
         pair_key q si route' < pair_key q (unat (lc_seize legs)) route \<or>
         pair_key q si route' = pair_key q (unat (lc_seize legs)) route \<and>
         (unat (lc_seize legs), unat (lc_repay legs)) \<le> (si, ri)) \<and>
      (unpaired q \<longrightarrow> admissible q idx has_exit h (unat (lc_seize legs)) (unat (lc_repay legs)) route)"
    if "is_eligible q idx has_exit h = Some (legs, route)" for legs route
    using conjunct2 [OF best, rule_format, OF that] weaker same by blast
  ultimately show ?thesis using False by simp
qed

text \<open>
  What the last clause leaves out is real: the decision never looks at the pairing. It answers the same on a
  quote with every tie of its repay legs erased, so a tied leg can be returned with a seize leg it is not
  valid with.
\<close>

definition untie :: "quote \<Rightarrow> quote" where
  "untie q = q\<lparr>q_repay_options := map (\<lambda>r. r\<lparr>ro_pair_seize := None\<rparr>) (q_repay_options q)\<rparr>"

lemma eligible_ignores_pairing: "is_eligible (untie q) idx has_exit h = is_eligible q idx has_exit h"
proof -
  have "List.map_filter f (enumerate n (map g xs)) = List.map_filter (\<lambda>(i, x). f (i, g x)) (enumerate n xs)"
    for f :: "nat \<times> repay_option \<Rightarrow> (nat \<times> flash_route) option" and g :: "repay_option \<Rightarrow> repay_option" and n xs
    by (induction xs arbitrary: n) (simp_all add: List.map_filter_simps cong: option.case_cong)
  then have "routed (untie q) idx h = routed q idx h" by (simp add: routed_def untie_def)
  then show ?thesis
    by (cases "q_repay_options q") (simp_all add: is_eligible_def untie_def list_all_iff Let_def)
qed

section \<open>A sample quote\<close>

text \<open>One repay leg and two seize legs, the first of which pays more.\<close>

definition sample_entry_500 :: source_entry where
  "sample_entry_500 =
     \<lparr>se_available = 500, se_source = 7, se_gas_overhead = 0, se_fee_bps = 0, se_provider = FP_Morpho,
      se_callback = MorphoFlashCallback\<rparr>"

definition sample_index_500 :: flash_index where
  "sample_index_500 = \<lparr>fi_by_asset = [[sample_entry_500]], fi_max_available = [500]\<rparr>"

definition sample_seize :: "u256 \<Rightarrow> seize_option" where
  "sample_seize bonus =
     \<lparr>so_asset = 0, so_max_seize = 20, so_bonus = Ray bonus, so_curve = Static (Ray bonus), so_call_target = 0,
      so_slot = ByAsset\<rparr>"

definition sample_free_quote :: quote where
  "sample_free_quote =
     \<lparr>q_position = 3, q_key = \<lparr>pk_protocol = 0, pk_market = 0, pk_user = 9\<rparr>,
      q_repay_options =
        [\<lparr>ro_asset = 0, ro_max_repay = 10, ro_min_repay = 0, ro_pair_seize = None, ro_slot = ByAsset\<rparr>],
      q_seize_options = [sample_seize 50, sample_seize 30]\<rparr>"

lemma sample_best_route:
  "best_route sample_index_500 0 10 haircut_NONE = Some (se_route sample_entry_500 0 10)"
  by (simp add: best_route_def gross_up_def haircut_NONE_def mul_div_reference BPS_def try_from_usize_def
      fi_available_def fi_entries_def get_def sample_index_500_def sample_entry_500_def word_less_unat word_le_unat)

lemma sample_routed:
  "routed sample_free_quote sample_index_500 haircut_NONE = [(0, se_route sample_entry_500 0 10)]"
  by (simp add: routed_def sample_free_quote_def List.map_filter_simps sample_best_route)

lemma sample_exit: "depth_only_has_exit sample_index_500 0 20"
  by (simp add: depth_only_has_exit_def fi_entries_def get_def sample_index_500_def sample_entry_500_def word_le_unat)

lemma sample_eligible:
  "is_eligible sample_free_quote sample_index_500 (depth_only_has_exit sample_index_500) haircut_NONE =
     Some (PREFERRED, se_route sample_entry_500 0 10)"
proof -
  have fee: "fr_fee_bps (se_route sample_entry_500 0 10) = 0" by (simp add: se_route_def sample_entry_500_def)
  have net: "net_of_bonus b 0 = b" for b
    by (simp add: net_of_bonus_def checked_mul_def saturating_sub_def)
  have "fold (seize_step (depth_only_has_exit sample_index_500) [(0, se_route sample_entry_500 0 10)])
      (enumerate 0 [sample_seize 50, sample_seize 30]) None =
      Some (50, PREFERRED, se_route sample_entry_500 0 10)"
    by (simp add: seize_step_def pair_step_def sample_seize_def sample_exit fee net try_from_usize_def PREFERRED_def
        word_less_unat)
  then show ?thesis
    by (simp add: is_eligible_def sample_routed) (simp add: sample_free_quote_def)
qed

theorem eligible_exact_witness:
  "admissible sample_free_quote sample_index_500 (depth_only_has_exit sample_index_500) haircut_NONE 0 0
     (se_route sample_entry_500 0 10)"
proof -
  have q: "\<not> reward_only sample_free_quote" "unpaired sample_free_quote" "length (q_repay_options sample_free_quote) \<le> 256"
    "length (q_seize_options sample_free_quote) \<le> 256"
    by (simp_all add: reward_only_def unpaired_def sample_free_quote_def)
  have "\<forall>legs route. is_eligible sample_free_quote sample_index_500 (depth_only_has_exit sample_index_500) haircut_NONE =
        Some (legs, route) \<longrightarrow>
      admissible sample_free_quote sample_index_500 (depth_only_has_exit sample_index_500) haircut_NONE
        (unat (lc_seize legs)) (unat (lc_repay legs)) route"
    using eligible_exact [OF q(3,4), of sample_index_500 "depth_only_has_exit sample_index_500" haircut_NONE] q(1,2)
    by auto
  then show ?thesis using sample_eligible by (auto simp: PREFERRED_def)
qed

end
