(* ===== verification/Caps.thy ===== *)
theory Caps
  imports Flash
begin

text \<open>
  Position and concurrency caps, \<^verbatim>\<open>crates/liq-risk/src/caps.rs\<close>. The mutex around the live
  counters makes every operation atomic, so a history is a sequence of operations on the counters.
  A guard releases its slot when it is dropped. The counters are related to the list of the guards
  that are held: the abstract state the caps promise to bound. Log lines are returned as values.
\<close>

section \<open>State\<close>

record cap_config =
  cc_per_liquidation_notional :: u256
  cc_per_protocol_exposure :: u256
  cc_global_concurrent :: u32
  cc_per_provider_concurrent :: u32
  cc_concentration_alert_bps :: u32
  cc_haircut_floor_bps :: u16
  cc_haircut_ceil_bps :: u16

definition default_cap_config :: cap_config where
  "default_cap_config =
     \<lparr>cc_per_liquidation_notional = - 1, cc_per_protocol_exposure = - 1, cc_global_concurrent = 20,
      cc_per_provider_concurrent = 1, cc_concentration_alert_bps = 8000, cc_haircut_floor_bps = 8000,
      cc_haircut_ceil_bps = 9900\<rparr>"

datatype cap_error =
    CapNotional u256 u256
  | CapProtocol
  | CapGlobal u32
  | CapProvider flash_provider u32

record live =
  lv_global :: u32
  lv_by_protocol :: "protocol_id \<Rightarrow> u256 option"
  lv_by_provider :: "flash_provider \<Rightarrow> u32 option"
  lv_liq_by_provider :: "flash_provider \<Rightarrow> u64 option"
  lv_liq_total :: u64
  lv_il_ok :: u64
  lv_il_fail :: u64
  lv_haircut_bps :: u16

record caps =
  cp_cfg :: cap_config
  cp_live :: live

record cap_guard =
  cg_protocol :: protocol_id
  cg_provider :: flash_provider
  cg_notional :: u256

definition caps_new :: "cap_config \<Rightarrow> caps" where
  "caps_new cfg =
     \<lparr>cp_cfg = cfg,
      cp_live = \<lparr>lv_global = 0, lv_by_protocol = (\<lambda>_. None), lv_by_provider = (\<lambda>_. None),
                 lv_liq_by_provider = (\<lambda>_. None), lv_liq_total = 0, lv_il_ok = 0, lv_il_fail = 0,
                 lv_haircut_bps = cc_haircut_ceil_bps cfg\<rparr>\<rparr>"

section \<open>Operations\<close>

definition try_acquire ::
  "protocol_id \<Rightarrow> flash_provider \<Rightarrow> u256 \<Rightarrow> caps \<Rightarrow> (cap_guard, cap_error) result \<times> caps" where
  "try_acquire protocol provider notional c =
     (let cfg = cp_cfg c; g = cp_live c in
      if cc_per_liquidation_notional cfg < notional
      then (Err (CapNotional notional (cc_per_liquidation_notional cfg)), c)
      else if cc_global_concurrent cfg \<le> lv_global g then (Err (CapGlobal (cc_global_concurrent cfg)), c)
      else
        let pc = unwrap_or (lv_by_provider g provider) 0 in
        if cc_per_provider_concurrent cfg \<le> pc
        then (Err (CapProvider provider (cc_per_provider_concurrent cfg)), c)
        else
          let exp = unwrap_or (lv_by_protocol g protocol) 0 in
          try_opt (checked_add exp notional) CapProtocol c (\<lambda>sum.
            if cc_per_protocol_exposure cfg < sum then (Err CapProtocol, c)
            else
              (Ok \<lparr>cg_protocol = protocol, cg_provider = provider, cg_notional = notional\<rparr>,
               c\<lparr>cp_live := g\<lparr>lv_global := saturating_add (lv_global g) 1,
                              lv_by_provider := (lv_by_provider g)(provider \<mapsto> saturating_add pc 1),
                              lv_by_protocol := (lv_by_protocol g)(protocol \<mapsto> sum)\<rparr>\<rparr>)))"

definition cap_release :: "protocol_id \<Rightarrow> flash_provider \<Rightarrow> u256 \<Rightarrow> caps \<Rightarrow> caps" where
  "cap_release protocol provider notional c =
     (let g = cp_live c in
      c\<lparr>cp_live := g\<lparr>
          lv_global := saturating_sub (lv_global g) 1,
          lv_by_provider :=
            (case lv_by_provider g provider of
               None \<Rightarrow> lv_by_provider g
             | Some n \<Rightarrow> (lv_by_provider g)(provider \<mapsto> saturating_sub n 1)),
          lv_by_protocol :=
            (case lv_by_protocol g protocol of
               None \<Rightarrow> lv_by_protocol g
             | Some e \<Rightarrow> (lv_by_protocol g)(protocol \<mapsto> saturating_sub e notional))\<rparr>\<rparr>)"

definition guard_drop :: "cap_guard \<Rightarrow> caps \<Rightarrow> caps" where
  "guard_drop guard = cap_release (cg_protocol guard) (cg_provider guard) (cg_notional guard)"

definition saturating_mul :: "'a::len word \<Rightarrow> 'a word \<Rightarrow> 'a word" where
  "saturating_mul a b = (if unat a * unat b < 2 ^ LENGTH('a) then a * b else - 1)"

text \<open>The flag says whether the concentration alert is logged.\<close>

definition record_fill :: "flash_provider \<Rightarrow> caps \<Rightarrow> bool \<times> caps" where
  "record_fill provider c =
     (let g = cp_live c;
          g = g\<lparr>lv_liq_total := saturating_add (lv_liq_total g) 1\<rparr>;
          g = g\<lparr>lv_liq_by_provider :=
                 (lv_liq_by_provider g)(provider \<mapsto>
                   saturating_add (unwrap_or (lv_liq_by_provider g provider) 0) 1)\<rparr>;
          t = lv_liq_total g;
          n = unwrap_or (lv_liq_by_provider g provider) 0;
          bps = (if t = 0 then 0 else unwrap_or (checked_div (saturating_mul n 10000) t) 0)
      in (ucast (cc_concentration_alert_bps (cp_cfg c)) \<le> bps, c\<lparr>cp_live := g\<rparr>))"

definition haircut_of :: "u16 \<Rightarrow> haircut" where
  "haircut_of bps = unwrap_or (haircut_from_bps bps) haircut_NONE"

definition observe_liquidity_result :: "bool \<Rightarrow> caps \<Rightarrow> haircut \<times> caps" where
  "observe_liquidity_result insufficient c =
     (let cfg = cp_cfg c; g = cp_live c;
          g = (if insufficient then g\<lparr>lv_il_fail := saturating_add (lv_il_fail g) 1\<rparr>
               else g\<lparr>lv_il_ok := saturating_add (lv_il_ok g) 1\<rparr>);
          den = saturating_add (lv_il_ok g) (lv_il_fail g)
      in if den = 0 then (haircut_of (lv_haircut_bps g), c\<lparr>cp_live := g\<rparr>)
         else
           let fail_bps = unwrap_or (checked_div (saturating_mul (lv_il_fail g) 10000) den) 0;
               g = (if 500 < fail_bps
                    then g\<lparr>lv_haircut_bps := max (saturating_sub (lv_haircut_bps g) 50) (cc_haircut_floor_bps cfg)\<rparr>
                    else if fail_bps = 0
                    then g\<lparr>lv_haircut_bps := min (saturating_add (lv_haircut_bps g) 10) (cc_haircut_ceil_bps cfg)\<rparr>
                    else g)
           in (haircut_of (lv_haircut_bps g), c\<lparr>cp_live := g\<rparr>))"

definition caps_haircut :: "caps \<Rightarrow> haircut" where
  "caps_haircut c = haircut_of (lv_haircut_bps (cp_live c))"

text \<open>The alerts of \<^verbatim>\<open>observe_index\<close>, in order: a single source with its count, a shallow depth.\<close>

datatype index_alert = SingleSource asset_id nat | ShallowDepth asset_id u256 u256

definition observe_index :: "flash_index \<Rightarrow> asset_id list \<Rightarrow> u256 \<Rightarrow> index_alert list" where
  "observe_index idx majors median_notional =
     concat (map (\<lambda>a.
       (let n = length (fi_entries idx a) in if n < 2 then [SingleSource a n] else []) @
       (let avail = fi_available idx a in if avail < median_notional then [ShallowDepth a avail median_notional] else []))
       majors)"

section \<open>Histories\<close>

text \<open>A caller acquires, drops the \<open>i\<close>-th guard it holds, or reports; the guards held are part of the state.\<close>

datatype cap_op =
    Acquire protocol_id flash_provider u256
  | DropGuard nat
  | RecordFill flash_provider
  | ObserveLiquidity bool

definition cap_step :: "cap_op \<Rightarrow> caps \<times> cap_guard list \<Rightarrow> caps \<times> cap_guard list" where
  "cap_step op st =
     (case st of (c, held) \<Rightarrow>
       case op of
         Acquire protocol provider notional \<Rightarrow>
           (case try_acquire protocol provider notional c of
              (Ok guard, c') \<Rightarrow> (c', guard # held)
            | (Err e, c') \<Rightarrow> (c', held))
       | DropGuard i \<Rightarrow>
           (case get held i of
              None \<Rightarrow> (c, held)
            | Some guard \<Rightarrow> (guard_drop guard c, take i held @ drop (Suc i) held))
       | RecordFill provider \<Rightarrow> (snd (record_fill provider c), held)
       | ObserveLiquidity insufficient \<Rightarrow> (snd (observe_liquidity_result insufficient c), held))"

definition cap_run :: "cap_config \<Rightarrow> cap_op list \<Rightarrow> caps \<times> cap_guard list" where
  "cap_run cfg ops = fold cap_step ops (caps_new cfg, [])"

text \<open>What the held guards amount to.\<close>

definition provider_count :: "cap_guard list \<Rightarrow> flash_provider \<Rightarrow> nat" where
  "provider_count held p = length (filter (\<lambda>g. cg_provider g = p) held)"

definition protocol_exposure :: "cap_guard list \<Rightarrow> protocol_id \<Rightarrow> nat" where
  "protocol_exposure held p = sum_list (map (\<lambda>g. if cg_protocol g = p then unat (cg_notional g) else 0) held)"

definition caps_inv :: "caps \<Rightarrow> cap_guard list \<Rightarrow> bool" where
  "caps_inv c held \<longleftrightarrow>
     unat (lv_global (cp_live c)) = length held \<and>
     (\<forall>p. unat (unwrap_or (lv_by_provider (cp_live c) p) 0) = provider_count held p) \<and>
     (\<forall>p. unat (unwrap_or (lv_by_protocol (cp_live c) p) 0) = protocol_exposure held p) \<and>
     length held \<le> unat (cc_global_concurrent (cp_cfg c)) \<and>
     (\<forall>p. provider_count held p \<le> unat (cc_per_provider_concurrent (cp_cfg c))) \<and>
     (\<forall>p. protocol_exposure held p \<le> unat (cc_per_protocol_exposure (cp_cfg c))) \<and>
     (\<forall>g \<in> set held. cg_notional g \<le> cc_per_liquidation_notional (cp_cfg c))"

section \<open>The counters are exact\<close>

lemma provider_count_simps [simp]:
  "provider_count [] p = 0"
  "provider_count (g # held) p = (if cg_provider g = p then 1 else 0) + provider_count held p"
  "provider_count (xs @ ys) p = provider_count xs p + provider_count ys p"
  by (simp_all add: provider_count_def)

lemma protocol_exposure_simps [simp]:
  "protocol_exposure [] p = 0"
  "protocol_exposure (g # held) p = (if cg_protocol g = p then unat (cg_notional g) else 0) + protocol_exposure held p"
  "protocol_exposure (xs @ ys) p = protocol_exposure xs p + protocol_exposure ys p"
  by (simp_all add: protocol_exposure_def)

lemma caps_invD:
  assumes "caps_inv c held"
  shows "unat (lv_global (cp_live c)) = length held"
    and "unat (unwrap_or (lv_by_provider (cp_live c) p) 0) = provider_count held p"
    and "unat (unwrap_or (lv_by_protocol (cp_live c) q) 0) = protocol_exposure held q"
  using assms by (simp_all add: caps_inv_def)

lemma caps_inv_cong:
  "caps_inv c held \<Longrightarrow> cp_cfg c' = cp_cfg c \<Longrightarrow> lv_global (cp_live c') = lv_global (cp_live c) \<Longrightarrow>
   lv_by_provider (cp_live c') = lv_by_provider (cp_live c) \<Longrightarrow>
   lv_by_protocol (cp_live c') = lv_by_protocol (cp_live c) \<Longrightarrow> caps_inv c' held"
  by (simp add: caps_inv_def)

lemma caps_inv_new: "caps_inv (caps_new cfg) []"
  by (simp add: caps_inv_def caps_new_def)

text \<open>With exact counters an acquisition succeeds exactly within the four caps, and never saturates.\<close>

definition within_caps ::
  "cap_config \<Rightarrow> cap_guard list \<Rightarrow> protocol_id \<Rightarrow> flash_provider \<Rightarrow> u256 \<Rightarrow> bool" where
  "within_caps cfg held po pr n \<longleftrightarrow>
     unat n \<le> unat (cc_per_liquidation_notional cfg) \<and>
     length held < unat (cc_global_concurrent cfg) \<and>
     provider_count held pr < unat (cc_per_provider_concurrent cfg) \<and>
     protocol_exposure held po + unat n \<le> unat (cc_per_protocol_exposure cfg)"

lemma try_acquire_cases:
  assumes "caps_inv c held"
  shows "within_caps (cp_cfg c) held po pr n \<Longrightarrow>
      \<exists>c'. try_acquire po pr n c = (Ok \<lparr>cg_protocol = po, cg_provider = pr, cg_notional = n\<rparr>, c') \<and>
           cp_cfg c' = cp_cfg c \<and> caps_inv c' (\<lparr>cg_protocol = po, cg_provider = pr, cg_notional = n\<rparr> # held)"
    and "\<not> within_caps (cp_cfg c) held po pr n \<Longrightarrow> \<exists>e. try_acquire po pr n c = (Err e, c)"
proof -
  define g where "g = cp_live c"
  define pc where "pc = unwrap_or (lv_by_provider g pr) 0"
  define ex where "ex = unwrap_or (lv_by_protocol g po) 0"
  note counters = caps_invD [OF assms(1), folded g_def]
  have u: "unat (lv_global g) = length held" "unat pc = provider_count held pr" "unat ex = protocol_exposure held po"
    by (simp_all add: counters pc_def ex_def)
  show "\<exists>e. try_acquire po pr n c = (Err e, c)" if "\<not> within_caps (cp_cfg c) held po pr n"
  proof (cases "checked_add ex n")
    case None
    then show ?thesis by (simp add: try_acquire_def Let_def flip: g_def pc_def ex_def)
  next
    case (Some sum)
    then have "unat sum = unat ex + unat n" by (simp add: checked)
    then show ?thesis
      using that u Some
      by (auto simp: try_acquire_def Let_def within_caps_def word_le_unat word_less_unat not_less not_le simp flip: g_def pc_def ex_def)
  qed
  assume room: "within_caps (cp_cfg c) held po pr n"
  have "unat ex + unat n < 2 ^ 256"
    using room u unat_bound [of "cc_per_protocol_exposure (cp_cfg c)"] by (simp add: within_caps_def)
  then have sum: "checked_add ex n = Some (ex + n)" "unat (ex + n) = unat ex + unat n"
    by (simp_all add: checked_add_def unat_add_exact)
  have sat: "unat (saturating_add (lv_global g) 1) = length held + 1" "unat (saturating_add pc 1) = provider_count held pr + 1"
    using room u unat_bound [of "cc_global_concurrent (cp_cfg c)"] unat_bound [of "cc_per_provider_concurrent (cp_cfg c)"]
    by (simp_all add: unat_saturating_add within_caps_def)
  define c' where "c' = c\<lparr>cp_live := g\<lparr>lv_global := saturating_add (lv_global g) 1,
      lv_by_provider := (lv_by_provider g)(pr \<mapsto> saturating_add pc 1),
      lv_by_protocol := (lv_by_protocol g)(po \<mapsto> ex + n)\<rparr>\<rparr>"
  have "try_acquire po pr n c = (Ok \<lparr>cg_protocol = po, cg_provider = pr, cg_notional = n\<rparr>, c')"
    using room u sum
    by (auto simp: try_acquire_def Let_def within_caps_def word_le_unat word_less_unat c'_def simp flip: g_def pc_def ex_def)
  moreover have "caps_inv c' (\<lparr>cg_protocol = po, cg_provider = pr, cg_notional = n\<rparr> # held)"
    using assms(1) room counters
    by (auto simp: caps_inv_def c'_def within_caps_def sat sum u word_le_unat simp flip: g_def)
  ultimately show "\<exists>c'. try_acquire po pr n c = (Ok \<lparr>cg_protocol = po, cg_provider = pr, cg_notional = n\<rparr>, c') \<and>
      cp_cfg c' = cp_cfg c \<and> caps_inv c' (\<lparr>cg_protocol = po, cg_provider = pr, cg_notional = n\<rparr> # held)"
    by (auto simp: c'_def)
qed

lemma guard_drop_counters:
  "cp_cfg (guard_drop g c) = cp_cfg c"
  "unat (lv_global (cp_live (guard_drop g c))) = unat (lv_global (cp_live c)) - 1"
  "unat (unwrap_or (lv_by_provider (cp_live (guard_drop g c)) p) 0) =
     unat (unwrap_or (lv_by_provider (cp_live c) p) 0) - (if cg_provider g = p then 1 else 0)"
  "unat (unwrap_or (lv_by_protocol (cp_live (guard_drop g c)) q) 0) =
     unat (unwrap_or (lv_by_protocol (cp_live c) q) 0) - (if cg_protocol g = q then unat (cg_notional g) else 0)"
  by (auto simp: guard_drop_def cap_release_def Let_def unat_saturating_sub split: option.split)

lemma guard_drop_inv:
  assumes "caps_inv c held" and "get held i = Some g"
  shows "caps_inv (guard_drop g c) (take i held @ drop (Suc i) held)"
proof -
  define rest where "rest = take i held @ drop (Suc i) held"
  have i: "i < length held" "g = held ! i" using assms(2) by (auto simp: rust)
  have held: "held = take i held @ g # drop (Suc i) held" using i by (simp add: id_take_nth_drop)
  have len: "length held = length rest + 1" using i by (simp add: rest_def)
  have count: "provider_count held p = (if cg_provider g = p then 1 else 0) + provider_count rest p" for p
    by (subst held) (simp add: rest_def)
  have expo: "protocol_exposure held p = (if cg_protocol g = p then unat (cg_notional g) else 0) + protocol_exposure rest p" for p
    by (subst held) (simp add: rest_def)
  have sub: "set rest \<subseteq> set held" by (auto simp: rest_def dest: in_set_takeD in_set_dropD)
  have "provider_count held p \<le> unat (cc_per_provider_concurrent (cp_cfg c))"
    and "protocol_exposure held q \<le> unat (cc_per_protocol_exposure (cp_cfg c))" for p q
    using assms(1) by (simp_all add: caps_inv_def)
  then have "provider_count rest p \<le> unat (cc_per_provider_concurrent (cp_cfg c))"
    and "protocol_exposure rest q \<le> unat (cc_per_protocol_exposure (cp_cfg c))" for p q
    unfolding count expo by (meson add_leD2)+
  moreover have "unat (unwrap_or (lv_by_provider (cp_live (guard_drop g c)) p) 0) = provider_count rest p"
    and "unat (unwrap_or (lv_by_protocol (cp_live (guard_drop g c)) q) 0) = protocol_exposure rest q" for p q
    by (simp_all add: guard_drop_counters caps_invD [OF assms(1)] count expo)
  moreover have "unat (lv_global (cp_live (guard_drop g c))) = length rest"
    by (simp add: guard_drop_counters caps_invD [OF assms(1)] len)
  ultimately show ?thesis
    using assms(1) sub len unfolding caps_inv_def rest_def [symmetric] guard_drop_counters(1)
    by auto
qed

lemma cap_step_inv:
  assumes "caps_inv c held"
  shows "case cap_step op (c, held) of (c', held') \<Rightarrow> caps_inv c' held' \<and> cp_cfg c' = cp_cfg c"
proof (cases op)
  case (Acquire po pr n)
  then show ?thesis
    using try_acquire_cases [OF assms, of po pr n] assms
    by (cases "within_caps (cp_cfg c) held po pr n") (auto simp: cap_step_def)
next
  case (DropGuard i)
  then show ?thesis
    using guard_drop_inv [OF assms] assms by (auto simp: cap_step_def guard_drop_counters split: option.split)
next
  case (RecordFill p)
  then show ?thesis
    using caps_inv_cong [OF assms, of "snd (record_fill p c)"] by (simp add: cap_step_def record_fill_def Let_def)
next
  case (ObserveLiquidity b)
  then show ?thesis
    using caps_inv_cong [OF assms, of "snd (observe_liquidity_result b c)"]
    by (simp add: cap_step_def observe_liquidity_result_def Let_def)
qed

lemma cap_run_inv: "case cap_run cfg ops of (c, held) \<Rightarrow> caps_inv c held \<and> cp_cfg c = cfg"
proof (induction ops rule: rev_induct)
  case Nil
  then show ?case by (simp add: cap_run_def caps_inv_new) (simp add: caps_new_def)
next
  case (snoc op ops)
  obtain c held where run: "cap_run cfg ops = (c, held)" by (cases "cap_run cfg ops")
  have "cap_run cfg (ops @ [op]) = cap_step op (c, held)" using run by (simp add: cap_run_def)
  then show ?case using snoc run cap_step_inv [of c held op] by auto
qed

text \<open>
  C14. Whatever is acquired, dropped and reported, in any order, the guards held stay within the global,
  per-provider, per-protocol and per-liquidation caps, and the next acquisition succeeds exactly when it
  would keep all four: no slot leaks, none is counted twice, and no counter saturates.
\<close>

theorem caps_bound_held:
  "case cap_run cfg ops of (c, held) \<Rightarrow>
     length held \<le> unat (cc_global_concurrent cfg) \<and>
     (\<forall>p. provider_count held p \<le> unat (cc_per_provider_concurrent cfg)) \<and>
     (\<forall>p. protocol_exposure held p \<le> unat (cc_per_protocol_exposure cfg)) \<and>
     list_all (\<lambda>g. cg_notional g \<le> cc_per_liquidation_notional cfg) held \<and>
     (\<forall>po pr n. is_ok (fst (try_acquire po pr n c)) \<longleftrightarrow> within_caps cfg held po pr n)"
proof -
  obtain c held where run: "cap_run cfg ops = (c, held)" by (cases "cap_run cfg ops")
  then have inv: "caps_inv c held" and cfg: "cp_cfg c = cfg" using cap_run_inv [of cfg ops] by auto
  have "is_ok (fst (try_acquire po pr n c)) \<longleftrightarrow> within_caps cfg held po pr n" for po pr n
    using try_acquire_cases [OF inv, of po pr n] by (cases "within_caps cfg held po pr n") (auto simp: cfg)
  then show ?thesis using inv by (auto simp: run caps_inv_def cfg list_all_iff)
qed

section \<open>The tuned haircut\<close>

definition haircut_in_range :: "caps \<Rightarrow> bool" where
  "haircut_in_range c \<longleftrightarrow>
     cc_haircut_floor_bps (cp_cfg c) \<le> lv_haircut_bps (cp_live c) \<and>
     lv_haircut_bps (cp_live c) \<le> cc_haircut_ceil_bps (cp_cfg c)"

lemma observe_in_range:
  assumes "haircut_in_range c"
  shows "haircut_in_range (snd (observe_liquidity_result b c))"
proof -
  have "unat (cc_haircut_floor_bps (cp_cfg c)) \<le> unat (lv_haircut_bps (cp_live c))"
    "unat (lv_haircut_bps (cp_live c)) \<le> unat (cc_haircut_ceil_bps (cp_cfg c))"
    using assms by (simp_all add: haircut_in_range_def word_le_unat)
  then show ?thesis
    using unat_bound [of "cc_haircut_floor_bps (cp_cfg c)"]
    by (auto simp: haircut_in_range_def observe_liquidity_result_def Let_def word_le_unat max_def min_def
        unat_saturating_add unat_saturating_sub)
qed

lemma cap_step_in_range:
  assumes "haircut_in_range c"
  shows "haircut_in_range (fst (cap_step op (c, held)))"
proof (cases op)
  case (Acquire po pr n)
  have "cp_cfg (snd (try_acquire po pr n c)) = cp_cfg c \<and>
      lv_haircut_bps (cp_live (snd (try_acquire po pr n c))) = lv_haircut_bps (cp_live c)"
    by (cases "checked_add (unwrap_or (lv_by_protocol (cp_live c) po) 0) n") (simp_all add: try_acquire_def Let_def)
  then show ?thesis
    using assms Acquire by (auto simp: cap_step_def haircut_in_range_def split: prod.split result.split)
next
  case (DropGuard i)
  then show ?thesis
    using assms
    by (auto simp: cap_step_def haircut_in_range_def guard_drop_def cap_release_def Let_def split: option.split)
next
  case (RecordFill p)
  then show ?thesis using assms by (simp add: cap_step_def haircut_in_range_def record_fill_def Let_def)
next
  case (ObserveLiquidity b)
  then show ?thesis using observe_in_range [OF assms] by (simp add: cap_step_def)
qed

text \<open>
  With a floor not above the ceiling and a ceiling of at most the whole, the tuned haircut stays between
  the two through every history, and the haircut handed to the index is that value.
\<close>

theorem tuned_haircut_in_range:
  assumes "cc_haircut_floor_bps cfg \<le> cc_haircut_ceil_bps cfg" and "cc_haircut_ceil_bps cfg \<le> 10000"
  shows "cc_haircut_floor_bps cfg \<le> haircut_bps (caps_haircut (fst (cap_run cfg ops))) \<and>
         haircut_bps (caps_haircut (fst (cap_run cfg ops))) \<le> cc_haircut_ceil_bps cfg"
proof -
  have "haircut_in_range (fst (cap_run cfg ops)) \<and> cp_cfg (fst (cap_run cfg ops)) = cfg"
  proof (induction ops rule: rev_induct)
    case Nil
    then show ?case using assms by (simp add: cap_run_def caps_new_def haircut_in_range_def)
  next
    case (snoc op ops)
    obtain c held where run: "cap_run cfg ops = (c, held)" by (cases "cap_run cfg ops")
    have "cp_cfg (fst (cap_run cfg (ops @ [op]))) = cfg"
      using cap_run_inv [of cfg "ops @ [op]"] by (simp add: case_prod_beta)
    moreover have "cap_run cfg (ops @ [op]) = cap_step op (c, held)" using run by (simp add: cap_run_def)
    ultimately show ?case using snoc run cap_step_in_range by auto
  qed
  then have "cc_haircut_floor_bps cfg \<le> lv_haircut_bps (cp_live (fst (cap_run cfg ops)))"
    "lv_haircut_bps (cp_live (fst (cap_run cfg ops))) \<le> cc_haircut_ceil_bps cfg"
    by (auto simp: haircut_in_range_def)
  moreover from this have "\<not> 10000 < lv_haircut_bps (cp_live (fst (cap_run cfg ops)))"
    using assms(2) by (simp add: not_less)
  ultimately show ?thesis by (simp add: caps_haircut_def haircut_of_def haircut_from_bps_def)
qed

theorem tuned_haircut_in_range_witness:
  "haircut_bps (caps_haircut (fst (cap_run default_cap_config [ObserveLiquidity True]))) \<le> 9900"
  using tuned_haircut_in_range [of default_cap_config "[ObserveLiquidity True]"]
  by (simp add: default_cap_config_def word_le_unat)

end
