(* ===== verification/Treasury.thy ===== *)
theory Treasury
  imports Model_Types
begin

text \<open>
  Sweep and disposal decisions, \<^verbatim>\<open>crates/liq-risk/src/treasury.rs\<close>. A \<^verbatim>\<open>SystemTime\<close> is the number of
  nanoseconds since the epoch and a \<^verbatim>\<open>Duration\<close> a number of nanoseconds; \<^verbatim>\<open>duration_since\<close> fails
  when the clock went backwards. The lemmas say when a flag is raised.
\<close>

definition TRANSFER_GAS_IN_PLAN :: u64 where
  "TRANSFER_GAS_IN_PLAN = 30000"

definition TRANSFER_GAS_STANDALONE :: u64 where
  "TRANSFER_GAS_STANDALONE = 50000"

record treasury_config =
  tc_gas_floor :: "address \<Rightarrow> u256 option"
  tc_sweep_k :: u64
  tc_sweep_destination :: address
  tc_max_age :: nat
  tc_disposal_k :: u64
  tc_disposal_max_age :: nat
  tc_disposal_venue_floor_wei :: u256

definition from_secs :: "nat \<Rightarrow> nat" where
  "from_secs s = s * 1000000000"

definition default_treasury_config :: treasury_config where
  "default_treasury_config =
     \<lparr>tc_gas_floor = (\<lambda>_. None), tc_sweep_k = 20, tc_sweep_destination = 0,
      tc_max_age = from_secs (7 * 24 * 3600), tc_disposal_k = 20,
      tc_disposal_max_age = from_secs (14 * 24 * 3600), tc_disposal_venue_floor_wei = 0\<rparr>"

record treasury =
  tr_cfg :: treasury_config
  tr_last_sweep :: "nat option"
  tr_last_disposal :: "nat option"

definition treasury_new :: "treasury_config \<Rightarrow> treasury" where
  "treasury_new cfg = \<lparr>tr_cfg = cfg, tr_last_sweep = None, tr_last_disposal = None\<rparr>"

definition gas_floor :: "treasury \<Rightarrow> address \<Rightarrow> u256 option" where
  "gas_floor t key = tc_gas_floor (tr_cfg t) key"

definition duration_since :: "nat \<Rightarrow> nat \<Rightarrow> nat option" where
  "duration_since now t = (if t \<le> now then Some (now - t) else None)"

definition sweep_flag :: "treasury \<Rightarrow> u256 \<Rightarrow> u64 \<Rightarrow> bool \<Rightarrow> nat \<Rightarrow> bool" where
  "sweep_flag t balance_wei base_fee_wei in_plan now =
     (if tc_sweep_destination (tr_cfg t) = 0 then False
      else
        let gas = (if in_plan then TRANSFER_GAS_IN_PLAN else TRANSFER_GAS_STANDALONE) in
        case Option.bind (checked_mul (ucast gas :: u256) (ucast base_fee_wei))
               (\<lambda>c. checked_mul c (ucast (tc_sweep_k (tr_cfg t)))) of
          None \<Rightarrow> False
        | Some cost \<Rightarrow>
            if cost < balance_wei then True
            else (case tr_last_sweep t of
                Some at \<Rightarrow>
                  (case duration_since now at of
                     Some d \<Rightarrow> tc_max_age (tr_cfg t) \<le> d \<and> 0 < balance_wei
                   | None \<Rightarrow> False)
              | None \<Rightarrow> False))"

definition mark_swept :: "nat \<Rightarrow> treasury \<Rightarrow> treasury" where
  "mark_swept at t = t\<lparr>tr_last_sweep := Some at\<rparr>"

definition disposal_flag :: "treasury \<Rightarrow> u256 \<Rightarrow> u256 \<Rightarrow> u256 \<Rightarrow> nat \<Rightarrow> bool" where
  "disposal_flag t accumulated_eth_wei withdrawal_fee_wei transfer_gas_cost_wei now =
     (case checked_add withdrawal_fee_wei transfer_gas_cost_wei of
        None \<Rightarrow> False
      | Some unit \<Rightarrow>
          (case checked_mul unit (ucast (tc_disposal_k (tr_cfg t))) of
             None \<Rightarrow> False
           | Some thresh \<Rightarrow>
               if thresh < accumulated_eth_wei then True
               else (case tr_last_disposal t of
                   Some at \<Rightarrow>
                     (case duration_since now at of
                        Some d \<Rightarrow> tc_disposal_max_age (tr_cfg t) \<le> d \<and> 0 < accumulated_eth_wei
                      | None \<Rightarrow> False)
                 | None \<Rightarrow> False)))"

definition mark_disposed :: "nat \<Rightarrow> treasury \<Rightarrow> treasury" where
  "mark_disposed at t = t\<lparr>tr_last_disposal := Some at\<rparr>"

section \<open>When the flags are raised\<close>

text \<open>The sweep cost never overflows 256 bits, so the overflow branch is dead.\<close>

lemma sweep_cost:
  "Option.bind (checked_mul (ucast gas :: u256) (ucast (base_fee :: u64)))
     (\<lambda>c. checked_mul c (ucast (k :: u64))) =
   Some (ucast (gas :: u64) * ucast base_fee * ucast k)" (is ?A)
  "unat (ucast gas * ucast base_fee * ucast k :: u256) = unat gas * unat base_fee * unat k" (is ?B)
proof -
  have wide: "unat (ucast (w :: u64) :: u256) = unat w" for w by (rule unat_ucast_wide) simp
  have bound: "unat w \<le> 2 ^ 64 - 1" for w :: u64 using unat_bound [of w] by simp
  have gb: "unat gas * unat base_fee \<le> (2 ^ 64 - 1) * (2 ^ 64 - 1)" by (intro mult_le_mono bound)
  then have gbk: "unat gas * unat base_fee * unat k \<le> (2 ^ 64 - 1) * (2 ^ 64 - 1) * (2 ^ 64 - 1)"
    by (intro mult_le_mono bound)
  have m: "unat (ucast gas * ucast base_fee :: u256) = unat gas * unat base_fee"
    using gb by (subst unat_mul_exact) (simp_all add: wide)
  show ?B using gbk by (subst unat_mul_exact) (simp_all add: m wide)
  show ?A using gb gbk by (simp add: checked_mul_def wide m)
qed

lemma sweep_flag_iff:
  "sweep_flag t balance base_fee in_plan now \<longleftrightarrow>
     tc_sweep_destination (tr_cfg t) \<noteq> 0 \<and>
     (unat (if in_plan then TRANSFER_GAS_IN_PLAN else TRANSFER_GAS_STANDALONE) * unat base_fee *
        unat (tc_sweep_k (tr_cfg t)) < unat balance \<or>
      (\<exists>at. tr_last_sweep t = Some at \<and> at \<le> now \<and> tc_max_age (tr_cfg t) \<le> now - at \<and> 0 < balance))"
  by (auto simp: sweep_flag_def Let_def sweep_cost word_less_unat duration_since_def split: option.split)

lemma mark_swept_rests:
  "tc_sweep_destination (tr_cfg t) \<noteq> 0 \<Longrightarrow> 0 < tc_max_age (tr_cfg t) \<Longrightarrow>
   sweep_flag (mark_swept now t) balance base_fee in_plan now \<longleftrightarrow>
     unat (if in_plan then TRANSFER_GAS_IN_PLAN else TRANSFER_GAS_STANDALONE) * unat base_fee *
       unat (tc_sweep_k (tr_cfg t)) < unat balance"
  by (simp add: sweep_flag_iff) (simp add: mark_swept_def)

end
