(* ===== verification/Nonce.thy ===== *)
theory Nonce
  imports Model_Types
begin

text \<open>
  The nonce allocator of \<^verbatim>\<open>crates/liq-exec/src/nonce.rs\<close>: one counter and one ordered map of in-flight
  nonces per signing key. Each key's mutex makes every operation atomic, so a history is a sequence of
  operations. The loop of \<^verbatim>\<open>allocate_run\<close> is a \<open>function\<close> with its termination proof.
\<close>

section \<open>State\<close>

text \<open>The variants of \<^verbatim>\<open>ExecError\<close> that \<^verbatim>\<open>nonce.rs\<close> returns.\<close>

datatype nonce_error = BadSlot nat | NonceOverflow | NonceNotInFlight u64

datatype nonce_mode = Allocate | DryRun

record in_flight =
  if_dropped :: bool

record key_state =
  ks_next :: u64
  ks_in_flight :: "u64 \<Rightarrow> in_flight option"

record key_slot =
  sl_address :: address
  sl_state :: key_state

record nonce_allocator =
  na_keys :: "key_slot list"

record allocated_nonce =
  an_slot :: nat
  an_nonce :: u64
  an_address :: address

record gap_fill =
  gf_slot :: nat
  gf_nonce :: u64
  gf_from :: address
  gf_to :: address
  gf_value :: u256

section \<open>Operations\<close>

definition from_addresses :: "address list \<Rightarrow> (nonce_allocator, nonce_error) result" where
  "from_addresses addrs =
     (if addrs = [] then Err (BadSlot 0)
      else Ok \<lparr>na_keys = map (\<lambda>a. \<lparr>sl_address = a, sl_state = \<lparr>ks_next = 0, ks_in_flight = (\<lambda>_. None)\<rparr>\<rparr>) addrs\<rparr>)"

definition na_len :: "nonce_allocator \<Rightarrow> nat" where
  "na_len a = length (na_keys a)"

definition na_is_empty :: "nonce_allocator \<Rightarrow> bool" where
  "na_is_empty a = (na_keys a = [])"

definition na_slot :: "nonce_allocator \<Rightarrow> nat \<Rightarrow> (key_slot, nonce_error) result" where
  "na_slot a slot = ok_or (get (na_keys a) slot) (BadSlot slot)"

definition na_address :: "nonce_allocator \<Rightarrow> nat \<Rightarrow> (address, nonce_error) result" where
  "na_address a slot = map_ok sl_address (na_slot a slot)"

text \<open>\<open>na_set\<close> writes back the state of a locked key.\<close>

definition na_set :: "nonce_allocator \<Rightarrow> nat \<Rightarrow> key_state \<Rightarrow> nonce_allocator" where
  "na_set a slot st = a\<lparr>na_keys := (na_keys a)[slot := (na_keys a ! slot)\<lparr>sl_state := st\<rparr>]\<rparr>"

definition na_allocate :: "nat \<Rightarrow> nonce_allocator \<Rightarrow> (allocated_nonce, nonce_error) result \<times> nonce_allocator" where
  "na_allocate slot a =
     try_opt (get (na_keys a) slot) (BadSlot slot) a (\<lambda>key.
       let g = sl_state key; nonce = ks_next g in
       try_opt (checked_add (ks_next g) 1) NonceOverflow a (\<lambda>n.
         (Ok \<lparr>an_slot = slot, an_nonce = nonce, an_address = sl_address key\<rparr>,
          na_set a slot \<lparr>ks_next = n, ks_in_flight = (ks_in_flight g)(nonce \<mapsto> \<lparr>if_dropped = False\<rparr>)\<rparr>)))"

definition dry_run :: "nonce_allocator \<Rightarrow> nat \<Rightarrow> (allocated_nonce, nonce_error) result" where
  "dry_run a slot =
     map_ok (\<lambda>key. \<lparr>an_slot = slot, an_nonce = ks_next (sl_state key), an_address = sl_address key\<rparr>) (na_slot a slot)"

definition mark_dropped :: "nat \<Rightarrow> u64 \<Rightarrow> nonce_allocator \<Rightarrow> (gap_fill, nonce_error) result \<times> nonce_allocator" where
  "mark_dropped slot nonce a =
     try_opt (get (na_keys a) slot) (BadSlot slot) a (\<lambda>key.
       let g = sl_state key in
       try_opt (ks_in_flight g nonce) (NonceNotInFlight nonce) a (\<lambda>inf.
         (Ok \<lparr>gf_slot = slot, gf_nonce = nonce, gf_from = sl_address key, gf_to = sl_address key, gf_value = 0\<rparr>,
          na_set a slot (g\<lparr>ks_in_flight := (ks_in_flight g)(nonce \<mapsto> inf\<lparr>if_dropped := True\<rparr>)\<rparr>))))"

definition mark_filled :: "nat \<Rightarrow> u64 \<Rightarrow> nonce_allocator \<Rightarrow> (unit, nonce_error) result \<times> nonce_allocator" where
  "mark_filled slot nonce a =
     try_opt (get (na_keys a) slot) (BadSlot slot) a (\<lambda>key.
       let g = sl_state key in
       try_opt (ks_in_flight g nonce) (NonceNotInFlight nonce) a (\<lambda>inf.
         (Ok (), na_set a slot (g\<lparr>ks_in_flight := (ks_in_flight g)(nonce \<mapsto> inf\<lparr>if_dropped := False\<rparr>)\<rparr>))))"

definition set_next :: "nat \<Rightarrow> u64 \<Rightarrow> nonce_allocator \<Rightarrow> (unit, nonce_error) result \<times> nonce_allocator" where
  "set_next slot chain_next a =
     try_opt (get (na_keys a) slot) (BadSlot slot) a (\<lambda>key.
       (Ok (), na_set a slot \<lparr>ks_next = chain_next, ks_in_flight = (\<lambda>_. None)\<rparr>))"

function run_loop :: "u64 \<Rightarrow> u64 \<Rightarrow> (u64 \<Rightarrow> in_flight option) \<Rightarrow> (unit, nonce_error) result \<times> (u64 \<Rightarrow> in_flight option)" where
  "run_loop k stop m =
     (if k < stop then
        let m = m(k \<mapsto> \<lparr>if_dropped = False\<rparr>) in
        (case checked_add k 1 of
           None \<Rightarrow> (Err NonceOverflow, m)
         | Some k' \<Rightarrow> run_loop k' stop m)
      else (Ok (), m))"
  by pat_completeness auto
termination
  by (relation "measure (\<lambda>(k, stop, m). unat stop - unat k)") (auto simp: checked word_less_unat)

definition allocate_run :: "nat \<Rightarrow> u64 \<Rightarrow> nonce_allocator \<Rightarrow> (u64, nonce_error) result \<times> nonce_allocator" where
  "allocate_run slot n a =
     try_opt (get (na_keys a) slot) (BadSlot slot) a (\<lambda>key.
       let g = sl_state key; first = ks_next g in
       try_opt (checked_add first n) NonceOverflow a (\<lambda>past.
         case run_loop first past (ks_in_flight g) of
           (Err e, m) \<Rightarrow> (Err e, na_set a slot \<lparr>ks_next = past, ks_in_flight = m\<rparr>)
         | (Ok _, m) \<Rightarrow> (Ok first, na_set a slot \<lparr>ks_next = past, ks_in_flight = m\<rparr>)))"

definition next_of :: "nonce_allocator \<Rightarrow> nat \<Rightarrow> (u64, nonce_error) result" where
  "next_of a slot = map_ok (\<lambda>key. ks_next (sl_state key)) (na_slot a slot)"

definition na_in_flight :: "nonce_allocator \<Rightarrow> nat \<Rightarrow> (u64 \<Rightarrow> in_flight option, nonce_error) result" where
  "na_in_flight a slot = map_ok (\<lambda>key. ks_in_flight (sl_state key)) (na_slot a slot)"

section \<open>Histories\<close>

datatype nonce_op =
    NAllocate nat
  | NRun nat u64
  | NDropped nat u64
  | NFilled nat u64
  | NResync nat u64

text \<open>The second component collects, per slot, the nonces handed out since the last resync, in order.\<close>

definition nonce_step ::
  "nonce_op \<Rightarrow> nonce_allocator \<times> (nat \<Rightarrow> u64 list) \<Rightarrow> nonce_allocator \<times> (nat \<Rightarrow> u64 list)" where
  "nonce_step op st =
     (case st of (a, issued) \<Rightarrow>
       case op of
         NAllocate slot \<Rightarrow>
           (case na_allocate slot a of
              (Ok n, a') \<Rightarrow> (a', issued(slot := issued slot @ [an_nonce n]))
            | (Err e, a') \<Rightarrow> (a', issued))
       | NRun slot n \<Rightarrow>
           (case allocate_run slot n a of
              (Ok first, a') \<Rightarrow>
                (a', issued(slot := issued slot @ map of_nat [unat first..<unat first + unat n]))
            | (Err e, a') \<Rightarrow> (a', issued))
       | NDropped slot n \<Rightarrow> (snd (mark_dropped slot n a), issued)
       | NFilled slot n \<Rightarrow> (snd (mark_filled slot n a), issued)
       | NResync slot n \<Rightarrow>
           (case set_next slot n a of
              (Ok _, a') \<Rightarrow> (a', issued(slot := []))
            | (Err e, a') \<Rightarrow> (a', issued)))"

definition slot_inv :: "address \<Rightarrow> key_slot \<Rightarrow> u64 list \<Rightarrow> bool" where
  "slot_inv addr key issued \<longleftrightarrow>
     sl_address key = addr \<and>
     (\<exists>s \<le> unat (ks_next (sl_state key)). map unat issued = [s..<unat (ks_next (sl_state key))]) \<and>
     dom (ks_in_flight (sl_state key)) = set issued"

definition na_inv :: "address list \<Rightarrow> nonce_allocator \<times> (nat \<Rightarrow> u64 list) \<Rightarrow> bool" where
  "na_inv addrs st \<longleftrightarrow>
     length (na_keys (fst st)) = length addrs \<and>
     (\<forall>i < length addrs. slot_inv (addrs ! i) (na_keys (fst st) ! i) (snd st i))"

lemma na_inv_set:
  assumes "na_inv addrs (a, issued)" and "slot < length addrs"
    and "slot_inv (addrs ! slot) ((na_keys a ! slot)\<lparr>sl_state := st\<rparr>) xs"
  shows "na_inv addrs (na_set a slot st, issued(slot := xs))"
  using assms by (auto simp: na_inv_def na_set_def nth_list_update)

declare run_loop.simps [simp del]

lemma run_loop_fills:
  "unat k \<le> unat stop \<Longrightarrow>
   run_loop k stop m = (Ok (), (\<lambda>x. if k \<le> x \<and> x < stop then Some \<lparr>if_dropped = False\<rparr> else m x))"
proof (induction k stop m rule: run_loop.induct)
  case (1 k stop m)
  show ?case
  proof (cases "k < stop")
    case True
    then have "unat k + 1 < 2 ^ 64" using unat_bound [of stop] by (simp add: word_less_unat)
    then have k: "checked_add k 1 = Some (k + 1)" "unat (k + 1) = unat k + 1"
      by (simp_all add: checked_add_def unat_add_exact)
    have "run_loop k stop m = run_loop (k + 1) stop (m(k \<mapsto> \<lparr>if_dropped = False\<rparr>))"
      using True k by (subst run_loop.simps) simp
    also have "\<dots> = (Ok (), (\<lambda>x. if k + 1 \<le> x \<and> x < stop then Some \<lparr>if_dropped = False\<rparr>
        else (m(k \<mapsto> \<lparr>if_dropped = False\<rparr>)) x))"
      by (rule 1(1) [OF True refl k(1)]) (use True k(2) in \<open>simp add: word_less_unat\<close>)
    also have "\<dots> = (Ok (), (\<lambda>x. if k \<le> x \<and> x < stop then Some \<lparr>if_dropped = False\<rparr> else m x))"
      using True k(2) by (auto simp: fun_eq_iff word_le_unat word_less_unat word_unat_eq_iff)
    finally show ?thesis .
  next
    case False
    then show ?thesis by (subst run_loop.simps) (auto simp: fun_eq_iff)
  qed
qed

lemma allocate_run_Ok:
  assumes "slot < length (na_keys a)" and "unat (ks_next (sl_state (na_keys a ! slot))) + unat n < 2 ^ 64"
  shows "allocate_run slot n a =
    (Ok (ks_next (sl_state (na_keys a ! slot))),
     na_set a slot \<lparr>ks_next = ks_next (sl_state (na_keys a ! slot)) + n,
       ks_in_flight = (\<lambda>x. if ks_next (sl_state (na_keys a ! slot)) \<le> x \<and> x < ks_next (sl_state (na_keys a ! slot)) + n
         then Some \<lparr>if_dropped = False\<rparr> else ks_in_flight (sl_state (na_keys a ! slot)) x)\<rparr>)"
  using assms
  by (simp add: allocate_run_def get_def Let_def checked_add_def run_loop_fills unat_add_exact)

lemma slot_inv_extend:
  assumes "slot_inv addr key xs" and "unat (ks_next (sl_state key)) + k < 2 ^ 64"
    and "unat n = unat (ks_next (sl_state key)) + k"
    and "dom m = dom (ks_in_flight (sl_state key)) \<union> {x. unat (ks_next (sl_state key)) \<le> unat x \<and> unat x < unat n}"
  shows "slot_inv addr (key\<lparr>sl_state := \<lparr>ks_next = n, ks_in_flight = m\<rparr>\<rparr>)
           (xs @ map of_nat [unat (ks_next (sl_state key))..<unat n])"
proof -
  let ?f = "unat (ks_next (sl_state key))"
  obtain s where s: "s \<le> ?f" "map unat xs = [s..<?f]" using assms(1) by (auto simp: slot_inv_def)
  have cast: "unat (of_nat i :: u64) = i" if "i < unat n" for i
    using that unat_bound [of n] by (intro unat_of_nat_small) simp
  have "map unat (map of_nat [?f..<unat n] :: u64 list) = [?f..<unat n]"
    using cast by (auto simp: comp_def intro: map_idI)
  then have "map unat (xs @ map of_nat [?f..<unat n]) = [s..<unat n]"
    using s assms(3) upt_add_eq_append [of s ?f k] by simp
  moreover have "set (map of_nat [?f..<unat n] :: u64 list) = {x. ?f \<le> unat x \<and> unat x < unat n}"
    using cast by (force simp: image_iff intro: word_eq_unatI)
  ultimately show ?thesis
    using assms s by (auto simp: slot_inv_def intro!: exI [of _ s])
qed

lemma slot_inv_mark:
  "slot_inv addr key xs \<Longrightarrow> ks_in_flight (sl_state key) n = Some r \<Longrightarrow>
   slot_inv addr (key\<lparr>sl_state := (sl_state key)\<lparr>ks_in_flight := (ks_in_flight (sl_state key))(n \<mapsto> q)\<rparr>\<rparr>) xs"
  by (auto simp: slot_inv_def)

lemma slot_inv_fresh: "slot_inv addr key xs \<Longrightarrow> slot_inv addr (key\<lparr>sl_state := \<lparr>ks_next = n, ks_in_flight = (\<lambda>_. None)\<rparr>\<rparr>) []"
  by (auto simp: slot_inv_def)

lemma nonce_step_allocate:
  assumes "na_inv addrs (a, issued)"
  shows "na_inv addrs (nonce_step (NAllocate slot) (a, issued))"
proof -
  define key where "key = na_keys a ! slot"
  define f where "f = ks_next (sl_state key)"
  consider "length (na_keys a) \<le> slot" | "slot < length (na_keys a)" "checked_add f 1 = None"
    | n where "slot < length (na_keys a)" "checked_add f 1 = Some n" by (meson not_le option.exhaust)
  then show ?thesis
  proof cases
    case 3
    then have slot: "slot < length addrs" and inv: "slot_inv (addrs ! slot) key (issued slot)"
      using assms by (auto simp: na_inv_def key_def)
    have n: "unat n = unat f + 1" using 3(2) by (simp add: checked)
    have "slot_inv (addrs ! slot) (key\<lparr>sl_state := \<lparr>ks_next = n, ks_in_flight = (ks_in_flight (sl_state key))(f \<mapsto> \<lparr>if_dropped = False\<rparr>)\<rparr>\<rparr>)
        (issued slot @ map of_nat [unat (ks_next (sl_state key))..<unat n])"
      using n unat_bound [of n]
      by (intro slot_inv_extend [OF inv, of 1]) (auto simp: word_unat_eq_iff simp flip: f_def)
    then have "slot_inv (addrs ! slot) (key\<lparr>sl_state := \<lparr>ks_next = n, ks_in_flight = (ks_in_flight (sl_state key))(f \<mapsto> \<lparr>if_dropped = False\<rparr>)\<rparr>\<rparr>)
        (issued slot @ [f])"
      using n by (simp flip: f_def)
    then show ?thesis
      using na_inv_set [OF assms slot] 3 by (simp add: nonce_step_def na_allocate_def get_def Let_def key_def f_def)
  qed (use assms in \<open>simp_all add: nonce_step_def na_allocate_def get_def Let_def key_def f_def\<close>)
qed

lemma nonce_step_run:
  assumes "na_inv addrs (a, issued)"
  shows "na_inv addrs (nonce_step (NRun slot k) (a, issued))"
proof -
  define key where "key = na_keys a ! slot"
  define f where "f = ks_next (sl_state key)"
  consider "length (na_keys a) \<le> slot" | "slot < length (na_keys a)" "2 ^ 64 \<le> unat f + unat k"
    | "slot < length (na_keys a)" "unat f + unat k < 2 ^ 64" by linarith
  then show ?thesis
  proof cases
    case 3
    then have slot: "slot < length addrs" and inv: "slot_inv (addrs ! slot) key (issued slot)"
      using assms by (auto simp: na_inv_def key_def)
    have n: "unat (f + k) = unat f + unat k" using 3(2) by (simp add: unat_add_exact)
    have "slot_inv (addrs ! slot) (key\<lparr>sl_state := \<lparr>ks_next = f + k, ks_in_flight =
          (\<lambda>x. if f \<le> x \<and> x < f + k then Some \<lparr>if_dropped = False\<rparr> else ks_in_flight (sl_state key) x)\<rparr>\<rparr>)
        (issued slot @ map of_nat [unat (ks_next (sl_state key))..<unat (f + k)])"
      using n 3(2)
      by (intro slot_inv_extend [OF inv, of "unat k"]) (auto simp: word_le_unat word_less_unat dom_def simp flip: f_def)
    then show ?thesis
      using na_inv_set [OF assms slot] allocate_run_Ok [of slot a k, folded key_def, folded f_def] 3 n
      by (simp add: nonce_step_def flip: key_def f_def)
  qed (use assms in \<open>simp_all add: nonce_step_def allocate_run_def get_def Let_def checked_add_def key_def f_def\<close>)
qed

lemma nonce_step_inv:
  assumes "na_inv addrs (a, issued)"
  shows "na_inv addrs (nonce_step op (a, issued))"
proof -
  have slot: "slot_inv (addrs ! i) (na_keys a ! i) (issued i)" if "i < length (na_keys a)" for i
    using assms that by (simp add: na_inv_def)
  have len: "length (na_keys a) = length addrs" using assms by (simp add: na_inv_def)
  note set = na_inv_set [OF assms, unfolded len [symmetric]]
  have keep: "na_inv addrs (na_set a i st, issued)"
    if "i < length (na_keys a)" "slot_inv (addrs ! i) ((na_keys a ! i)\<lparr>sl_state := st\<rparr>) (issued i)" for i st
    using set [OF that] by simp
  show ?thesis
  proof (cases op)
    case (NAllocate i)
    then show ?thesis using nonce_step_allocate [OF assms] by simp
  next
    case (NRun i n)
    then show ?thesis using nonce_step_run [OF assms] by simp
  next
    case (NDropped i n)
    then show ?thesis
      using assms keep slot_inv_mark [OF slot]
      by (cases "ks_in_flight (sl_state (na_keys a ! i)) n")
        (auto simp: nonce_step_def mark_dropped_def get_def Let_def)
  next
    case (NFilled i n)
    then show ?thesis
      using assms keep slot_inv_mark [OF slot]
      by (cases "ks_in_flight (sl_state (na_keys a ! i)) n")
        (auto simp: nonce_step_def mark_filled_def get_def Let_def)
  next
    case (NResync i n)
    then show ?thesis
      using assms set slot_inv_fresh [OF slot] by (auto simp: nonce_step_def set_next_def get_def)
  qed
qed

text \<open>
  C20. Between two resyncs a key's nonces are handed out once each and without gaps, whatever the
  interleaving of allocations, runs, drops, fills and resyncs on all keys: the ones handed out are
  consecutive up to the next nonce, exactly they are in flight, and no key's address ever changes.
\<close>

theorem nonces_issued_once:
  assumes "from_addresses addrs = Ok a"
  shows "case fold nonce_step ops (a, \<lambda>_. []) of (a', issued) \<Rightarrow>
           \<forall>slot < length addrs. \<exists>key.
             na_slot a' slot = Ok key \<and> sl_address key = addrs ! slot \<and>
             distinct (issued slot) \<and>
             (\<exists>s. map unat (issued slot) = [s..<unat (ks_next (sl_state key))]) \<and>
             dom (ks_in_flight (sl_state key)) = set (issued slot)"
proof -
  have "na_inv addrs (a, \<lambda>_. [])"
    using assms by (auto simp: from_addresses_def na_inv_def slot_inv_def split: if_splits)
  then have inv: "na_inv addrs (fold nonce_step ops (a, \<lambda>_. []))"
  proof (induction ops rule: rev_induct)
    case (snoc op ops)
    obtain a' issued where run: "fold nonce_step ops (a, \<lambda>_. []) = (a', issued)" by fastforce
    show ?case using snoc nonce_step_inv [of addrs a' issued] by (simp add: run)
  qed simp
  have "distinct xs" if "map unat xs = [s..<t]" for xs :: "u64 list" and s t
    using that by (metis distinct_map distinct_upt)
  then show ?thesis
    using inv by (fastforce simp: na_inv_def slot_inv_def na_slot_def get_def)
qed

theorem nonces_issued_once_witness:
  "\<exists>a. from_addresses [11] = Ok a \<and>
       (case fold nonce_step [NAllocate 0, NRun 0 2, NDropped 0 1] (a, \<lambda>_. []) of (a', issued) \<Rightarrow>
          \<exists>key. na_slot a' 0 = Ok key \<and> distinct (issued 0) \<and> dom (ks_in_flight (sl_state key)) = set (issued 0))"
proof -
  obtain a where a: "from_addresses [11] = Ok a" by (simp add: from_addresses_def)
  show ?thesis
    using nonces_issued_once [OF a, of "[NAllocate 0, NRun 0 2, NDropped 0 1]"] a by (auto split: prod.splits)
qed

end
