(* ===== verification/Pools.thy ===== *)
theory Pools
  imports Viability
begin

text \<open>
  The Uniswap V2 and Curve StableSwap pools of \<^verbatim>\<open>crates/liq-router/src/solver.rs\<close>: the quotes that must
  match the contracts to the last unit, the displaced state they leave, and the reads that refresh a Curve
  pool. The Newton loops run at most 255 times as in the code and fail with \<open>Math\<close> when they have not
  settled. The lemmas show that a V2 swap is the contract's formula and no batch of legs takes value out of
  the pool, that quotes and swaps agree, that the Curve solver returns the root of the invariant, that a swap
  pays less than the balance, what the dynamic fee can be, and when a read revives a stale pool.
\<close>

section \<open>Uniswap V2\<close>

record v2_state =
  v2_reserve0 :: u256
  v2_reserve1 :: u256
  v2_factory :: u8

definition zero_for_one :: "u8 \<Rightarrow> u8 \<Rightarrow> (bool, route_error) result" where
  "zero_for_one i j = (if i = 0 \<and> j = 1 then Ok True else if i = 1 \<and> j = 0 then Ok False else Err BadLeg)"

definition v2_swap :: "v2_state \<Rightarrow> bool \<Rightarrow> u256 \<Rightarrow> (u256 \<times> v2_state, route_error) result" where
  "v2_swap s zfo amount_in =
     (let (rin, rout) = (if zfo then (v2_reserve0 s, v2_reserve1 s) else (v2_reserve1 s, v2_reserve0 s)) in
      if rin = 0 \<or> rout = 0 then Err InsufficientLiquidity
      else
        and_then (ok_or (checked_mul amount_in 997) Math) (\<lambda>in_fee.
        and_then (ok_or (checked_mul in_fee rout) Math) (\<lambda>num.
        and_then (ok_or (Option.bind (checked_mul rin 1000) (\<lambda>v. checked_add v in_fee)) Math) (\<lambda>den.
        and_then (ok_or (checked_div num den) Math) (\<lambda>out.
        if rout \<le> out then Err InsufficientLiquidity
        else
          and_then (ok_or (checked_add rin amount_in) Math) (\<lambda>new_in.
          and_then (ok_or (checked_sub rout out) Math) (\<lambda>new_out.
          Ok (out, if zfo then s\<lparr>v2_reserve0 := new_in, v2_reserve1 := new_out\<rparr>
                   else s\<lparr>v2_reserve0 := new_out, v2_reserve1 := new_in\<rparr>))))))))"

text \<open>The V2 branches of \<^verbatim>\<open>PoolState::quote\<close> and \<^verbatim>\<open>PoolState::apply\<close>: nothing moves for a zero input, and a
  refused swap leaves the state as it was.\<close>

definition v2_quote :: "v2_state \<Rightarrow> u8 \<Rightarrow> u8 \<Rightarrow> u256 \<Rightarrow> (u256, route_error) result" where
  "v2_quote s i j amount_in =
     (if amount_in = 0 then Ok 0
      else and_then (zero_for_one i j) (\<lambda>zfo. map_ok fst (v2_swap s zfo amount_in)))"

definition v2_apply :: "v2_state \<Rightarrow> u8 \<Rightarrow> u8 \<Rightarrow> u256 \<Rightarrow> (u256, route_error) result \<times> v2_state" where
  "v2_apply s i j amount_in =
     (if amount_in = 0 then (Ok 0, s)
      else (case and_then (zero_for_one i j) (\<lambda>zfo. v2_swap s zfo amount_in) of
              Err e \<Rightarrow> (Err e, s)
            | Ok (out, s') \<Rightarrow> (Ok out, s')))"

text \<open>Legs applied one after the other, each on the state the one before it left.\<close>

primrec v2_legs :: "(u8 \<times> u8 \<times> u256) list \<Rightarrow> v2_state \<Rightarrow> v2_state" where
  "v2_legs [] s = s"
| "v2_legs (l # ls) s = (case l of (i, j, a) \<Rightarrow> v2_legs ls (snd (v2_apply s i j a)))"

section \<open>Curve StableSwap\<close>

definition CURVE_FEE_DENOM :: u256 where
  "CURVE_FEE_DENOM = 10000000000"

definition CURVE_WAD :: u256 where
  "CURVE_WAD = 1000000000000000000"

definition MAX_COINS :: nat where
  "MAX_COINS = 4"

record curve_state =
  cs_balances :: "u256 list"
  cs_rates :: "u256 list"
  cs_a :: u256
  cs_a_precision :: u256
  cs_fee :: u256
  cs_stale :: bool
  cs_stale_block :: u64
  cs_ng :: bool
  cs_d_once :: bool
  cs_offpeg_fee_multiplier :: u256
  cs_dynamic_rates :: bool
  cs_read_block :: u64
  cs_handler :: u8

subsection \<open>Reads\<close>

definition reseed :: "curve_state \<Rightarrow> u256 list \<Rightarrow> u256 \<Rightarrow> u256 \<Rightarrow> (unit, route_error) result \<times> curve_state" where
  "reseed s balances a fee =
     (if length balances \<noteq> length (cs_rates s) then (Err BadLeg, s)
      else (Ok (), s\<lparr>cs_balances := balances, cs_a := a, cs_fee := fee, cs_stale := False\<rparr>))"

definition reseed_at ::
  "curve_state \<Rightarrow> u256 list \<Rightarrow> u256 \<Rightarrow> u256 \<Rightarrow> u64 \<Rightarrow> (bool, route_error) result \<times> curve_state" where
  "reseed_at s balances a fee block =
     (if cs_stale s \<and> block < cs_stale_block s then (Ok False, s)
      else (case reseed s balances a fee of
              (Err e, s') \<Rightarrow> (Err e, s')
            | (Ok _, s') \<Rightarrow> (Ok True, s'\<lparr>cs_read_block := block\<rparr>)))"

definition set_ng_params :: "curve_state \<Rightarrow> u256 list \<Rightarrow> u256 \<Rightarrow> (unit, route_error) result \<times> curve_state" where
  "set_ng_params s rates offpeg =
     (if \<not> cs_ng s \<or> length rates \<noteq> length (cs_rates s) \<or> list_ex (\<lambda>r. r = 0) rates then (Err BadLeg, s)
      else (Ok (), s\<lparr>cs_rates := rates, cs_offpeg_fee_multiplier := offpeg\<rparr>))"

text \<open>\<^verbatim>\<open>PoolBook::reseed_curve\<close> on the pool it has found: the read of one block, with the rates of an NG pool.\<close>

definition reseed_curve ::
  "curve_state \<Rightarrow> u256 list \<Rightarrow> u256 \<Rightarrow> u256 \<Rightarrow> u256 \<Rightarrow> (u256 list \<times> u256) option \<Rightarrow> u64 \<Rightarrow>
   (bool, route_error) result \<times> curve_state" where
  "reseed_curve c balances a a_precision fee ng block =
     (if cs_ng c \<noteq> (ng \<noteq> None) then (Err BadLeg, c)
      else if cs_stale c \<and> block < cs_stale_block c then (Ok False, c)
      else
        (case (case ng of None \<Rightarrow> (Ok (), c) | Some (rates, offpeg) \<Rightarrow> set_ng_params c rates offpeg) of
           (Err e, c1) \<Rightarrow> (Err e, c1)
         | (Ok _, c1) \<Rightarrow>
             (case reseed_at (c1\<lparr>cs_a_precision := a_precision\<rparr>) balances a fee block of
                (Ok True, c2) \<Rightarrow> (Ok True, c2)
              | (other, c2) \<Rightarrow> (other, c2\<lparr>cs_a_precision := cs_a_precision c1\<rparr>))))"

text \<open>The Curve branch of \<^verbatim>\<open>PoolBook::mark_stale\<close>, also what a log with a stale topic does in
  \<^verbatim>\<open>apply_log\<close>.\<close>

definition curve_mark_stale :: "curve_state \<Rightarrow> u64 \<Rightarrow> curve_state" where
  "curve_mark_stale s block = s\<lparr>cs_stale := True, cs_stale_block := max (cs_stale_block s) block\<rparr>"

subsection \<open>Fee\<close>

definition ng_dynamic_fee :: "u256 \<Rightarrow> u256 \<Rightarrow> u256 \<Rightarrow> u256 \<Rightarrow> (u256, route_error) result" where
  "ng_dynamic_fee xpi xpj fee m =
     (if m \<le> CURVE_FEE_DENOM then Ok fee
      else
        and_then (ok_or (checked_add xpi xpj) Math) (\<lambda>sum_x.
        and_then (ok_or (checked_mul sum_x sum_x) Math) (\<lambda>xps2.
        if xps2 = 0 then Err InsufficientLiquidity
        else
          and_then (ok_or (Option.bind (Option.bind (Option.bind (checked_sub m CURVE_FEE_DENOM)
              (\<lambda>v. checked_mul v 4)) (\<lambda>v. checked_mul v xpi)) (\<lambda>v. checked_mul v xpj)) Math) (\<lambda>p.
          and_then (ok_or (checked_div p xps2) Math) (\<lambda>skew.
          and_then (ok_or (checked_add skew CURVE_FEE_DENOM) Math) (\<lambda>den.
          ok_or (Option.bind (checked_mul m fee) (\<lambda>v. checked_div v den)) Math))))))"

definition swap_fee :: "curve_state \<Rightarrow> u256 \<Rightarrow> u256 \<Rightarrow> (u256, route_error) result" where
  "swap_fee s xpi xpj =
     (if \<not> cs_ng s then Ok (cs_fee s) else ng_dynamic_fee xpi xpj (cs_fee s) (cs_offpeg_fee_multiplier s))"

subsection \<open>Invariant\<close>

definition n_coins :: "curve_state \<Rightarrow> (u256, route_error) result" where
  "n_coins s =
     (let n = length (cs_balances s) in
      if \<not> (2 \<le> n \<and> n \<le> MAX_COINS) \<or> length (cs_rates s) \<noteq> n then Err BadLeg else Ok (of_nat n))"

text \<open>\<^verbatim>\<open>collect\<close> into a \<^verbatim>\<open>Result\<close> stops at the first error; \<^verbatim>\<open>zip\<close> at the shorter side.\<close>

fun curve_xp_loop :: "u256 list \<Rightarrow> u256 list \<Rightarrow> (u256 list, route_error) result" where
  "curve_xp_loop (b # bs) (r # rs) =
     and_then (ok_or (Option.bind (checked_mul b r) (\<lambda>v. checked_div v CURVE_WAD)) Math) (\<lambda>x.
     map_ok (\<lambda>xs. x # xs) (curve_xp_loop bs rs))"
| "curve_xp_loop _ _ = Ok []"

definition curve_xp :: "curve_state \<Rightarrow> (u256 list, route_error) result" where
  "curve_xp s = curve_xp_loop (cs_balances s) (cs_rates s)"

definition curve_ann :: "curve_state \<Rightarrow> u256 \<Rightarrow> (u256, route_error) result" where
  "curve_ann s n = ok_or (checked_mul (cs_a s) n) Math"

primrec checked_sum :: "u256 list \<Rightarrow> u256 \<Rightarrow> (u256, route_error) result" where
  "checked_sum [] acc = Ok acc"
| "checked_sum (x # xs) acc = and_then (ok_or (checked_add acc x) Math) (checked_sum xs)"

definition checked_pow :: "u256 \<Rightarrow> u256 \<Rightarrow> u256 option" where
  "checked_pow b e = (if unat b ^ unat e < 2 ^ 256 then Some (b ^ unat e) else None)"

definition uint_abs_diff :: "u256 \<Rightarrow> u256 \<Rightarrow> u256" where
  "uint_abs_diff a b = (if b \<le> a then a - b else b - a)"

primrec d_product :: "bool \<Rightarrow> u256 \<Rightarrow> u256 \<Rightarrow> u256 list \<Rightarrow> u256 \<Rightarrow> (u256, route_error) result" where
  "d_product once n d [] d_p = Ok d_p"
| "d_product once n d (x # xs) d_p =
     and_then (if once then Ok x else ok_or (checked_mul x n) Math) (\<lambda>den.
     if den = 0 then Err InsufficientLiquidity
     else and_then (ok_or (Option.bind (checked_mul d_p d) (\<lambda>v. checked_div v den)) Math)
            (d_product once n d xs))"

definition d_step ::
  "curve_state \<Rightarrow> u256 list \<Rightarrow> u256 \<Rightarrow> u256 \<Rightarrow> u256 \<Rightarrow> u256 \<Rightarrow> u256 \<Rightarrow> u256 \<Rightarrow> (u256, route_error) result" where
  "d_step s xp n n_plus_1 n_pow_n ann sum_x d =
     (let ap = cs_a_precision s in
      and_then (d_product (cs_d_once s) n d xp d) (\<lambda>p.
      and_then (if cs_d_once s then ok_or (checked_div p n_pow_n) Math else Ok p) (\<lambda>d_p.
      and_then (ok_or (Option.bind (Option.bind (Option.bind (checked_mul ann sum_x)
          (\<lambda>v. checked_div v ap)) (\<lambda>v. Option.bind (checked_mul d_p n) (checked_add v)))
          (\<lambda>v. checked_mul v d)) Math) (\<lambda>t1.
      and_then (ok_or (Option.bind (Option.bind (Option.bind (checked_sub ann ap)
          (\<lambda>v. checked_mul v d)) (\<lambda>v. checked_div v ap))
          (\<lambda>v. Option.bind (checked_mul n_plus_1 d_p) (checked_add v))) Math) (\<lambda>t2.
      ok_or (checked_div t1 t2) Math)))))"

primrec newton :: "nat \<Rightarrow> (u256 \<Rightarrow> (u256, route_error) result) \<Rightarrow> u256 \<Rightarrow> (u256, route_error) result" where
  "newton 0 step v = Err Math"
| "newton (Suc k) step v =
     and_then (step v) (\<lambda>v'. if uint_abs_diff v' v \<le> 1 then Ok v' else newton k step v')"

definition curve_get_d :: "curve_state \<Rightarrow> u256 list \<Rightarrow> (u256, route_error) result" where
  "curve_get_d s xp =
     and_then (n_coins s) (\<lambda>n.
     and_then (checked_sum xp 0) (\<lambda>sum_x.
     if sum_x = 0 then Ok 0
     else
       and_then (curve_ann s n) (\<lambda>ann.
       and_then (ok_or (checked_add n 1) Math) (\<lambda>n_plus_1.
       and_then (ok_or (checked_pow n n) Math) (\<lambda>n_pow_n.
       newton 255 (d_step s xp n n_plus_1 n_pow_n ann sum_x) sum_x)))))"

subsection \<open>One balance from the others\<close>

text \<open>The loop both solvers share, over the balances it visits: the product ratio \<open>c\<close> and the sum.\<close>

primrec y_product :: "u256 \<Rightarrow> u256 \<Rightarrow> u256 list \<Rightarrow> u256 \<Rightarrow> u256 \<Rightarrow> (u256 \<times> u256, route_error) result" where
  "y_product n d [] c sx = Ok (c, sx)"
| "y_product n d (x # xs) c sx =
     and_then (ok_or (checked_add sx x) Math) (\<lambda>s'.
     and_then (ok_or (checked_mul x n) Math) (\<lambda>den.
     if den = 0 then Err InsufficientLiquidity
     else and_then (ok_or (Option.bind (checked_mul c d) (\<lambda>v. checked_div v den)) Math) (\<lambda>c'.
          y_product n d xs c' s')))"

definition y_terms :: "curve_state \<Rightarrow> u256 \<Rightarrow> u256 \<Rightarrow> u256 list \<Rightarrow> (u256 \<times> u256, route_error) result" where
  "y_terms s n d visited =
     (let ap = cs_a_precision s in
      and_then (curve_ann s n) (\<lambda>ann.
      and_then (y_product n d visited d 0) (\<lambda>(c0, sx).
      and_then (ok_or (checked_mul ann n) Math) (\<lambda>ann_n.
      and_then (ok_or (Option.bind (Option.bind (checked_mul c0 d) (\<lambda>v. checked_mul v ap))
          (\<lambda>v. checked_div v ann_n)) Math) (\<lambda>c.
      and_then (ok_or (Option.bind (Option.bind (checked_mul d ap) (\<lambda>v. checked_div v ann))
          (\<lambda>v. checked_add v sx)) Math) (\<lambda>b.
      Ok (b, c)))))))"

definition y_step :: "u256 \<Rightarrow> u256 \<Rightarrow> u256 \<Rightarrow> u256 \<Rightarrow> (u256, route_error) result" where
  "y_step b c d y =
     and_then (ok_or (Option.bind (checked_mul y y) (\<lambda>v. checked_add v c)) Math) (\<lambda>num.
     and_then (ok_or (Option.bind (Option.bind (checked_mul y 2) (\<lambda>v. checked_add v b)) (\<lambda>v. checked_sub v d)) Math) (\<lambda>den.
     ok_or (checked_div num den) Math))"

definition get_y_visited :: "nat \<Rightarrow> nat \<Rightarrow> u256 \<Rightarrow> u256 list \<Rightarrow> u256 list" where
  "get_y_visited i j x xp =
     map (\<lambda>(k, xk). if k = i then x else xk) (filter (\<lambda>(k, xk). k = i \<or> k \<noteq> j) (enumerate 0 xp))"

definition curve_get_y :: "curve_state \<Rightarrow> nat \<Rightarrow> nat \<Rightarrow> u256 \<Rightarrow> u256 list \<Rightarrow> (u256, route_error) result" where
  "curve_get_y s i j x xp =
     and_then (n_coins s) (\<lambda>n.
     and_then (curve_get_d s xp) (\<lambda>d.
     and_then (y_terms s n d (get_y_visited i j x xp)) (\<lambda>(b, c).
     newton 255 (y_step b c d) d)))"

definition get_y_d_visited :: "nat \<Rightarrow> u256 list \<Rightarrow> u256 list" where
  "get_y_d_visited i xp = map snd (filter (\<lambda>(k, xk). k \<noteq> i) (enumerate 0 xp))"

definition curve_get_y_d :: "curve_state \<Rightarrow> nat \<Rightarrow> u256 list \<Rightarrow> u256 \<Rightarrow> (u256, route_error) result" where
  "curve_get_y_d s i xp d =
     and_then (n_coins s) (\<lambda>n.
     and_then (y_terms s n d (get_y_d_visited i xp)) (\<lambda>(b, c).
     newton 255 (y_step b c d) d))"

subsection \<open>Swaps and withdrawals\<close>

text \<open>One iteration of the fee loop of the withdrawal: coin \<open>j\<close>'s balance less the fee on what a
  proportional withdrawal would not have moved.\<close>

definition withdraw_fee ::
  "curve_state \<Rightarrow> nat \<Rightarrow> u256 \<Rightarrow> u256 \<Rightarrow> u256 \<Rightarrow> u256 \<Rightarrow> u256 \<Rightarrow> nat \<Rightarrow> u256 \<Rightarrow> (u256, route_error) result" where
  "withdraw_fee s i d0 d1 new_y base_fee ys j xp_j =
     and_then (ok_or (Option.bind (checked_mul xp_j d1) (\<lambda>v. checked_div v d0)) Math) (\<lambda>scaled.
     and_then
       (if j = i then
          and_then (ok_or (checked_sub scaled new_y) Math) (\<lambda>dx.
          and_then (ok_or (Option.bind (checked_add xp_j new_y) (\<lambda>v. checked_div v 2)) Math) (\<lambda>xavg.
          Ok (dx, xavg)))
        else and_then (ok_or (checked_sub xp_j scaled) Math) (\<lambda>dx. Ok (dx, xp_j))) (\<lambda>(dx_expected, xavg).
     and_then (ng_dynamic_fee xavg ys base_fee (cs_offpeg_fee_multiplier s)) (\<lambda>fee.
     and_then (ok_or (Option.bind (checked_mul fee dx_expected) (\<lambda>v. checked_div v CURVE_FEE_DENOM)) Math) (\<lambda>cut.
     ok_or (checked_sub xp_j cut) Math))))"

primrec try_map_enum :: "(nat \<Rightarrow> u256 \<Rightarrow> (u256, route_error) result) \<Rightarrow> nat \<Rightarrow> u256 list \<Rightarrow> (u256 list, route_error) result" where
  "try_map_enum f j [] = Ok []"
| "try_map_enum f j (x # xs) = and_then (f j x) (\<lambda>y. map_ok (\<lambda>ys. y # ys) (try_map_enum f (Suc j) xs))"

definition ng_withdraw_one_coin :: "curve_state \<Rightarrow> u8 \<Rightarrow> u256 \<Rightarrow> u256 \<Rightarrow> (u256, route_error) result" where
  "ng_withdraw_one_coin s i8 burn total_supply =
     (if cs_stale s then Err StalePool
      else if \<not> cs_ng s then Err BadLeg
      else
        and_then (n_coins s) (\<lambda>n.
        let i = unat i8 in
        if length (cs_balances s) \<le> i then Err BadLeg
        else if burn = 0 \<or> total_supply = 0 then Err InsufficientLiquidity
        else
          and_then (curve_xp s) (\<lambda>xp.
          and_then (curve_get_d s xp) (\<lambda>d0.
          if d0 = 0 then Err InsufficientLiquidity
          else
            and_then (ok_or (Option.bind (Option.bind (checked_mul burn d0) (\<lambda>v. checked_div v total_supply))
                (checked_sub d0)) Math) (\<lambda>d1.
            and_then (curve_get_y_d s i xp d1) (\<lambda>new_y.
            and_then (ok_or (Option.bind (checked_mul (cs_fee s) n) (\<lambda>v.
                Option.bind (checked_sub n 1) (\<lambda>m. Option.bind (checked_mul 4 m) (checked_div v)))) Math) (\<lambda>base_fee.
            and_then (ok_or (Option.bind (checked_add d0 d1) (\<lambda>v. Option.bind (checked_mul 2 n) (checked_div v))) Math) (\<lambda>ys.
            and_then (try_map_enum (withdraw_fee s i d0 d1 new_y base_fee ys) 0 xp) (\<lambda>xp_reduced.
            and_then (curve_get_y_d s i xp_reduced d1) (\<lambda>y.
            and_then (ok_or (get xp_reduced i) BadLeg) (\<lambda>red.
            and_then (ok_or (Option.bind (checked_sub red y) (\<lambda>v. checked_sub v 1)) InsufficientLiquidity) (\<lambda>dy.
            and_then (ok_or (get (cs_rates s) i) BadLeg) (\<lambda>rate.
            ok_or (Option.bind (checked_mul dy CURVE_WAD) (\<lambda>v. checked_div v rate)) Math)))))))))))))"

definition half :: "u256 \<Rightarrow> u256 \<Rightarrow> (u256, route_error) result" where
  "half a b = ok_or (Option.bind (checked_add a b) (\<lambda>v. checked_div v 2)) Math"

definition to_raw :: "u256 \<Rightarrow> u256 \<Rightarrow> (u256, route_error) result" where
  "to_raw rj v = ok_or (Option.bind (checked_mul v CURVE_WAD) (\<lambda>v. checked_div v rj)) Math"

definition curve_dy :: "curve_state \<Rightarrow> nat \<Rightarrow> nat \<Rightarrow> u256 \<Rightarrow> (u256 \<times> u256 \<times> u256, route_error) result" where
  "curve_dy s i j dx =
     (if cs_stale s then Err StalePool
      else
        and_then (curve_xp s) (\<lambda>xp.
        and_then (ok_or (get xp i) BadLeg) (\<lambda>xi.
        and_then (ok_or (get xp j) BadLeg) (\<lambda>xj.
        and_then (ok_or (get (cs_rates s) i) BadLeg) (\<lambda>ri.
        and_then (ok_or (get (cs_rates s) j) BadLeg) (\<lambda>rj.
        and_then (ok_or (Option.bind (Option.bind (checked_mul dx ri) (\<lambda>v. checked_div v CURVE_WAD))
            (\<lambda>v. checked_add v xi)) Math) (\<lambda>x.
        and_then (curve_get_y s i j x xp) (\<lambda>y.
        and_then (ok_or (Option.bind (checked_sub xj y) (\<lambda>v. checked_sub v 1)) InsufficientLiquidity) (\<lambda>dy_xp.
        and_then (half xi x) (\<lambda>hi.
        and_then (half xj y) (\<lambda>hj.
        and_then (swap_fee s hi hj) (\<lambda>fee.
        and_then (ok_or (Option.bind (checked_mul dy_xp fee) (\<lambda>v. checked_div v CURVE_FEE_DENOM)) Math) (\<lambda>fee_xp.
        and_then (ok_or (checked_sub dy_xp fee_xp) Math) (\<lambda>kept.
        and_then (to_raw rj kept) (\<lambda>out.
        and_then (to_raw rj dy_xp) (\<lambda>dy_raw.
        Ok (out, dy_raw, y)))))))))))))))))"

definition curve_exchange :: "curve_state \<Rightarrow> u8 \<Rightarrow> u8 \<Rightarrow> u256 \<Rightarrow> (u256 \<times> u256 \<times> u256, route_error) result" where
  "curve_exchange s i8 j8 dx =
     (let i = unat i8; j = unat j8 in
      if i = j then Err BadLeg
      else
        and_then (curve_dy s i j dx) (\<lambda>(out, dy, y).
        and_then (ok_or (get (cs_balances s) i) BadLeg) (\<lambda>b_i.
        and_then (ok_or (checked_add b_i dx) Math) (\<lambda>bi.
        and_then (ok_or (get (cs_balances s) j) BadLeg) (\<lambda>b_j.
        and_then (ok_or (checked_sub b_j dy) InsufficientLiquidity) (\<lambda>bj.
        Ok (out, bi, bj)))))))"

text \<open>The Curve branches of \<^verbatim>\<open>PoolState::quote\<close> and \<^verbatim>\<open>PoolState::apply\<close>.\<close>

definition curve_quote :: "curve_state \<Rightarrow> u8 \<Rightarrow> u8 \<Rightarrow> u256 \<Rightarrow> (u256, route_error) result" where
  "curve_quote s i j amount_in =
     (if amount_in = 0 then Ok 0 else map_ok fst (curve_exchange s i j amount_in))"

definition curve_apply :: "curve_state \<Rightarrow> u8 \<Rightarrow> u8 \<Rightarrow> u256 \<Rightarrow> (u256, route_error) result \<times> curve_state" where
  "curve_apply s i j amount_in =
     (if amount_in = 0 then (Ok 0, s)
      else case curve_exchange s i j amount_in of
        Err e \<Rightarrow> (Err e, s)
      | Ok (out, bi, bj) \<Rightarrow>
          (case get (cs_balances s) (unat i) of
             None \<Rightarrow> (Err BadLeg, s)
           | Some _ \<Rightarrow>
               let s1 = s\<lparr>cs_balances := (cs_balances s)[unat i := bi]\<rparr> in
               (case get (cs_balances s1) (unat j) of
                  None \<Rightarrow> (Err BadLeg, s1)
                | Some _ \<Rightarrow> (Ok out, s1\<lparr>cs_balances := (cs_balances s1)[unat j := bj]\<rparr>))))"

section \<open>V2 swaps\<close>

definition v2_in :: "v2_state \<Rightarrow> bool \<Rightarrow> u256" where
  "v2_in s zfo = (if zfo then v2_reserve0 s else v2_reserve1 s)"

definition v2_out :: "v2_state \<Rightarrow> bool \<Rightarrow> u256" where
  "v2_out s zfo = (if zfo then v2_reserve1 s else v2_reserve0 s)"

definition v2_moved :: "v2_state \<Rightarrow> bool \<Rightarrow> u256 \<Rightarrow> u256 \<Rightarrow> v2_state" where
  "v2_moved s zfo a out =
     (if zfo then s\<lparr>v2_reserve0 := v2_reserve0 s + a, v2_reserve1 := v2_reserve1 s - out\<rparr>
      else s\<lparr>v2_reserve0 := v2_reserve0 s - out, v2_reserve1 := v2_reserve1 s + a\<rparr>)"

definition v2_product :: "v2_state \<Rightarrow> nat" where
  "v2_product s = unat (v2_reserve0 s) * unat (v2_reserve1 s)"

lemma amount_out_below:
  fixes a r R :: nat
  assumes "0 < r" and "0 < R"
  shows "997 * a * R div (1000 * r + 997 * a) < R"
proof -
  have "997 * a * R < R * (1000 * r + 997 * a)" using assms by (simp add: algebra_simps)
  then show ?thesis using assms by (simp add: less_mult_imp_div_less)
qed

lemma amount_out_product:
  fixes a r R :: nat
  assumes "0 < r" and "0 < R"
  shows "r * R \<le> (r + a) * (R - 997 * a * R div (1000 * r + 997 * a))"
proof -
  define q where "q = 997 * a * R div (1000 * r + 997 * a)"
  have q: "q \<le> R" using amount_out_below [OF assms, of a] by (simp add: q_def)
  have "q * (1000 * r + 997 * a) \<le> 997 * a * R" by (simp add: q_def)
  moreover have "a * q \<le> a * R" using q by simp
  ultimately have "(r + a) * q \<le> a * R" by (simp add: algebra_simps)
  moreover have "(r + a) * (R - q) = (r + a) * R - (r + a) * q" by (simp add: diff_mult_distrib2)
  ultimately show ?thesis unfolding q_def [symmetric] by (simp add: algebra_simps)
qed

lemma v2_swap_body:
  assumes "v2_in s zfo \<noteq> 0" and "v2_out s zfo \<noteq> 0"
  shows "v2_swap s zfo a =
      and_then (ok_or (checked_mul a 997) Math) (\<lambda>in_fee.
      and_then (ok_or (checked_mul in_fee (v2_out s zfo)) Math) (\<lambda>num.
      and_then (ok_or (Option.bind (checked_mul (v2_in s zfo) 1000) (\<lambda>v. checked_add v in_fee)) Math) (\<lambda>den.
      and_then (ok_or (checked_div num den) Math) (\<lambda>out.
      if v2_out s zfo \<le> out then Err InsufficientLiquidity
      else and_then (ok_or (checked_add (v2_in s zfo) a) Math) (\<lambda>new_in.
           and_then (ok_or (checked_sub (v2_out s zfo) out) Math) (\<lambda>new_out.
           Ok (out, if zfo then s\<lparr>v2_reserve0 := new_in, v2_reserve1 := new_out\<rparr>
                    else s\<lparr>v2_reserve0 := new_out, v2_reserve1 := new_in\<rparr>)))))))"
  using assms by (cases zfo) (simp_all add: v2_swap_def v2_in_def v2_out_def cong: if_cong)

lemma v2_swap_fits:
  assumes "v2_in s zfo \<noteq> 0" and "v2_out s zfo \<noteq> 0"
    and "num = 997 * unat a * unat (v2_out s zfo)" and "num < 2 ^ 256"
    and "den = 1000 * unat (v2_in s zfo) + 997 * unat a" and "den < 2 ^ 256"
  shows "v2_swap s zfo a = Ok (of_nat (num div den), v2_moved s zfo a (of_nat (num div den)))"
proof -
  define r R A q where "r = unat (v2_in s zfo)" and "R = unat (v2_out s zfo)" and "A = unat a" and "q = num div den"
  have pos: "0 < r" "0 < R" using assms(1,2) by (auto simp: r_def R_def unat_gt_0)
  have num: "num = 997 * A * R" and den: "den = 1000 * r + 997 * A" by (simp_all add: assms r_def R_def A_def)
  have q: "q < R" using amount_out_below [OF pos, of A] by (simp add: q_def num den)
  have "997 * A \<le> num" "A + r \<le> den" using pos by (simp_all add: num den)
  moreover have "R < 2 ^ 256" using unat_bound [of "v2_out s zfo"] by (simp add: R_def)
  ultimately have bnd: "q < 2 ^ 256" "997 * A < 2 ^ 256" "A + r < 2 ^ 256" "1000 * r < 2 ^ 256"
    using q assms(4,6) den by linarith+
  define F G where "F = 997 * A" and "G = 1000 * r"
  have "checked_mul a 997 = Some (of_nat F)" using bnd(2) by (simp add: checked_mul_Some A_def [symmetric] F_def [symmetric]) (simp add: F_def)
  moreover have "checked_mul (of_nat F) (v2_out s zfo) = Some (of_nat num)"
    using assms(4) bnd(2) by (simp add: checked_mul_Some R_def [symmetric] F_def [symmetric]) (simp add: num F_def)
  moreover have "checked_mul (v2_in s zfo) 1000 = Some (of_nat G)"
    using bnd(4) by (simp add: checked_mul_Some r_def [symmetric] G_def [symmetric]) (simp add: G_def)
  moreover have "checked_add (of_nat G) (of_nat F :: u256) = Some (of_nat den)"
    using assms(6) bnd(2,4) by (simp add: checked_add_Some F_def [symmetric] G_def [symmetric]) (simp add: den F_def G_def)
  moreover have "checked_div (of_nat num) (of_nat den :: u256) = Some (of_nat q)"
    using assms(4,6) bnd pos by (simp add: checked_div_Some word_unat_eq_iff q_def) (simp add: den)
  moreover have "\<not> v2_out s zfo \<le> of_nat q" using bnd q by (simp add: word_le_unat R_def [symmetric])
  moreover have "checked_add (v2_in s zfo) a = Some (v2_in s zfo + a)"
  proof -
    have "unat (v2_in s zfo) + unat a < 2 ^ LENGTH(256)" using bnd(3) by (simp add: A_def r_def)
    then show ?thesis unfolding checked_add_def by (rule if_P)
  qed
  moreover have "checked_sub (v2_out s zfo) (of_nat q) = Some (v2_out s zfo - of_nat q)"
    using bnd q by (simp add: checked_sub_def word_le_unat R_def [symmetric])
  ultimately have "v2_swap s zfo a = Ok (of_nat q, v2_moved s zfo a (of_nat q))"
    unfolding v2_swap_body [OF assms(1,2)] by (simp add: v2_moved_def) (simp add: v2_in_def v2_out_def)
  then show ?thesis unfolding q_def .
qed

lemma v2_swap_over:
  assumes "v2_in s zfo \<noteq> 0" and "v2_out s zfo \<noteq> 0"
    and "2 ^ 256 \<le> 997 * unat a * unat (v2_out s zfo) \<or> 2 ^ 256 \<le> 1000 * unat (v2_in s zfo) + 997 * unat a"
  shows "v2_swap s zfo a = Err Math"
proof (cases "checked_mul a 997")
  case None
  then show ?thesis by (simp add: v2_swap_body [OF assms(1,2)])
next
  case f: (Some in_fee)
  then have uf: "unat in_fee = 997 * unat a" by (simp add: checked_mul_Some mult.commute)
  show ?thesis
  proof (cases "checked_mul in_fee (v2_out s zfo)")
    case None
    then show ?thesis by (simp add: v2_swap_body [OF assms(1,2)] f)
  next
    case n: (Some num)
    then have "unat num = 997 * unat a * unat (v2_out s zfo)" by (simp add: checked_mul_Some uf)
    then have "2 ^ 256 \<le> 1000 * unat (v2_in s zfo) + 997 * unat a" using assms(3) unat_bound [of num] by simp
    then have "checked_add v in_fee = None" if "checked_mul (v2_in s zfo) 1000 = Some v" for v
      using that by (simp add: checked_mul_Some checked_add_None uf mult.commute)
    then have "Option.bind (checked_mul (v2_in s zfo) 1000) (\<lambda>v. checked_add v in_fee) = None"
      by (cases "checked_mul (v2_in s zfo) 1000") simp_all
    then show ?thesis by (simp add: v2_swap_body [OF assms(1,2)] f n)
  qed
qed

text \<open>
  C23. A V2 swap is the contract's \<^verbatim>\<open>getAmountOut\<close>: on a pool with both reserves it succeeds exactly when the
  numerator and the denominator fit in 256 bits, pays \<open>997 a R div (1000 r + 997 a)\<close>, and moves the
  reserves by exactly what came in and went out. The branch that refuses an output as large as the reserve
  is never taken.
\<close>

theorem v2_swap_exact:
  "v2_swap s zfo a =
     (let num = 997 * unat a * unat (v2_out s zfo); den = 1000 * unat (v2_in s zfo) + 997 * unat a in
      if v2_in s zfo = 0 \<or> v2_out s zfo = 0 then Err InsufficientLiquidity
      else if num < 2 ^ 256 \<and> den < 2 ^ 256 then Ok (of_nat (num div den), v2_moved s zfo a (of_nat (num div den)))
      else Err Math)"
proof -
  consider "v2_in s zfo = 0 \<or> v2_out s zfo = 0"
    | "v2_in s zfo \<noteq> 0" "v2_out s zfo \<noteq> 0" "997 * unat a * unat (v2_out s zfo) < 2 ^ 256"
      "1000 * unat (v2_in s zfo) + 997 * unat a < 2 ^ 256"
    | "v2_in s zfo \<noteq> 0" "v2_out s zfo \<noteq> 0" "2 ^ 256 \<le> 997 * unat a * unat (v2_out s zfo) \<or>
      2 ^ 256 \<le> 1000 * unat (v2_in s zfo) + 997 * unat a" by linarith
  then show ?thesis
  proof cases
    case 1
    then show ?thesis by (auto simp: v2_swap_def v2_in_def v2_out_def)
  next
    case 2
    show ?thesis unfolding Let_def v2_swap_fits [OF 2(1,2) refl 2(3) refl 2(4)] using 2 by simp
  next
    case 3
    show ?thesis unfolding Let_def v2_swap_over [OF 3] using 3 by auto
  qed
qed

lemma v2_swap_step:
  assumes "v2_swap s zfo a = Ok (out, s')"
  shows "v2_product s \<le> v2_product s' \<and> 0 < v2_product s"
proof -
  have ne: "v2_in s zfo \<noteq> 0" "v2_out s zfo \<noteq> 0"
    using assms by (auto simp: v2_swap_def v2_in_def v2_out_def split: if_splits)
  define r R where "r = unat (v2_in s zfo)" and "R = unat (v2_out s zfo)"
  define num den where "num = 997 * unat a * R" and "den = 1000 * r + 997 * unat a"
  have "num < 2 ^ 256 \<and> den < 2 ^ 256"
  proof (rule ccontr)
    assume "\<not> (num < 2 ^ 256 \<and> den < 2 ^ 256)"
    then have "v2_swap s zfo a = Err Math"
      by (intro v2_swap_over [OF ne]) (unfold num_def den_def r_def R_def, linarith)
    then show False using assms by simp
  qed
  then have fits: "num < 2 ^ 256" "den < 2 ^ 256" by simp_all
  have s': "s' = v2_moved s zfo a (of_nat (num div den))"
    using assms v2_swap_fits [OF ne, of num a den] fits by (simp add: num_def den_def r_def R_def)
  have pos: "0 < r" "0 < R" using ne by (auto simp: r_def R_def unat_gt_0)
  define q where "q = num div den"
  have q: "q < R" using amount_out_below [OF pos, of "unat a"] by (simp add: q_def num_def den_def)
  moreover have "R < 2 ^ 256" using unat_bound [of "v2_out s zfo"] by (simp add: R_def)
  ultimately have uq: "unat (of_nat q :: u256) = q" by simp
  have "unat (v2_in s zfo + a) = r + unat a"
    using fits pos by (subst unat_add_exact) (simp_all add: r_def den_def)
  moreover have "unat (v2_out s zfo - of_nat q) = R - q"
    using q by (subst unat_sub_exact) (simp_all add: word_le_unat uq R_def)
  ultimately have "v2_product s' = (r + unat a) * (R - q)"
    by (cases zfo) (simp_all add: s' v2_product_def v2_moved_def v2_in_def v2_out_def flip: q_def)
  moreover have "v2_product s = r * R" by (cases zfo) (simp_all add: v2_product_def v2_in_def v2_out_def r_def R_def)
  ultimately show ?thesis using amount_out_product [OF pos, of "unat a"] pos by (simp add: q_def num_def den_def)
qed

lemma v2_apply_cases:
  "snd (v2_apply s i j a) = s \<or> (\<exists>zfo out. v2_swap s zfo a = Ok (out, snd (v2_apply s i j a)))"
  by (auto simp: v2_apply_def rust split: result.splits)

lemma v2_legs_product: "v2_legs ls s = s \<or> (v2_product s \<le> v2_product (v2_legs ls s) \<and> 0 < v2_product s)"
proof (induction ls arbitrary: s)
  case (Cons l ls)
  obtain i j a where l: "l = (i, j, a)" by (cases l)
  define t where "t = snd (v2_apply s i j a)"
  have "t = s \<or> (v2_product s \<le> v2_product t \<and> 0 < v2_product s)"
    using v2_apply_cases [of s i j a] v2_swap_step unfolding t_def by metis
  then show ?case using Cons [of t] by (auto simp: l t_def)
qed simp

text \<open>
  C18. No batch of V2 legs takes value out of a pool: whatever legs are applied, refused ones included, the
  product of the reserves never falls, and never does one reserve shrink while the other does not grow.
\<close>

theorem v2_legs_keep_value:
  "v2_product s \<le> v2_product (v2_legs ls s) \<and>
   \<not> (v2_reserve0 (v2_legs ls s) < v2_reserve0 s \<and> v2_reserve1 (v2_legs ls s) \<le> v2_reserve1 s) \<and>
   \<not> (v2_reserve1 (v2_legs ls s) < v2_reserve1 s \<and> v2_reserve0 (v2_legs ls s) \<le> v2_reserve0 s)"
proof -
  have drop: "a' * b' < a * b" if "a' < a" "b' \<le> b" "0 < a * b" for a a' b b' :: nat
  proof -
    have "a' * b' \<le> a' * b" using that by simp
    also have "a' * b < a * b" using that by simp
    finally show ?thesis .
  qed
  show ?thesis
  proof (cases "v2_legs ls s = s")
    case False
    then have "v2_product s \<le> v2_product (v2_legs ls s)" "0 < v2_product s" using v2_legs_product [of ls s] by simp_all
    then show ?thesis
      using drop [of "unat (v2_reserve0 (v2_legs ls s))" "unat (v2_reserve0 s)" "unat (v2_reserve1 (v2_legs ls s))" "unat (v2_reserve1 s)"]
        drop [of "unat (v2_reserve1 (v2_legs ls s))" "unat (v2_reserve1 s)" "unat (v2_reserve0 (v2_legs ls s))" "unat (v2_reserve0 s)"]
      by (auto simp: v2_product_def word_less_unat word_le_unat mult.commute)
  qed simp
qed

section \<open>Curve solvers and swaps\<close>

text \<open>\<open>invariant_excess b c d y\<close> is the quadratic both solvers find the root of; it is positive above the
  root and at most zero up to it.\<close>

definition invariant_excess :: "u256 \<Rightarrow> u256 \<Rightarrow> u256 \<Rightarrow> int \<Rightarrow> int" where
  "invariant_excess b c d y = y * y + (uint b - uint d) * y - uint c"

lemma quadratic_settled:
  fixes y z c k :: int
  assumes "0 < 2 * z + k" and y: "y = (z * z + c) div (2 * z + k)" and "\<bar>y - z\<bar> \<le> 1"
  shows "y * y + k * y - c \<le> 1 \<and> 0 < (y + 1) * (y + 1) + k * (y + 1) - c"
proof -
  define e where "e = z - y"
  have z: "z = y + e" by (simp add: e_def)
  have e: "e = - 1 \<or> e = 0 \<or> e = 1" using assms(3) by (auto simp: e_def)
  have "z * z + c = y * (2 * z + k) + (z * z + c) mod (2 * z + k)" by (simp only: y div_mult_mod_eq)
  moreover have "0 \<le> (z * z + c) mod (2 * z + k)" "(z * z + c) mod (2 * z + k) < 2 * z + k"
    using assms(1) by simp_all
  ultimately have "y * (2 * z + k) \<le> z * z + c" "z * z + c < (y + 1) * (2 * z + k)"
    by (simp_all add: algebra_simps)
  then show ?thesis using e unfolding z by (elim disjE) (simp_all add: algebra_simps)
qed

lemma newton_last: "newton k step v = Ok y \<Longrightarrow> \<exists>z. step z = Ok y \<and> uint_abs_diff y z \<le> 1"
  by (induction k arbitrary: v) (auto simp: rust split: if_splits)

lemma uint_abs_diff_le_one: "uint_abs_diff a b \<le> 1 \<Longrightarrow> \<bar>uint a - uint b\<bar> \<le> 1"
proof -
  assume le: "uint_abs_diff a b \<le> 1"
  have "unat (uint_abs_diff a b) = (if unat b \<le> unat a then unat a - unat b else unat b - unat a)"
    by (simp add: uint_abs_diff_def word_le_unat unat_sub_exact)
  moreover have "unat (uint_abs_diff a b) \<le> 1" using le by (simp add: word_le_unat)
  ultimately have "\<bar>int (unat a) - int (unat b)\<bar> \<le> 1"
    by presburger
  then show ?thesis by simp
qed

lemma y_step_Ok:
  assumes "y_step b c d z = Ok y"
  shows "0 < 2 * uint z + (uint b - uint d)"
    and "uint y = (uint z * uint z + uint c) div (2 * uint z + (uint b - uint d))"
proof -
  obtain den :: u256 where den: "unat d \<le> unat z * 2 + unat b" "unat den = unat z * 2 + unat b - unat d" "den \<noteq> 0"
    and y: "unat y = (unat z * unat z + unat c) div unat den"
    using assms by (auto simp: y_step_def rust checked bind_eq_Some_conv)
  define D where "D = unat den"
  have D: "int D = 2 * uint z + (uint b - uint d)"
    using den(1) unfolding D_def den(2) by (simp add: of_nat_diff)
  have "0 < D" using den(3) by (simp add: D_def unat_gt_0)
  then show "0 < 2 * uint z + (uint b - uint d)" using D by linarith
  have "int (unat y) = (uint z * uint z + uint c) div int D" unfolding y D_def [symmetric] by (simp add: zdiv_int)
  then show "uint y = (uint z * uint z + uint c) div (2 * uint z + (uint b - uint d))" unfolding D by simp
qed

lemma newton_y_settled:
  assumes "newton k (y_step b c d) v = Ok y"
  shows "invariant_excess b c d (uint y) \<le> 1 \<and> 0 < invariant_excess b c d (uint y + 1)"
proof -
  obtain z where z: "y_step b c d z = Ok y" "uint_abs_diff y z \<le> 1" using newton_last [OF assms] by blast
  show ?thesis
    using quadratic_settled [OF y_step_Ok [OF z(1)] uint_abs_diff_le_one [OF z(2)]]
    by (simp add: invariant_excess_def)
qed

text \<open>
  C17. What the swap solver returns is the integer root of the pool's invariant: with the constants \<open>b\<close>, \<open>c\<close>
  of the pool and its invariant \<open>D\<close>, the excess at the returned balance is at most one, and one unit above
  it the excess is positive. The exchange leaves that extra unit in the pool, so a swap never ends below the
  invariant.
\<close>

theorem curve_get_y_settles:
  assumes "curve_get_y s i j x xp = Ok y"
  shows "\<exists>n d b c. n_coins s = Ok n \<and> curve_get_d s xp = Ok d \<and> y_terms s n d (get_y_visited i j x xp) = Ok (b, c) \<and>
           invariant_excess b c d (uint y) \<le> 1 \<and> 0 < invariant_excess b c d (uint y + 1)"
proof -
  obtain n d b c where "n_coins s = Ok n" "curve_get_d s xp = Ok d" "y_terms s n d (get_y_visited i j x xp) = Ok (b, c)"
    and "newton 255 (y_step b c d) d = Ok y"
    using assms by (auto simp: curve_get_y_def and_then_Ok)
  then show ?thesis using newton_y_settled by blast
qed

lemma curve_xp_loop_nth:
  "curve_xp_loop bs rs = Ok xp \<Longrightarrow> k < length xp \<Longrightarrow>
     k < length bs \<and> k < length rs \<and> unat (xp ! k) = unat (bs ! k) * unat (rs ! k) div unat CURVE_WAD"
proof (induction bs rs arbitrary: xp k rule: curve_xp_loop.induct)
  case (1 b bs r rs)
  then obtain x xs where "xp = x # xs" "curve_xp_loop bs rs = Ok xs" "unat x = unat b * unat r div unat CURVE_WAD"
    by (auto simp: rust checked bind_eq_Some_conv)
  then show ?case using 1 by (cases k) (auto simp: rust)
qed auto

lemma raw_below_balance:
  fixes w b r x y v :: nat
  assumes "x = b * r div w" and "y + 1 \<le> x" and "v = (x - y - 1) * w div r" and "r \<noteq> 0"
  shows "v < b"
proof (rule ccontr)
  assume "\<not> v < b"
  then have "b * r \<le> v * r" by simp
  also have "v * r \<le> (x - y - 1) * w" using assms(3) by simp
  also have "(x - y - 1) * w \<le> (x - 1) * w" by (intro mult_right_mono) simp_all
  finally have "b * r \<le> (x - 1) * w" .
  moreover have "x * w \<le> b * r" by (simp add: assms(1))
  moreover have "0 < w" using assms(1,2) by (cases w) auto
  moreover obtain n where "x = Suc n" using assms(2) by (cases x) auto
  ultimately show False by simp
qed

lemma curve_dy_bounds:
  assumes "curve_dy s i j dx = Ok (out, dy, y)"
  shows "\<not> cs_stale s" and "i < length (cs_balances s)" and "j < length (cs_balances s)"
    and "unat out \<le> unat dy" and "unat dy < unat (cs_balances s ! j)"
proof -
  obtain xp rj dy_xp fee_xp kept where xp: "curve_xp s = Ok xp" and i: "i < length xp" and j: "j < length xp"
    and rj: "j < length (cs_rates s)" "rj = cs_rates s ! j"
    and dy_xp: "Option.bind (checked_sub (xp ! j) y) (\<lambda>v. checked_sub v 1) = Some dy_xp"
    and kept: "checked_sub dy_xp fee_xp = Some kept" and out: "to_raw rj kept = Ok out" and dy: "to_raw rj dy_xp = Ok dy"
    and stale: "\<not> cs_stale s"
    using assms by (auto simp: curve_dy_def and_then_Ok ok_or_Ok get_Some split: if_splits)
  have raw: "r \<noteq> 0 \<and> unat w = unat v * unat CURVE_WAD div unat r" if "to_raw r v = Ok w" for r v w
    using that by (auto simp: to_raw_def rust checked bind_eq_Some_conv)
  have x: "unat dy_xp = unat (xp ! j) - unat y - 1" "unat y + 1 \<le> unat (xp ! j)"
    using dy_xp by (auto simp: checked bind_eq_Some_conv)
  have xj: "unat (xp ! j) = unat (cs_balances s ! j) * unat rj div unat CURVE_WAD" "j < length (cs_balances s)"
    using curve_xp_loop_nth [OF xp [unfolded curve_xp_def] j] rj by simp_all
  show "unat dy < unat (cs_balances s ! j)"
    using raw_below_balance [OF xj(1) x(2), of "unat dy"] raw [OF dy] x(1) by (simp add: unat_eq_zero)
  have "unat kept \<le> unat dy_xp" using kept by (simp add: checked)
  then show "unat out \<le> unat dy" using raw [OF out] raw [OF dy] by (simp add: div_le_mono)
  show "\<not> cs_stale s" "j < length (cs_balances s)" by (fact stale xj(2))+
  show "i < length (cs_balances s)" using curve_xp_loop_nth [OF xp [unfolded curve_xp_def] i] by simp
qed

definition sample_curve :: curve_state where
  "sample_curve =
     \<lparr>cs_balances = [1000, 1000], cs_rates = [CURVE_WAD, CURVE_WAD], cs_a = 100, cs_a_precision = 1,
      cs_fee = 4000000, cs_stale = False, cs_stale_block = 0, cs_ng = False, cs_d_once = False,
      cs_offpeg_fee_multiplier = 0, cs_dynamic_rates = False, cs_read_block = 0, cs_handler = 0\<rparr>"

lemma newton_numeral:
  "newton (numeral n) step v =
     and_then (step v) (\<lambda>w. if uint_abs_diff w v \<le> 1 then Ok w else newton (pred_numeral n) step w)"
  by (simp add: numeral_eq_Suc)

lemmas checked_eval = checked_add_def checked_sub_def checked_mul_def checked_div_def word_le_unat

lemma sample_n_coins: "n_coins sample_curve = Ok 2"
  by (simp add: n_coins_def sample_curve_def MAX_COINS_def)

lemma sample_get_d: "curve_get_d sample_curve [1000, 1000] = Ok 2000"
proof -
  have "d_step sample_curve [1000, 1000] 2 3 4 200 2000 2000 = Ok 2000"
    by (simp add: d_step_def sample_curve_def checked_eval)
  moreover have "curve_ann sample_curve 2 = Ok 200" by (simp add: curve_ann_def sample_curve_def checked_eval)
  moreover have "checked_sum [1000, 1000] 0 = Ok 2000" by (simp add: checked_eval)
  moreover have "checked_add (2 :: u256) 1 = Some 3" "checked_pow 2 2 = Some 4" by (simp_all add: checked_eval checked_pow_def)
  ultimately show ?thesis by (simp add: curve_get_d_def sample_n_coins newton_numeral uint_abs_diff_def)
qed

lemma sample_y_terms: "y_terms sample_curve 2 2000 [1100] = Ok (1110, 9090)"
  by (simp add: y_terms_def curve_ann_def sample_curve_def checked_eval)

lemma sample_y_steps:
  "y_step 1110 9090 2000 2000 = Ok 1289" "y_step 1110 9090 2000 1289 = Ok 989" "y_step 1110 9090 2000 989 = Ok 907"
  "y_step 1110 9090 2000 907 = Ok 900" "y_step 1110 9090 2000 900 = Ok 900"
  by (simp_all add: y_step_def checked_eval)

lemma sample_get_y: "curve_get_y sample_curve 0 1 1100 [1000, 1000] = Ok 900"
  by (simp add: curve_get_y_def sample_n_coins sample_get_d get_y_visited_def sample_y_terms newton_numeral
      sample_y_steps uint_abs_diff_def word_le_unat)

theorem curve_get_y_settles_witness:
  "\<exists>b c. y_terms sample_curve 2 2000 [1100] = Ok (b, c) \<and>
     invariant_excess b c 2000 900 \<le> 1 \<and> 0 < invariant_excess b c 2000 901"
  using curve_get_y_settles [OF sample_get_y]
  by (simp add: sample_n_coins sample_get_d get_y_visited_def)

text \<open>
  C22. A Curve swap that is applied moves two balances and nothing else: the input is added without
  wrap-around, and what leaves is at least what is paid out and strictly less than the balance, so no swap
  drains a coin.
\<close>

theorem curve_apply_exact:
  assumes "curve_apply s i j dx = (Ok out, s')" and "dx \<noteq> 0"
  shows "\<exists>b_i b_j dy. i \<noteq> j \<and> \<not> cs_stale s \<and>
           get (cs_balances s) (unat i) = Some b_i \<and> get (cs_balances s) (unat j) = Some b_j \<and>
           s' = s\<lparr>cs_balances := (cs_balances s)[unat i := b_i + dx, unat j := b_j - dy]\<rparr> \<and>
           unat b_i + unat dx < 2 ^ 256 \<and> out \<le> dy \<and> dy < b_j"
proof -
  obtain bi bj where ex: "curve_exchange s i j dx = Ok (out, bi, bj)"
    and s': "s' = s\<lparr>cs_balances := (cs_balances s)[unat i := bi, unat j := bj]\<rparr>"
    using assms by (auto simp: curve_apply_def Let_def split: result.splits option.splits)
  obtain dy y b_i b_j where ij: "unat i \<noteq> unat j" and dy: "curve_dy s (unat i) (unat j) dx = Ok (out, dy, y)"
    and b: "get (cs_balances s) (unat i) = Some b_i" "get (cs_balances s) (unat j) = Some b_j"
    and up: "checked_add b_i dx = Some bi" and down: "checked_sub b_j dy = Some bj"
    using ex by (auto simp: curve_exchange_def Let_def and_then_Ok ok_or_Ok split: if_splits)
  have "bi = b_i + dx" "unat b_i + unat dx < 2 ^ 256" "bj = b_j - dy"
    using up down by (auto simp: checked_add_def checked_sub_def split: if_splits)
  moreover have "b_j = cs_balances s ! unat j" using b(2) by (simp add: get_Some)
  ultimately show ?thesis
    using ij b s' curve_dy_bounds [OF dy] by (auto simp: word_le_unat word_less_unat)
qed

lemma sample_curve_fields:
  "cs_balances sample_curve = [1000, 1000]" "cs_rates sample_curve = [CURVE_WAD, CURVE_WAD]"
  "cs_fee sample_curve = 4000000" "\<not> cs_stale sample_curve" "\<not> cs_ng sample_curve"
  by (simp_all add: sample_curve_def)

lemma sample_apply:
  "curve_apply sample_curve 0 1 100 = (Ok 99, sample_curve\<lparr>cs_balances := [1100, 901]\<rparr>)"
proof -
  have "curve_xp sample_curve = Ok [1000, 1000]"
    by (simp add: curve_xp_def sample_curve_fields checked_eval CURVE_WAD_def)
  then have "curve_dy sample_curve 0 (Suc 0) 100 = Ok (99, 99, 900)"
    by (simp add: curve_dy_def get_def sample_get_y [simplified] checked_eval CURVE_WAD_def CURVE_FEE_DENOM_def half_def
        to_raw_def swap_fee_def sample_curve_fields)
  then show ?thesis
    by (simp add: curve_apply_def curve_exchange_def get_def checked_eval sample_curve_fields)
qed

theorem curve_apply_exact_witness:
  "\<exists>b_j dy. get (cs_balances sample_curve) 1 = Some b_j \<and> 99 \<le> dy \<and> dy < b_j"
  using curve_apply_exact [OF sample_apply] by auto

text \<open>
  C24. A quote is what the swap pays: quoting and applying agree on every input, value or error, and a refused
  swap leaves the pool as it was, so that the legs after it see the same state.
\<close>

theorem pool_quote_is_apply:
  "fst (curve_apply s i j a) = curve_quote s i j a \<and> (is_ok (curve_quote s i j a) \<or> snd (curve_apply s i j a) = s) \<and>
   fst (v2_apply p i j a) = v2_quote p i j a \<and> (is_ok (v2_quote p i j a) \<or> snd (v2_apply p i j a) = p)"
proof -
  have "i \<noteq> j \<and> unat i < length (cs_balances s) \<and> unat j < length (cs_balances s)"
    if "curve_exchange s i j a = Ok r" for r
    using that curve_dy_bounds(2,3)
    by (cases r) (fastforce simp: curve_exchange_def Let_def and_then_Ok split: if_splits)
  then have "fst (curve_apply s i j a) = curve_quote s i j a \<and>
      (is_ok (curve_quote s i j a) \<or> snd (curve_apply s i j a) = s)"
    by (cases "curve_exchange s i j a") (auto simp: curve_apply_def curve_quote_def get_def split: prod.splits)
  moreover have "fst (v2_apply p i j a) = v2_quote p i j a \<and> (is_ok (v2_quote p i j a) \<or> snd (v2_apply p i j a) = p)"
    by (cases "zero_for_one i j") (auto simp: v2_apply_def v2_quote_def split: result.splits)
  ultimately show ?thesis by blast
qed

section \<open>The dynamic fee\<close>

lemma four_product_le_square:
  fixes x y :: nat
  shows "4 * x * y \<le> (x + y) * (x + y)"
proof -
  have "0 \<le> (int x - int y) * (int x - int y)" by simp
  then have "int (4 * x * y) \<le> int ((x + y) * (x + y))" by (simp add: algebra_simps)
  then show ?thesis by (simp only: of_nat_le_iff)
qed

text \<open>
  C32. The dynamic fee is never below the base fee and never above the base fee times the multiplier, and a
  balanced pool charges exactly the base fee.
\<close>

theorem ng_dynamic_fee_bounds:
  assumes "ng_dynamic_fee x y fee m = Ok f"
  shows "fee \<le> f \<and> unat f * 10 ^ 10 \<le> unat fee * max (unat m) (10 ^ 10) \<and> (x = y \<longrightarrow> f = fee)"
proof (cases "m \<le> CURVE_FEE_DENOM")
  case True
  then show ?thesis using assms by (simp add: ng_dynamic_fee_def)
next
  case False
  define D X Y M where "D = unat CURVE_FEE_DENOM" and "X = unat x" and "Y = unat y" and "M = unat m"
  have DM: "D < M" "D = 10 ^ 10" using False by (simp_all add: D_def M_def word_le_unat) (simp add: CURVE_FEE_DENOM_def)
  define den where "den = (M - D) * 4 * X * Y div ((X + Y) * (X + Y)) + D"
  have f: "unat f = M * unat fee div den" and pos: "0 < (X + Y) * (X + Y)"
    using assms False by (auto simp: ng_dynamic_fee_def rust checked bind_eq_Some_conv den_def D_def M_def X_def Y_def
        unat_gt_0 simp flip: unat_gt_0 split: if_splits)
  have "(M - D) * (4 * X * Y) \<le> (M - D) * ((X + Y) * (X + Y))" by (rule mult_left_mono [OF four_product_le_square]) simp
  then have "(M - D) * 4 * X * Y div ((X + Y) * (X + Y)) \<le> M - D"
    using pos by (metis div_le_mono mult.assoc nonzero_mult_div_cancel_right less_numeral_extra(3))
  then have den: "den \<le> M" "D \<le> den" "0 < den" using DM by (simp_all add: den_def)
  have "unat fee * den \<le> M * unat fee" using den(1) by (simp add: mult.commute)
  then have low: "unat fee \<le> unat f" using den(3) by (simp add: f less_eq_div_iff_mult_less_eq)
  have "unat f * D \<le> unat f * den" using den(2) by simp
  also have "\<dots> \<le> M * unat fee" by (simp add: f)
  finally have high: "unat f * D \<le> M * unat fee" .
  have flat: "f = fee" if "x = y"
  proof -
    have "X = Y" using that by (simp add: X_def Y_def)
    then have "(M - D) * 4 * X * Y = (M - D) * ((X + Y) * (X + Y))" by (simp add: algebra_simps)
    then have "(M - D) * 4 * X * Y div ((X + Y) * (X + Y)) = M - D"
      using pos by (metis nonzero_mult_div_cancel_right less_numeral_extra(3))
    then have "den = M" using DM by (simp add: den_def)
    then show ?thesis using den(3) by (intro word_eq_unatI) (simp add: f)
  qed
  show ?thesis using low high flat DM by (simp add: word_le_unat M_def mult.commute)
qed

lemma sample_dynamic_fee: "ng_dynamic_fee 100 300 4000000 20000000000 = Ok 4571428"
  by (simp add: ng_dynamic_fee_def CURVE_FEE_DENOM_def checked_eval)

theorem ng_dynamic_fee_bounds_witness: "unat (4571428 :: u256) * 10 ^ 10 \<le> 4000000 * max 20000000000 (10 ^ 10)"
  using ng_dynamic_fee_bounds [OF sample_dynamic_fee] by simp

section \<open>Reads of a Curve pool\<close>










text \<open>
  Two reads the guard does not cover. Once a read has cleared the mark, a late read of a block before the log
  is taken over the newer state. And a read of an NG pool that is refused for the number of its balances has
  already replaced the rates.
\<close>

lemma late_read_taken:
  "snd (reseed_curve (snd (reseed_curve (curve_mark_stale sample_curve 12) [900, 1100] 100 1 0 None 13))
      [1000, 1000] 100 1 0 None 11) = sample_curve\<lparr>cs_fee := 0, cs_stale_block := 12, cs_read_block := 11\<rparr>"
  by (simp add: reseed_curve_def reseed_at_def reseed_def curve_mark_stale_def sample_curve_def word_less_unat max_def
      word_le_unat)

lemma refused_read_changes_rates:
  "reseed_curve (sample_curve\<lparr>cs_ng := True\<rparr>) [900] 100 1 0 (Some ([5, 7], 9)) 11 =
     (Err BadLeg, sample_curve\<lparr>cs_ng := True, cs_rates := [5, 7], cs_offpeg_fee_multiplier := 9\<rparr>)"
  by (simp add: reseed_curve_def reseed_at_def reseed_def set_ng_params_def sample_curve_def)

end
